(* ===== verification/Prelude.thy ===== *)
theory Prelude
  imports Main "HOL-Library.Word" "HOL-Library.Sublist" "HOL-Library.Monad_Syntax"
begin

text \<open>
  What every component shares: the named collections of simplification rules, Rust's
  \<^verbatim>\<open>Result\<close> as a sum with its \<^verbatim>\<open>?\<close> operator, the machine integers and their little-endian
  bytes, and the string operations of the Rust standard library that the sources use
  (\<^verbatim>\<open>split\<close>, \<^verbatim>\<open>join\<close>, \<^verbatim>\<open>trim_matches\<close>, \<^verbatim>\<open>strip_prefix\<close>, \<^verbatim>\<open>rsplit_once\<close>, \<^verbatim>\<open>split_once\<close>)
  as functions on lists, with the lemmas the components use about them.
\<close>

named_theorems split_simps \<open>splitting and joining component lists\<close>
named_theorems le_simps \<open>little-endian bytes\<close>

section \<open>Machine integers and results\<close>

type_synonym u8 = "8 word"
type_synonym u16 = "16 word"
type_synonym u32 = "32 word"
type_synonym u64 = "64 word"
type_synonym bytes = "u8 list"

text \<open>Rust's \<^verbatim>\<open>Result<T, E>\<close> is \<open>'e + 'a\<close>, \<open>Inl\<close> the error; this is its \<^verbatim>\<open>?\<close>.\<close>

definition rbind :: "'e + 'a \<Rightarrow> ('a \<Rightarrow> 'e + 'b) \<Rightarrow> 'e + 'b" where
  "rbind r f = (case r of Inl e \<Rightarrow> Inl e | Inr x \<Rightarrow> f x)"

lemma rbind_simps [simp]:
  "rbind (Inl e) f = Inl e" "rbind (Inr x) f = f x"
  by (simp_all add: rbind_def)

lemma rbind_eq_Inr: "rbind r f = Inr y \<longleftrightarrow> (\<exists>x. r = Inr x \<and> f x = Inr y)"
  by (cases r) auto

definition ok_or :: "'e \<Rightarrow> 'a option \<Rightarrow> 'e + 'a" where
  "ok_or e x = (case x of None \<Rightarrow> Inl e | Some y \<Rightarrow> Inr y)"

lemma ok_or_simps [simp]: "ok_or e None = Inl e" "ok_or e (Some x) = Inr x"
  by (simp_all add: ok_or_def)

lemma ok_or_eq_Inr [simp]: "ok_or e x = Inr y \<longleftrightarrow> x = Some y"
  by (cases x) auto

section \<open>Little-endian bytes\<close>

text \<open>\<open>nat_le k n\<close> is the \<open>k\<close> low bytes of \<open>n\<close>, least significant first; \<open>le_nat\<close> reads them.\<close>

primrec nat_le :: "nat \<Rightarrow> nat \<Rightarrow> bytes" where
  "nat_le 0 n = []"
| "nat_le (Suc k) n = word_of_nat n # nat_le k (n div 256)"

primrec le_nat :: "bytes \<Rightarrow> nat" where
  "le_nat [] = 0"
| "le_nat (b # bs) = unat b + 256 * le_nat bs"

definition u16_le :: "u16 \<Rightarrow> bytes" where "u16_le w = nat_le 2 (unat w)"
definition u32_le :: "u32 \<Rightarrow> bytes" where "u32_le w = nat_le 4 (unat w)"
definition u64_le :: "u64 \<Rightarrow> bytes" where "u64_le w = nat_le 8 (unat w)"
definition le_u32 :: "bytes \<Rightarrow> u32" where "le_u32 bs = word_of_nat (le_nat bs)"
definition le_u64 :: "bytes \<Rightarrow> u64" where "le_u64 bs = word_of_nat (le_nat bs)"

lemma length_nat_le [simp, le_simps]: "length (nat_le k n) = k"
  by (induction k arbitrary: n) auto

lemma length_u16_le [simp, le_simps]: "length (u16_le w) = 2"
  by (simp add: u16_le_def)

lemma length_u32_le [simp, le_simps]: "length (u32_le w) = 4"
  by (simp add: u32_le_def)

lemma length_u64_le [simp, le_simps]: "length (u64_le w) = 8"
  by (simp add: u64_le_def)

lemma le_nat_nat_le: "le_nat (nat_le k n) = n mod 256 ^ k"
proof (induction k arbitrary: n)
  case 0
  show ?case by simp
next
  case (Suc k)
  have "n mod 256 ^ Suc k = n mod 256 + 256 * (n div 256 mod 256 ^ k)"
    by (simp add: mod_mult2_eq)
  with Suc show ?case by (simp add: unat_of_nat)
qed

lemma le_nat_less: "le_nat bs < 256 ^ length bs"
proof (induction bs)
  case (Cons b bs)
  have "unat b < 256" using unsigned_less [of b] by simp
  with Cons show ?case by simp
qed simp

lemma nat_le_le_nat: "nat_le (length bs) (le_nat bs) = bs"
proof (induction bs)
  case (Cons b bs)
  have b: "unat b < 256" using unsigned_less [of b] by simp
  have "(word_of_nat (unat b + 256 * le_nat bs) :: u8) = b"
  proof -
    have "(word_of_nat (unat b + 256 * le_nat bs) :: u8) = b + 256 * word_of_nat (le_nat bs)"
      by simp
    also have "(256 :: u8) = 0" by simp
    finally show ?thesis by simp
  qed
  moreover have "(unat b + 256 * le_nat bs) div 256 = le_nat bs"
    using b by simp
  ultimately show ?case using Cons by simp
qed simp

lemma le_u32_u32_le [simp, le_simps]: "le_u32 (u32_le w) = w"
proof -
  have "unat w mod 256 ^ 4 = unat w"
    using unsigned_less [of w] by (intro mod_less) simp
  then show ?thesis by (simp add: le_u32_def u32_le_def le_nat_nat_le)
qed

lemma le_u64_u64_le [simp, le_simps]: "le_u64 (u64_le w) = w"
proof -
  have "unat w mod 256 ^ 8 = unat w"
    using unsigned_less [of w] by (intro mod_less) simp
  then show ?thesis by (simp add: le_u64_def u64_le_def le_nat_nat_le)
qed

lemma u32_le_le_u32: "length bs = 4 \<Longrightarrow> u32_le (le_u32 bs) = bs"
  using le_nat_less [of bs] nat_le_le_nat [of bs]
  by (simp add: le_u32_def u32_le_def unat_of_nat)

lemma u64_le_le_u64: "length bs = 8 \<Longrightarrow> u64_le (le_u64 bs) = bs"
  using le_nat_less [of bs] nat_le_le_nat [of bs]
  by (simp add: le_u64_def u64_le_def unat_of_nat)

lemma unat_of_nat_u32: "n < 2 ^ 32 \<Longrightarrow> unat (word_of_nat n :: u32) = n"
  by (simp add: unat_of_nat)

section \<open>String operations as list operations\<close>

text \<open>Rust's \<^verbatim>\<open>str::split\<close>: at least one piece, the pieces between the separators.\<close>

fun split_on :: "('a \<Rightarrow> bool) \<Rightarrow> 'a list \<Rightarrow> 'a list list" where
  "split_on P [] = [[]]"
| "split_on P (c # cs) =
     (if P c then [] # split_on P cs
      else (case split_on P cs of [] \<Rightarrow> [[c]] | w # ws \<Rightarrow> (c # w) # ws))"

text \<open>Rust's \<^verbatim>\<open>[&str]::join\<close> with a one-character separator.\<close>

fun join_with :: "'a \<Rightarrow> 'a list list \<Rightarrow> 'a list" where
  "join_with s [] = []"
| "join_with s [w] = w"
| "join_with s (w # v # ws) = w @ s # join_with s (v # ws)"

text \<open>\<^verbatim>\<open>str::trim_matches\<close> with a character, \<^verbatim>\<open>str::strip_prefix\<close>, \<^verbatim>\<open>str::split_once\<close>
  and \<^verbatim>\<open>str::rsplit_once\<close> with a character.\<close>

definition trim_matches :: "'a \<Rightarrow> 'a list \<Rightarrow> 'a list" where
  "trim_matches c s = rev (dropWhile ((=) c) (rev (dropWhile ((=) c) s)))"

definition strip_pre :: "'a list \<Rightarrow> 'a list \<Rightarrow> 'a list option" where
  "strip_pre p s = (if prefix p s then Some (drop (length p) s) else None)"

fun split_once :: "'a \<Rightarrow> 'a list \<Rightarrow> ('a list \<times> 'a list) option" where
  "split_once c [] = None"
| "split_once c (x # xs) =
     (if x = c then Some ([], xs)
      else (case split_once c xs of None \<Rightarrow> None | Some (a, b) \<Rightarrow> Some (x # a, b)))"

definition rsplit_once :: "'a \<Rightarrow> 'a list \<Rightarrow> ('a list \<times> 'a list) option" where
  "rsplit_once c s = map_option (\<lambda>(a, b). (rev b, rev a)) (split_once c (rev s))"

lemma split_on_not_Nil [simp, split_simps]: "split_on P xs \<noteq> []"
  by (induction xs) (auto split: list.splits)

lemma split_on_Cons_not:
  "\<not> P c \<Longrightarrow> split_on P (c # cs) = (c # hd (split_on P cs)) # tl (split_on P cs)"
  by (cases "split_on P cs") auto

lemma split_on_no_sep [split_simps]: "\<forall>c\<in>set w. \<not> P c \<Longrightarrow> split_on P w = [w]"
  by (induction w) auto

lemma split_on_append_sep [split_simps]:
  "P s \<Longrightarrow> split_on P (xs @ s # ys) = split_on P xs @ split_on P ys"
proof (induction xs)
  case (Cons c cs)
  then show ?case
    by (cases "split_on P cs") auto
qed simp

lemma split_on_pieces: "w \<in> set (split_on P xs) \<Longrightarrow> c \<in> set w \<Longrightarrow> \<not> P c"
proof (induction xs arbitrary: w)
  case (Cons x xs)
  then show ?case
    by (cases "split_on P xs") (fastforce split: if_splits)+
qed simp

lemma split_on_chars: "w \<in> set (split_on P xs) \<Longrightarrow> set w \<subseteq> set xs"
proof (induction xs arbitrary: w)
  case (Cons x xs)
  show ?case
  proof (cases "P x")
    case True
    with Cons show ?thesis by fastforce
  next
    case False
    obtain v vs where v: "split_on P xs = v # vs"
      by (cases "split_on P xs") auto
    with False Cons.prems have "w = x # v \<or> w \<in> set vs" by simp
    with v Cons.IH show ?thesis by fastforce
  qed
qed simp

lemma join_with_Cons: "ws \<noteq> [] \<Longrightarrow> join_with s (w # ws) = w @ s # join_with s ws"
  by (cases ws) auto

lemma join_with_eq_Nil: "[] \<notin> set ws \<Longrightarrow> join_with s ws = [] \<longleftrightarrow> ws = []"
  by (cases "(s, ws)" rule: join_with.cases) auto

lemma join_with_append:
  "us \<noteq> [] \<Longrightarrow> vs \<noteq> [] \<Longrightarrow> join_with s (us @ vs) = join_with s us @ s # join_with s vs"
proof (induction us)
  case (Cons u us)
  then show ?case by (cases us) (auto simp: join_with_Cons)
qed simp

lemma join_split [split_simps]: "join_with s (split_on ((=) s) xs) = xs"
proof (induction xs)
  case (Cons c cs)
  obtain w ws where w: "split_on ((=) s) cs = w # ws"
    by (cases "split_on ((=) s) cs") auto
  show ?case
  proof (cases "s = c")
    case True
    with Cons w show ?thesis by (simp add: join_with_Cons)
  next
    case False
    with Cons w show ?thesis by (cases ws) auto
  qed
qed simp

lemma split_join [split_simps]:
  assumes "ws \<noteq> []" and "\<forall>w\<in>set ws. s \<notin> set w"
  shows "split_on ((=) s) (join_with s ws) = ws"
  using assms
proof (induction ws)
  case (Cons w ws)
  show ?case
  proof (cases "ws = []")
    case True
    with Cons show ?thesis by (auto intro!: split_on_no_sep)
  next
    case False
    with Cons have "split_on ((=) s) (join_with s ws) = ws" by simp
    moreover have "split_on ((=) s) w = [w]"
      using Cons.prems by (auto intro!: split_on_no_sep)
    ultimately show ?thesis
      using False by (simp add: join_with_Cons split_on_append_sep)
  qed
qed simp

lemma split_once_None [simp]: "split_once c xs = None \<longleftrightarrow> c \<notin> set xs"
  by (induction xs) (auto split: option.splits)

lemma split_once_Some:
  "split_once c xs = Some (a, b) \<longleftrightarrow> xs = a @ c # b \<and> c \<notin> set a"
proof (induction xs arbitrary: a)
  case (Cons x xs)
  show ?case
  proof (cases "x = c")
    case True
    then show ?thesis by (cases a) auto
  next
    case False
    have "split_once c (x # xs) = Some (a, b) \<longleftrightarrow>
          (\<exists>a'. split_once c xs = Some (a', b) \<and> a = x # a')"
      using False by (auto simp del: split_once_None split: option.splits)
    also have "\<dots> \<longleftrightarrow> (\<exists>a'. xs = a' @ c # b \<and> c \<notin> set a' \<and> a = x # a')"
      by (simp add: Cons.IH)
    also have "\<dots> \<longleftrightarrow> x # xs = a @ c # b \<and> c \<notin> set a"
      using False by (cases a) auto
    finally show ?thesis .
  qed
qed simp

lemma rsplit_once_None [simp]: "rsplit_once c xs = None \<longleftrightarrow> c \<notin> set xs"
  by (simp add: rsplit_once_def)

lemma rsplit_once_Some:
  "rsplit_once c xs = Some (a, b) \<longleftrightarrow> xs = a @ c # b \<and> c \<notin> set b"
proof -
  have "rsplit_once c xs = Some (a, b) \<longleftrightarrow> split_once c (rev xs) = Some (rev b, rev a)"
    by (cases "split_once c (rev xs)") (auto simp: rsplit_once_def)
  also have "\<dots> \<longleftrightarrow> rev xs = rev b @ c # rev a \<and> c \<notin> set b"
    by (simp add: split_once_Some)
  also have "\<dots> \<longleftrightarrow> xs = a @ c # b \<and> c \<notin> set b"
    by (metis rev_append rev_rev_ident rev.simps(2) append.assoc append_Cons append_Nil)
  finally show ?thesis .
qed

lemma strip_pre_Some: "strip_pre p s = Some r \<longleftrightarrow> s = p @ r"
  by (auto simp: strip_pre_def prefix_def)

lemma trim_matches_id:
  assumes "xs \<noteq> []" and "hd xs \<noteq> c" and "last xs \<noteq> c"
  shows "trim_matches c xs = xs"
proof -
  have 1: "dropWhile ((=) c) xs = xs"
    using assms by (cases xs) auto
  have 2: "dropWhile ((=) c) (rev xs) = rev xs"
    using assms by (cases xs rule: rev_cases) auto
  show ?thesis by (simp add: trim_matches_def 1 2)
qed

lemma trim_matches_Nil [simp]: "trim_matches c [] = []"
  by (simp add: trim_matches_def)

end
