(* ===== verification/Ustring.thy ===== *)
theory Ustring
  imports Prelude
begin

text \<open>
  Rust strings. A \<^verbatim>\<open>char\<close> is a Unicode scalar value, modelled by its code point; a \<^verbatim>\<open>String\<close>
  or \<^verbatim>\<open>&str\<close> is a list of them. The theory models what the sources use of the standard
  library on the encodings: \<^verbatim>\<open>as_bytes\<close> and \<^verbatim>\<open>str::from_utf8\<close> (strict UTF-8) and
  \<^verbatim>\<open>encode_utf16\<close>. \<open>lit\<close> turns a literal into such a string.
\<close>

type_synonym rchar = nat
type_synonym rstr = "rchar list"

definition lit :: "string \<Rightarrow> rstr" where
  "lit s = map of_char s"

definition valid_char :: "rchar \<Rightarrow> bool" where
  "valid_char c \<longleftrightarrow> c < 0xD800 \<or> 0xE000 \<le> c \<and> c < 0x110000"

definition valid_str :: "rstr \<Rightarrow> bool" where
  "valid_str s \<longleftrightarrow> (\<forall>c\<in>set s. valid_char c)"

abbreviation slash :: rchar where "slash \<equiv> 47"
abbreviation backslash :: rchar where "backslash \<equiv> 92"

section \<open>UTF-8\<close>

definition byte :: "nat \<Rightarrow> u8" where
  "byte n = word_of_nat n"

definition utf8_char :: "rchar \<Rightarrow> bytes" where
  "utf8_char c =
     (if c < 0x80 then [byte c]
      else if c < 0x800 then [byte (0xC0 + c div 64), byte (0x80 + c mod 64)]
      else if c < 0x10000 then
        [byte (0xE0 + c div 4096), byte (0x80 + c div 64 mod 64),
         byte (0x80 + c mod 64)]
      else
        [byte (0xF0 + c div 262144), byte (0x80 + c div 4096 mod 64),
         byte (0x80 + c div 64 mod 64), byte (0x80 + c mod 64)])"

definition utf8 :: "rstr \<Rightarrow> bytes" where
  "utf8 s = concat (map utf8_char s)"

definition is_cont :: "u8 \<Rightarrow> bool" where
  "is_cont b \<longleftrightarrow> 0x80 \<le> unat b \<and> unat b < 0xC0"

definition cont_bits :: "u8 \<Rightarrow> nat" where
  "cont_bits b = unat b - 0x80"

text \<open>One character off the front of a byte string, or \<open>None\<close> where \<^verbatim>\<open>from_utf8\<close> fails:
  a stray continuation byte, a truncated or overlong form, a surrogate, a value too large.\<close>

definition utf8_next :: "bytes \<Rightarrow> (rchar \<times> bytes) option" where
  "utf8_next bs = (case bs of [] \<Rightarrow> None | b # r \<Rightarrow>
     (let n = unat b in
      if n < 0x80 then Some (n, r)
      else if 0xC2 \<le> n \<and> n < 0xE0 then
        (case r of b1 # r1 \<Rightarrow>
           if is_cont b1 then Some ((n - 0xC0) * 64 + cont_bits b1, r1) else None
         | _ \<Rightarrow> None)
      else if 0xE0 \<le> n \<and> n < 0xF0 then
        (case r of b1 # b2 # r2 \<Rightarrow>
           let c = (n - 0xE0) * 4096 + cont_bits b1 * 64 + cont_bits b2 in
           if is_cont b1 \<and> is_cont b2 \<and> 0x800 \<le> c \<and> valid_char c then Some (c, r2) else None
         | _ \<Rightarrow> None)
      else if 0xF0 \<le> n \<and> n < 0xF5 then
        (case r of b1 # b2 # b3 # r3 \<Rightarrow>
           let c = (n - 0xF0) * 262144 + cont_bits b1 * 4096 + cont_bits b2 * 64 + cont_bits b3 in
           if is_cont b1 \<and> is_cont b2 \<and> is_cont b3 \<and> 0x10000 \<le> c \<and> valid_char c
           then Some (c, r3) else None
         | _ \<Rightarrow> None)
      else None))"

lemma utf8_next_shorter: "utf8_next bs = Some (c, r) \<Longrightarrow> length r < length bs"
  by (auto simp: utf8_next_def Let_def split: list.splits if_splits)

function from_utf8 :: "bytes \<Rightarrow> rstr option" where
  "from_utf8 bs =
     (if bs = [] then Some []
      else (case utf8_next bs of None \<Rightarrow> None
            | Some (c, r) \<Rightarrow> map_option (Cons c) (from_utf8 r)))"
  by pat_completeness auto
termination
  by (relation "measure length") (auto dest: utf8_next_shorter)

declare from_utf8.simps [simp del]

lemma from_utf8_Nil [simp]: "from_utf8 [] = Some []"
  by (simp add: from_utf8.simps)

lemma unat_byte: "n < 256 \<Longrightarrow> unat (byte n) = n"
  by (simp add: byte_def unat_of_nat)

lemma byte_unat [simp]: "byte (unat b) = b"
  by (simp add: byte_def)

lemma utf8_Nil [simp]: "utf8 [] = []"
  by (simp add: utf8_def)

lemma utf8_Cons [simp]: "utf8 (c # s) = utf8_char c @ utf8 s"
  by (simp add: utf8_def)

lemma utf8_append [simp]: "utf8 (s @ t) = utf8 s @ utf8 t"
  by (simp add: utf8_def)

lemma utf8_char_not_Nil [simp]: "utf8_char c \<noteq> []"
  by (simp add: utf8_char_def)

lemma utf8_next_char:
  assumes "valid_char c"
  shows "utf8_next (utf8_char c @ r) = Some (c, r)"
proof -
  have c: "c < 0x110000" using assms by (auto simp: valid_char_def)
  have d2: "c < 0x800 \<Longrightarrow> c div 64 < 32" by linarith
  have d3: "c < 0x10000 \<Longrightarrow> c div 4096 < 16" by linarith
  have d4: "c div 262144 < 5" using c by linarith
  have m: "c div 64 mod 64 < 64" "c mod 64 < 64" "c div 4096 mod 64 < 64" by simp_all
  have e2: "c div 64 * 64 + c mod 64 = c"
    by (rule div_mult_mod_eq)
  have q: "c div 4096 * 64 + c div 64 mod 64 = c div 64"
    using div_mult_mod_eq [of "c div 64" 64] by (simp add: div_mult2_eq [symmetric])
  have q': "c div 262144 * 64 + c div 4096 mod 64 = c div 4096"
    using div_mult_mod_eq [of "c div 4096" 64] by (simp add: div_mult2_eq [symmetric])
  have e3: "c div 4096 * 4096 + c div 64 mod 64 * 64 + c mod 64 = c"
    using e2 q by linarith
  have e4: "c div 262144 * 262144 + c div 4096 mod 64 * 4096 + c div 64 mod 64 * 64 + c mod 64 = c"
    using e3 q' by linarith
  consider "c < 0x80" | "0x80 \<le> c" "c < 0x800" | "0x800 \<le> c" "c < 0x10000" | "0x10000 \<le> c"
    by linarith
  then show ?thesis
  proof cases
    case 1
    then show ?thesis by (simp add: utf8_next_def utf8_char_def unat_byte)
  next
    case 2
    have "2 \<le> c div 64" using 2 by linarith
    with 2 d2 m e2 show ?thesis
      by (auto simp: utf8_next_def utf8_char_def unat_byte is_cont_def cont_bits_def Let_def)
  next
    case 3
    with d3 m e3 assms show ?thesis
      by (simp add: utf8_next_def utf8_char_def unat_byte is_cont_def cont_bits_def Let_def)
  next
    case 4
    with d4 m e4 assms show ?thesis
      by (simp add: utf8_next_def utf8_char_def unat_byte is_cont_def cont_bits_def Let_def)
  qed
qed

lemma from_utf8_utf8: "valid_str s \<Longrightarrow> from_utf8 (utf8 s) = Some s"
proof (induction s)
  case (Cons c s)
  then have "valid_char c" "valid_str s" by (auto simp: valid_str_def)
  with Cons.IH show ?case
    by (simp add: from_utf8.simps [of "utf8_char c @ utf8 s"] utf8_next_char)
qed simp

lemma is_cont_cases:
  assumes "is_cont b"
  obtains k where "k < 64" "unat b = 0x80 + k" "cont_bits b = k" "b = byte (0x80 + k)"
proof -
  have k: "unat b = 0x80 + (unat b - 0x80)" "unat b - 0x80 < 64"
    using assms by (auto simp: is_cont_def)
  have "b = byte (0x80 + (unat b - 0x80))"
    using byte_unat [of b] by (subst (asm) k(1)) simp
  with k show ?thesis
    by (intro that [of "unat b - 0x80"]) (simp_all add: cont_bits_def)
qed

lemma div_mod_64:
  fixes a l :: nat
  assumes "c = a * 64 + l" and "l < 64"
  shows "c mod 64 = l" and "c div 64 = a"
  using assms by simp_all

lemma utf8_next_inv:
  assumes "utf8_next bs = Some (c, r)"
  shows "valid_char c \<and> bs = utf8_char c @ r"
proof -
  obtain b t where bs: "bs = b # t" using assms by (cases bs) (auto simp: utf8_next_def)
  define n where "n = unat b"
  have b: "b = byte n" by (simp add: n_def)
  consider (1) "n < 0x80" | (2) "0xC2 \<le> n" "n < 0xE0" | (3) "0xE0 \<le> n" "n < 0xF0"
    | (4) "0xF0 \<le> n" "n < 0xF5"
    using assms by (auto simp: utf8_next_def bs n_def [symmetric] Let_def split: if_splits)
  then show ?thesis
  proof cases
    case 1
    with assms have "c = n" "r = t"
      by (auto simp: utf8_next_def bs n_def [symmetric] Let_def)
    with 1 b show ?thesis by (simp add: bs utf8_char_def valid_char_def)
  next
    case 2
    then obtain b1 where t: "t = b1 # r" and c1: "is_cont b1"
      and c: "c = (n - 0xC0) * 64 + cont_bits b1"
      using assms
      by (auto simp: utf8_next_def bs n_def [symmetric] Let_def split: list.splits if_splits)
    from c1 obtain k where k: "k < 64" "cont_bits b1 = k" "b1 = byte (0x80 + k)"
      by (rule is_cont_cases) auto
    have d: "c div 64 = n - 0xC0" "c mod 64 = k" using c k by auto
    have "0x80 \<le> c" "c < 0x800" using c k 2 by auto
    with d k t b bs 2 show ?thesis by (auto simp: utf8_char_def valid_char_def)
  next
    case 3
    then obtain b1 b2 where t: "t = b1 # b2 # r" and c1: "is_cont b1" and c2: "is_cont b2"
      and c: "c = (n - 0xE0) * 4096 + cont_bits b1 * 64 + cont_bits b2"
      and v: "0x800 \<le> c" "valid_char c"
      using assms
      by (auto simp: utf8_next_def bs n_def [symmetric] Let_def split: list.splits if_splits)
    from c1 obtain k where k: "k < 64" "cont_bits b1 = k" "b1 = byte (0x80 + k)"
      by (rule is_cont_cases) auto
    from c2 obtain l where l: "l < 64" "cont_bits b2 = l" "b2 = byte (0x80 + l)"
      by (rule is_cont_cases) auto
    have c': "c = ((n - 0xE0) * 64 + k) * 64 + l" using c k l by simp
    note d = div_mod_64 [OF c' l(1)]
    note d' = div_mod_64 [OF d(2) k(1)]
    from d' have d4: "c div 4096 = n - 0xE0" by (simp add: div_mult2_eq [symmetric])
    have "c < 0x10000" using c k l 3 by auto
    with d d' d4 k l t b bs 3 v show ?thesis by (auto simp: utf8_char_def)
  next
    case 4
    then obtain b1 b2 b3 where t: "t = b1 # b2 # b3 # r"
      and c1: "is_cont b1" and c2: "is_cont b2" and c3: "is_cont b3"
      and c: "c = (n - 0xF0) * 262144 + cont_bits b1 * 4096 + cont_bits b2 * 64 + cont_bits b3"
      and v: "0x10000 \<le> c" "valid_char c"
      using assms
      by (auto simp: utf8_next_def bs n_def [symmetric] Let_def split: list.splits if_splits)
    from c1 obtain k where k: "k < 64" "cont_bits b1 = k" "b1 = byte (0x80 + k)"
      by (rule is_cont_cases) auto
    from c2 obtain l where l: "l < 64" "cont_bits b2 = l" "b2 = byte (0x80 + l)"
      by (rule is_cont_cases) auto
    from c3 obtain m where m: "m < 64" "cont_bits b3 = m" "b3 = byte (0x80 + m)"
      by (rule is_cont_cases) auto
    have c': "c = (((n - 0xF0) * 64 + k) * 64 + l) * 64 + m" using c k l m by simp
    note d = div_mod_64 [OF c' m(1)]
    note d' = div_mod_64 [OF d(2) l(1)]
    from d' have d4: "c div 4096 = (n - 0xF0) * 64 + k" by (simp add: div_mult2_eq [symmetric])
    note d5 = div_mod_64 [OF d4 k(1)]
    from d5 have d6: "c div 262144 = n - 0xF0" by (simp add: div_mult2_eq [symmetric])
    from d d' d4 d5 d6 k l m t b bs 4 v show ?thesis by (auto simp: utf8_char_def)
  qed
qed

lemma from_utf8_inv: "from_utf8 bs = Some s \<Longrightarrow> bs = utf8 s \<and> valid_str s"
proof (induction bs arbitrary: s rule: from_utf8.induct)
  case (1 bs)
  show ?case
  proof (cases "bs = []")
    case True
    with "1.prems" show ?thesis by (simp add: valid_str_def)
  next
    case False
    with "1.prems" obtain c r t where n: "utf8_next bs = Some (c, r)"
      and r: "from_utf8 r = Some t" and s: "s = c # t"
      by (auto simp: from_utf8.simps [of bs] split: option.splits)
    from "1.IH" [OF False n refl r] have "r = utf8 t \<and> valid_str t" .
    with utf8_next_inv [OF n] s show ?thesis by (auto simp: valid_str_def)
  qed
qed

lemma from_utf8_iff: "from_utf8 bs = Some s \<longleftrightarrow> valid_str s \<and> bs = utf8 s"
  using from_utf8_inv from_utf8_utf8 by blast

lemma utf8_inj: "valid_str s \<Longrightarrow> valid_str t \<Longrightarrow> utf8 s = utf8 t \<Longrightarrow> s = t"
  using from_utf8_utf8 by (metis option.inject)

text \<open>An ASCII byte of an encoded string is that character.\<close>

lemma utf8_char_ascii:
  assumes "valid_char c" and "b \<in> set (utf8_char c)" and "unat b < 128"
  shows "c = unat b"
proof (cases "c < 0x80")
  case True
  with assms show ?thesis by (simp add: utf8_char_def unat_byte)
next
  case False
  have "c < 0x110000" using assms(1) by (auto simp: valid_char_def)
  then have d: "c < 0x800 \<Longrightarrow> c div 64 < 32" "c < 0x10000 \<Longrightarrow> c div 4096 < 16" "c div 262144 < 5"
    by (auto simp: less_mult_imp_div_less)
  have "128 \<le> unat b"
    using assms(2) False d by (auto simp: utf8_char_def unat_byte split: if_splits)
  with assms(3) show ?thesis by simp
qed

section \<open>UTF-16\<close>

definition utf16_char :: "rchar \<Rightarrow> u16 list" where
  "utf16_char c =
     (if c < 0x10000 then [word_of_nat c]
      else [word_of_nat (0xD800 + (c - 0x10000) div 0x400),
            word_of_nat (0xDC00 + (c - 0x10000) mod 0x400)])"

definition encode_utf16 :: "rstr \<Rightarrow> u16 list" where
  "encode_utf16 s = concat (map utf16_char s)"

text \<open>A name of \<open>n\<close> UTF-16 units takes at most \<open>3 * n\<close> bytes of UTF-8.\<close>

lemma length_utf8_char_le: "length (utf8_char c) \<le> 3 * length (utf16_char c)"
  by (simp add: utf8_char_def utf16_char_def)

lemma length_utf8_le: "length (utf8 s) \<le> 3 * length (encode_utf16 s)"
proof (induction s)
  case (Cons c s)
  then show ?case using length_utf8_char_le [of c] by (simp add: encode_utf16_def)
qed (simp add: encode_utf16_def)

lemma valid_str_simps [simp]:
  "valid_str []" "valid_str (c # s) \<longleftrightarrow> valid_char c \<and> valid_str s"
  "valid_str (s @ t) \<longleftrightarrow> valid_str s \<and> valid_str t"
  by (auto simp: valid_str_def)

lemma utf8_ascii: "valid_str s \<Longrightarrow> b \<in> set (utf8 s) \<Longrightarrow> unat b < 128 \<Longrightarrow> unat b \<in> set s"
  by (induction s) (auto dest: utf8_char_ascii)

end
