(* ===== verification/Casefold.thy ===== *)
theory Casefold
  imports Ustring "HOL-Library.List_Lexorder"
begin

text \<open>
  \<^verbatim>\<open>vfs-core/src/casefold.rs\<close>: the case fold every component compares names with.
  \<^verbatim>\<open>char::to_lowercase\<close> is the standard library's Unicode table (Unicode 16, the one of the
  workspace's minimum Rust version), written here as ranges \<open>(first, last, step, delta)\<close>: a
  character in a range is mapped to itself plus \<open>delta\<close>. The ranges come in blocks that
  carry their least and greatest character. One character, U+0130, has a
  lowercase of two characters.

  Strings are ordered as Rust orders them, by code point, which is the lexicographic order on
  the lists.
\<close>

type_synonym lower_range = "int \<times> int \<times> int \<times> int"

definition lower_blocks :: "(int \<times> int \<times> lower_range list) list" where
  "lower_blocks = [
    (65, 394,
     [(65, 90, 1, 32), (192, 214, 1, 32), (216, 222, 1, 32), (256, 302, 2, 1),
      (306, 310, 2, 1), (313, 327, 2, 1), (330, 374, 2, 1), (376, 376, 1, -121),
      (377, 381, 2, 1), (385, 385, 1, 210), (386, 388, 2, 1), (390, 390, 1, 206),
      (391, 391, 1, 1), (393, 394, 1, 205)]),
    (395, 420,
     [(395, 395, 1, 1), (398, 398, 1, 79), (399, 399, 1, 202), (400, 400, 1, 203),
      (401, 401, 1, 1), (403, 403, 1, 205), (404, 404, 1, 207), (406, 406, 1, 211),
      (407, 407, 1, 209), (408, 408, 1, 1), (412, 412, 1, 211), (413, 413, 1, 213),
      (415, 415, 1, 214), (416, 420, 2, 1)]),
    (422, 455,
     [(422, 422, 1, 218), (423, 423, 1, 1), (425, 425, 1, 218), (428, 428, 1, 1),
      (430, 430, 1, 218), (431, 431, 1, 1), (433, 434, 1, 217), (435, 437, 2, 1),
      (439, 439, 1, 219), (440, 440, 1, 1), (444, 444, 1, 1), (452, 452, 1, 2),
      (453, 453, 1, 1), (455, 455, 1, 2)]),
    (456, 573,
     [(456, 456, 1, 1), (458, 458, 1, 2), (459, 475, 2, 1), (478, 494, 2, 1), (497, 497, 1, 2),
      (498, 500, 2, 1), (502, 502, 1, -97), (503, 503, 1, -56), (504, 542, 2, 1),
      (544, 544, 1, -130), (546, 562, 2, 1), (570, 570, 1, 10795), (571, 571, 1, 1),
      (573, 573, 1, -163)]),
    (574, 929,
     [(574, 574, 1, 10792), (577, 577, 1, 1), (579, 579, 1, -195), (580, 580, 1, 69),
      (581, 581, 1, 71), (582, 590, 2, 1), (880, 882, 2, 1), (886, 886, 1, 1),
      (895, 895, 1, 116), (902, 902, 1, 38), (904, 906, 1, 37), (908, 908, 1, 64),
      (910, 911, 1, 63), (913, 929, 1, 32)]),
    (931, 1229,
     [(931, 939, 1, 32), (975, 975, 1, 8), (984, 1006, 2, 1), (1012, 1012, 1, -60),
      (1015, 1015, 1, 1), (1017, 1017, 1, -7), (1018, 1018, 1, 1), (1021, 1023, 1, -130),
      (1024, 1039, 1, 80), (1040, 1071, 1, 32), (1120, 1152, 2, 1), (1162, 1214, 2, 1),
      (1216, 1216, 1, 15), (1217, 1229, 2, 1)]),
    (1232, 7951,
     [(1232, 1326, 2, 1), (1329, 1366, 1, 48), (4256, 4293, 1, 7264), (4295, 4295, 1, 7264),
      (4301, 4301, 1, 7264), (5024, 5103, 1, 38864), (5104, 5109, 1, 8), (7305, 7305, 1, 1),
      (7312, 7354, 1, -3008), (7357, 7359, 1, -3008), (7680, 7828, 2, 1),
      (7838, 7838, 1, -7615), (7840, 7934, 2, 1), (7944, 7951, 1, -8)]),
    (7960, 8140,
     [(7960, 7965, 1, -8), (7976, 7983, 1, -8), (7992, 7999, 1, -8), (8008, 8013, 1, -8),
      (8025, 8031, 2, -8), (8040, 8047, 1, -8), (8072, 8079, 1, -8), (8088, 8095, 1, -8),
      (8104, 8111, 1, -8), (8120, 8121, 1, -8), (8122, 8123, 1, -74), (8124, 8124, 1, -9),
      (8136, 8139, 1, -86), (8140, 8140, 1, -9)]),
    (8152, 8579,
     [(8152, 8153, 1, -8), (8154, 8155, 1, -100), (8168, 8169, 1, -8), (8170, 8171, 1, -112),
      (8172, 8172, 1, -7), (8184, 8185, 1, -128), (8186, 8187, 1, -126), (8188, 8188, 1, -9),
      (8486, 8486, 1, -7517), (8490, 8490, 1, -8383), (8491, 8491, 1, -8262),
      (8498, 8498, 1, 28), (8544, 8559, 1, 16), (8579, 8579, 1, 1)]),
    (9398, 11391,
     [(9398, 9423, 1, 26), (11264, 11311, 1, 48), (11360, 11360, 1, 1),
      (11362, 11362, 1, -10743), (11363, 11363, 1, -3814), (11364, 11364, 1, -10727),
      (11367, 11371, 2, 1), (11373, 11373, 1, -10780), (11374, 11374, 1, -10749),
      (11375, 11375, 1, -10783), (11376, 11376, 1, -10782), (11378, 11378, 1, 1),
      (11381, 11381, 1, 1), (11390, 11391, 1, -10815)]),
    (11392, 42920,
     [(11392, 11490, 2, 1), (11499, 11501, 2, 1), (11506, 11506, 1, 1), (42560, 42604, 2, 1),
      (42624, 42650, 2, 1), (42786, 42798, 2, 1), (42802, 42862, 2, 1), (42873, 42875, 2, 1),
      (42877, 42877, 1, -35332), (42878, 42886, 2, 1), (42891, 42891, 1, 1),
      (42893, 42893, 1, -42280), (42896, 42898, 2, 1), (42902, 42920, 2, 1)]),
    (42922, 42953,
     [(42922, 42922, 1, -42308), (42923, 42923, 1, -42319), (42924, 42924, 1, -42315),
      (42925, 42925, 1, -42305), (42926, 42926, 1, -42308), (42928, 42928, 1, -42258),
      (42929, 42929, 1, -42282), (42930, 42930, 1, -42261), (42931, 42931, 1, 928),
      (42932, 42946, 2, 1), (42948, 42948, 1, -48), (42949, 42949, 1, -42307),
      (42950, 42950, 1, -35384), (42951, 42953, 2, 1)]),
    (42955, 68786,
     [(42955, 42955, 1, -42343), (42956, 42956, 1, 1), (42960, 42960, 1, 1),
      (42966, 42970, 2, 1), (42972, 42972, 1, -42561), (42997, 42997, 1, 1),
      (65313, 65338, 1, 32), (66560, 66599, 1, 40), (66736, 66771, 1, 40),
      (66928, 66938, 1, 39), (66940, 66954, 1, 39), (66956, 66962, 1, 39),
      (66964, 66965, 1, 39), (68736, 68786, 1, 64)]),
    (68944, 125217,
     [(68944, 68965, 1, 32), (71840, 71871, 1, 32), (93760, 93791, 1, 32),
      (125184, 125217, 1, 34)])]"

definition lower_ranges :: "lower_range list" where
  "lower_ranges = concat (map (\<lambda>(lo, hi, rs). rs) lower_blocks)"

definition in_range :: "int \<Rightarrow> lower_range \<Rightarrow> bool" where
  "in_range c r = (case r of (s, e, st, d) \<Rightarrow> s \<le> c \<and> c \<le> e \<and> (c - s) mod st = 0)"

definition to_lowercase :: "rchar \<Rightarrow> rchar list" where
  "to_lowercase c =
     (if c = 0x130 then [105, 0x307]
      else (case List.find (in_range (int c)) lower_ranges of
              None \<Rightarrow> [c]
            | Some (s, e, st, d) \<Rightarrow> [nat (int c + d)]))"

definition is_ascii :: "rstr \<Rightarrow> bool" where
  "is_ascii s \<longleftrightarrow> (\<forall>c\<in>set s. c < 128)"

definition to_ascii_lowercase :: "rchar \<Rightarrow> rchar" where
  "to_ascii_lowercase c = (if 65 \<le> c \<and> c \<le> 90 then c + 32 else c)"

definition fold_unicode :: "rstr \<Rightarrow> rstr" where
  "fold_unicode s = concat (map to_lowercase s)"

definition cfold :: "rstr \<Rightarrow> rstr" where
  "cfold s = (if is_ascii s then map to_ascii_lowercase s else fold_unicode s)"

datatype ordering = Less | Equal | Greater

definition cmp :: "'a::linorder \<Rightarrow> 'a \<Rightarrow> ordering" where
  "cmp a b = (if a < b then Less else if a = b then Equal else Greater)"

definition cmp_ci :: "rstr \<Rightarrow> rstr \<Rightarrow> ordering" where
  "cmp_ci a b = cmp (cfold a) (cfold b)"

section \<open>The table\<close>

text \<open>Checks that run over the table itself: the first range is the ASCII one and all others
  start above it; no image of a range falls into a range; images of non-ASCII characters are
  non-ASCII but for the two letters \<open>i\<close> and \<open>k\<close>.\<close>

definition one_parity :: "lower_range \<Rightarrow> bool" where
  "one_parity r = (case r of (s, e, st, d) \<Rightarrow> st = 2 \<or> s = e)"

definition image_misses :: "lower_range \<Rightarrow> lower_range \<Rightarrow> bool" where
  "image_misses r q = (case r of (s, e, st, d) \<Rightarrow> case q of (s', e', st', d') \<Rightarrow>
     e + d < s' \<or> e' < s + d \<or>
     (one_parity r \<and> one_parity q \<and> (s + d - s') mod 2 \<noteq> 0))"

definition block_ok :: "int \<times> int \<times> lower_range list \<Rightarrow> bool" where
  "block_ok b = (case b of (lo, hi, rs) \<Rightarrow>
     list_all (\<lambda>(s, e, st, d). lo \<le> s \<and> e \<le> hi) rs)"

definition misses_block :: "lower_range \<Rightarrow> int \<times> int \<times> lower_range list \<Rightarrow> bool" where
  "misses_block r b = (case r of (s, e, st, d) \<Rightarrow> case b of (lo, hi, rs) \<Rightarrow>
     e + d < lo \<or> hi < s + d \<or> list_all (image_misses r) rs)"

definition table_ok :: bool where
  "table_ok \<longleftrightarrow> list_all block_ok lower_blocks \<and>
     list_all (\<lambda>(lo, hi, rs). list_all (\<lambda>r. list_all (misses_block r) lower_blocks) rs) lower_blocks"

definition high_image :: "lower_range \<Rightarrow> bool" where
  "high_image r = (case r of (s, e, st, d) \<Rightarrow>
     128 \<le> s \<and> (128 \<le> s + d \<and> \<not> (s + d \<le> 304 \<and> 304 \<le> e + d) \<or> s = e \<and> s + d = 107))"

lemma lower_ranges_Cons: "lower_ranges = (65, 90, 1, 32) # tl lower_ranges"
  by (simp add: lower_ranges_def lower_blocks_def)

lemma high_images: "list_all high_image (tl lower_ranges)"
  by (simp add: lower_ranges_def lower_blocks_def high_image_def)

lemma table_ok: "table_ok"
  by code_simp

lemma table_misses:
  assumes "r \<in> set lower_ranges" and "q \<in> set lower_ranges"
  shows "image_misses r q"
proof -
  obtain lo hi rs where b: "(lo, hi, rs) \<in> set lower_blocks" "r \<in> set rs"
    using assms(1) by (auto simp: lower_ranges_def)
  obtain lo' hi' rs' where b': "(lo', hi', rs') \<in> set lower_blocks" "q \<in> set rs'"
    using assms(2) by (auto simp: lower_ranges_def)
  obtain s e st d where r: "r = (s, e, st, d)" by (cases r)
  obtain s' e' st' d' where q: "q = (s', e', st', d')" by (cases q)
  from table_ok b b' have "misses_block r (lo', hi', rs')"
    unfolding table_ok_def list_all_iff by fastforce
  moreover from table_ok b' have "lo' \<le> s'" "e' \<le> hi'"
    unfolding table_ok_def list_all_iff block_ok_def q by fastforce+
  ultimately show ?thesis
    using b'(2) by (auto simp: misses_block_def image_misses_def r q list_all_iff)
qed

lemma image_not_in_range:
  assumes "r \<in> set lower_ranges" and "q \<in> set lower_ranges"
    and "r = (s, e, st, d)" and "in_range c r"
  shows "\<not> in_range (c + d) q"
proof
  assume q: "in_range (c + d) q"
  obtain s' e' st' d' where q': "q = (s', e', st', d')" by (cases q)
  have pr: "(c - s) mod 2 = 0" if "one_parity r"
    using assms(4) that by (auto simp: in_range_def one_parity_def assms(3))
  have pq: "(c + d - s') mod 2 = 0" if "one_parity q"
    using q that by (auto simp: in_range_def one_parity_def q')
  from table_misses [OF assms(1,2)] consider
    "e + d < s'" | "e' < s + d" | "one_parity r" "one_parity q" "(s + d - s') mod 2 \<noteq> 0"
    by (auto simp: image_misses_def assms(3) q')
  then show False
  proof cases
    case 3
    with pr pq have "(c - s) mod 2 = 0" "(c + d - s') mod 2 = 0" by auto
    with 3(3) show False by presburger
  qed (use assms(4) q in \<open>auto simp: in_range_def assms(3) q'\<close>)
qed

lemma in_tl_high:
  assumes "(s, e, st, d) \<in> set (tl lower_ranges)"
  shows "high_image (s, e, st, d)"
  using assms high_images by (auto simp: list_all_iff)

lemma range_cases:
  assumes "(s, e, st, d) \<in> set lower_ranges"
  obtains "s = 65" "e = 90" "st = 1" "d = 32" | "high_image (s, e, st, d)"
  using assms in_tl_high by (subst (asm) lower_ranges_Cons) auto

section \<open>Lowercase of one character\<close>

lemma to_lowercase_cases:
  obtains (dotted) "c = 0x130" "to_lowercase c = [105, 0x307]"
  | (same) "c \<noteq> 0x130" "to_lowercase c = [c]" "\<And>r. r \<in> set lower_ranges \<Longrightarrow> \<not> in_range (int c) r"
  | (moved) s e st d where "c \<noteq> 0x130" "(s, e, st, d) \<in> set lower_ranges"
      "in_range (int c) (s, e, st, d)" "to_lowercase c = [nat (int c + d)]"
proof (cases "c = 0x130")
  case True
  then show ?thesis by (intro dotted) (simp_all add: to_lowercase_def)
next
  case False
  show ?thesis
  proof (cases "List.find (in_range (int c)) lower_ranges")
    case None
    then have "to_lowercase c = [c]" using False by (simp add: to_lowercase_def)
    moreover have "\<not> in_range (int c) r" if "r \<in> set lower_ranges" for r
      using None that unfolding find_None_iff by blast
    ultimately show ?thesis using False by (intro same)
  next
    case (Some r)
    obtain s e st d where r: "r = (s, e, st, d)" by (cases r)
    from Some r have "(s, e, st, d) \<in> set lower_ranges" "in_range (int c) (s, e, st, d)"
      by (auto simp: find_Some_iff)
    with False Some r show ?thesis
      by (intro moved) (auto simp: to_lowercase_def)
  qed
qed

lemma to_lowercase_not_Nil [simp]: "to_lowercase c \<noteq> []"
  by (cases c rule: to_lowercase_cases) auto

lemma to_lowercase_ascii:
  assumes "c < 128"
  shows "to_lowercase c = [to_ascii_lowercase c]"
proof (cases "65 \<le> c \<and> c \<le> 90")
  case True
  then have "List.find (in_range (int c)) lower_ranges = Some (65, 90, 1, 32)"
    by (subst lower_ranges_Cons) (simp add: in_range_def)
  with True show ?thesis by (auto simp: to_lowercase_def to_ascii_lowercase_def)
next
  case False
  show ?thesis
  proof (cases c rule: to_lowercase_cases)
    case (moved s e st d)
    from moved(2) show ?thesis
      by (rule range_cases) (use moved assms False in \<open>auto simp: in_range_def high_image_def\<close>)
  qed (use assms False in \<open>auto simp: to_ascii_lowercase_def\<close>)
qed

text \<open>A non-ASCII character folds to non-ASCII characters, \<open>i\<close> or \<open>k\<close>.\<close>

lemma to_lowercase_high:
  assumes "128 \<le> c" and "x \<in> set (to_lowercase c)"
  shows "128 \<le> x \<or> x = 105 \<or> x = 107"
proof (cases c rule: to_lowercase_cases)
  case (moved s e st d)
  from moved(2) show ?thesis
    by (rule range_cases) (use moved assms in \<open>auto simp: in_range_def high_image_def\<close>)
qed (use assms in auto)

lemma to_lowercase_stable:
  assumes "x \<in> set (to_lowercase c)"
  shows "to_lowercase x = [x]"
proof (cases c rule: to_lowercase_cases)
  case dotted
  have "List.find (in_range 775) lower_ranges = None"
    by (simp add: lower_ranges_def lower_blocks_def in_range_def)
  then have "to_lowercase 775 = [775]"
    by (simp add: to_lowercase_def)
  moreover have "to_lowercase 105 = [105]"
    by (simp add: to_lowercase_ascii to_ascii_lowercase_def)
  ultimately show ?thesis using dotted assms by auto
next
  case same
  with assms show ?thesis by simp
next
  case (moved s e st d)
  then have x: "x = nat (int c + d)" using assms by simp
  have pos: "0 \<le> int c + d" and n304: "int c + d \<noteq> 304"
    using moved(2)
    by (rule range_cases; use moved in \<open>auto simp: in_range_def high_image_def\<close>)+
  then have ix: "int x = int c + d" using x by simp
  show ?thesis
  proof (cases x rule: to_lowercase_cases)
    case (moved s' e' st' d')
    then show ?thesis
      using image_not_in_range [OF \<open>(s, e, st, d) \<in> set lower_ranges\<close> moved(2) refl
          \<open>in_range (int c) (s, e, st, d)\<close>] ix by simp
  qed (use ix n304 in auto)
qed

section \<open>Folding strings\<close>

lemma fold_unicode_ascii: "is_ascii s \<Longrightarrow> fold_unicode s = map to_ascii_lowercase s"
proof (induction s)
  case (Cons c s)
  then show ?case by (simp add: is_ascii_def fold_unicode_def to_lowercase_ascii)
qed (simp add: fold_unicode_def)

text \<open>The ASCII fast path computes the Unicode fold.\<close>

lemma cfold_eq: "cfold s = fold_unicode s"
  by (simp add: cfold_def fold_unicode_ascii)

lemma cfold_simps [simp]:
  "cfold [] = []" "cfold (c # s) = to_lowercase c @ cfold s" "cfold (s @ t) = cfold s @ cfold t"
  by (simp_all add: cfold_eq fold_unicode_def)

lemma cfold_eq_Nil [simp]: "cfold s = [] \<longleftrightarrow> s = []"
  by (cases s) auto

lemma cfold_stable: "(\<And>c. c \<in> set s \<Longrightarrow> to_lowercase c = [c]) \<Longrightarrow> cfold s = s"
  by (induction s) auto

lemma cfold_chars: "c \<in> set (cfold s) \<longleftrightarrow> (\<exists>b\<in>set s. c \<in> set (to_lowercase b))"
  by (auto simp: cfold_eq fold_unicode_def)

lemma cfold_idem [simp]: "cfold (cfold s) = cfold s"
  by (rule cfold_stable) (auto simp: cfold_chars intro: to_lowercase_stable)

text \<open>A separator survives folding where it stands, and none appears elsewhere.\<close>

definition fixed_char :: "rchar \<Rightarrow> bool" where
  "fixed_char y \<longleftrightarrow> y < 65 \<or> 90 < y \<and> y < 97 \<or> 122 < y \<and> y < 128"

lemma fixed_char_seps [simp]: "fixed_char slash" "fixed_char backslash"
  by (simp_all add: fixed_char_def)

lemma fixed_char_lower:
  assumes "fixed_char y"
  shows "y \<in> set (to_lowercase c) \<longleftrightarrow> c = y"
proof (cases "c < 128")
  case True
  with assms show ?thesis
    by (auto simp: to_lowercase_ascii to_ascii_lowercase_def fixed_char_def)
next
  case False
  with assms to_lowercase_high [of c y] show ?thesis by (auto simp: fixed_char_def)
qed

lemma fixed_char_self: "fixed_char y \<Longrightarrow> to_lowercase y = [y]"
  by (auto simp: to_lowercase_ascii to_ascii_lowercase_def fixed_char_def)

lemma fixed_char_in_cfold: "fixed_char y \<Longrightarrow> y \<in> set (cfold s) \<longleftrightarrow> y \<in> set s"
  by (auto simp: cfold_chars fixed_char_lower)

lemma split_on_append_no_sep:
  "\<forall>c\<in>set w. \<not> P c \<Longrightarrow> split_on P (w @ xs) = (w @ hd (split_on P xs)) # tl (split_on P xs)"
  by (induction w) (auto simp: split_on_Cons_not)

lemma split_cfold [split_simps]:
  assumes "fixed_char y"
  shows "split_on ((=) y) (cfold s) = map cfold (split_on ((=) y) s)"
proof (induction s)
  case (Cons c s)
  show ?case
  proof (cases "c = y")
    case True
    with Cons assms show ?thesis by (simp add: fixed_char_self)
  next
    case False
    with assms have "\<forall>b\<in>set (to_lowercase c). y \<noteq> b" by (auto simp: fixed_char_lower)
    then have "split_on ((=) y) (to_lowercase c @ cfold s) =
        (to_lowercase c @ hd (split_on ((=) y) (cfold s))) # tl (split_on ((=) y) (cfold s))"
      by (rule split_on_append_no_sep)
    with False Cons show ?thesis
      by (cases "split_on ((=) y) s") auto
  qed
qed simp

lemma cfold_join:
  assumes "fixed_char y"
  shows "cfold (join_with y ws) = join_with y (map cfold ws)"
  using assms by (induction y ws rule: join_with.induct) (auto simp: fixed_char_self)

definition valid_image :: "lower_range \<Rightarrow> bool" where
  "valid_image r = (case r of (s, e, st, d) \<Rightarrow>
     0 \<le> s + d \<and> (e + d < 0xD800 \<or> 0xE000 \<le> s + d \<and> e + d < 0x110000))"

lemma valid_images: "list_all valid_image lower_ranges"
  by (simp add: lower_ranges_def lower_blocks_def valid_image_def)

lemma valid_to_lowercase:
  assumes "valid_char c"
  shows "valid_str (to_lowercase c)"
proof (cases c rule: to_lowercase_cases)
  case (moved s e st d)
  with valid_images have "valid_image (s, e, st, d)" by (auto simp: list_all_iff)
  with moved show ?thesis by (auto simp: valid_image_def in_range_def valid_char_def)
qed (use assms in \<open>auto simp: valid_char_def\<close>)

lemma valid_cfold: "valid_str s \<Longrightarrow> valid_str (cfold s)"
  by (induction s) (auto simp: valid_to_lowercase)

lemma cmp_ci_Equal: "cmp_ci a b = Equal \<longleftrightarrow> cfold a = cfold b"
  by (simp add: cmp_ci_def cmp_def)

end
