(* ===== verification/Vpath.thy ===== *)
theory Vpath
  imports Casefold "HOL-Library.Sublist"
begin

text \<open>
  Virtual paths: \<^verbatim>\<open>vfs-core/src/path.rs\<close> (the three families of helpers: resolving, refusing and
  neutral) and \<^verbatim>\<open>vfs-compose/src/path.rs\<close> (\<^verbatim>\<open>normalize\<close> and \<^verbatim>\<open>strip_prefix\<close>). Both separators
  split a path; the canonical form is \<open>/\<close>-joined and has no empty, \<open>.\<close> or \<open>..\<close> component.
\<close>

section \<open>Definitions\<close>

datatype path_error = EscapesRoot | EmptyRoot
datatype bad_component = BadComponent
datatype compose_path_error = PathError

definition is_sep :: "rchar \<Rightarrow> bool" where
  "is_sep c \<longleftrightarrow> c = slash \<or> c = backslash"

abbreviation dot :: rstr where "dot \<equiv> [46]"
abbreviation dotdot :: rstr where "dotdot \<equiv> [46, 46]"

text \<open>\<^verbatim>\<open>raw.replace('\\', "/")\<close>.\<close>

definition unify_seps :: "rstr \<Rightarrow> rstr" where
  "unify_seps raw = map (\<lambda>c. if c = backslash then slash else c) raw"

definition trim_rel :: "rstr \<Rightarrow> rstr" where
  "trim_rel raw = trim_matches slash (unify_seps raw)"

fun rel_components_loop :: "rstr list \<Rightarrow> rstr list \<Rightarrow> bad_component + rstr list" where
  "rel_components_loop out [] = Inr out"
| "rel_components_loop out (c # cs) =
     (if c = dot \<or> c = dotdot then Inl BadComponent else rel_components_loop (out @ [c]) cs)"

definition rel_components :: "rstr \<Rightarrow> bad_component + rstr list" where
  "rel_components raw = rel_components_loop [] (filter (\<lambda>c. c \<noteq> []) (split_on is_sep raw))"

fun normalize_rel_loop :: "rstr \<Rightarrow> rstr list \<Rightarrow> rstr" where
  "normalize_rel_loop out [] = out"
| "normalize_rel_loop out (c # cs) =
     normalize_rel_loop ((if out \<noteq> [] then out @ [slash] else out) @ c) cs"

definition normalize_rel :: "rstr \<Rightarrow> bad_component + rstr" where
  "normalize_rel raw = rbind (rel_components raw) (\<lambda>cs. Inr (normalize_rel_loop [] cs))"

definition split_parent :: "rstr \<Rightarrow> rstr \<times> rstr" where
  "split_parent rel = (case rsplit_once slash rel of Some pn \<Rightarrow> pn | None \<Rightarrow> ([], rel))"

text \<open>The prefixes \<open>\??\\<close>, \<open>\\?\\<close>, \<open>/??/\<close> and \<open>//?/\<close>, the first that matches taken off.\<close>

definition nt_prefixes :: "rstr list" where
  "nt_prefixes = [[92, 63, 63, 92], [92, 92, 63, 92], [47, 63, 63, 47], [47, 47, 63, 47]]"

fun strip_first :: "rstr list \<Rightarrow> rstr \<Rightarrow> rstr" where
  "strip_first [] s = s"
| "strip_first (p # ps) s = (case strip_pre p s of Some rest \<Rightarrow> rest | None \<Rightarrow> strip_first ps s)"

text \<open>The loop over the components, \<open>e\<close> the error of a \<open>..\<close> with nothing to pop.\<close>

fun walk_comps :: "'e \<Rightarrow> rstr list \<Rightarrow> rstr list \<Rightarrow> 'e + rstr list" where
  "walk_comps e out [] = Inr out"
| "walk_comps e out (c # cs) =
     (if c = [] \<or> c = dot then walk_comps e out cs
      else if c = dotdot then (if out = [] then Inl e else walk_comps e (butlast out) cs)
      else walk_comps e (out @ [c]) cs)"

definition normalize_vpath :: "rstr \<Rightarrow> path_error + rstr" where
  "normalize_vpath raw =
     rbind (walk_comps EscapesRoot [] (split_on is_sep (strip_first nt_prefixes raw)))
       (\<lambda>out. Inr (join_with slash out))"

definition normalize :: "rstr \<Rightarrow> compose_path_error + rstr" where
  "normalize raw =
     (let s = trim_matches slash (unify_seps raw) in
      if s = [] then Inr []
      else rbind (walk_comps PathError [] (split_on ((=) slash) s))
             (\<lambda>out. Inr (join_with slash out)))"

fun strip_prefix_loop :: "rstr \<Rightarrow> rstr list \<Rightarrow> rstr option" where
  "strip_prefix_loop rest [] = Some rest"
| "strip_prefix_loop rest (want # wants) =
     (let (head, tail) = (case split_once slash rest of Some ht \<Rightarrow> ht | None \<Rightarrow> (rest, [])) in
      if cfold head \<noteq> cfold want then None else strip_prefix_loop tail wants)"

definition strip_prefix :: "rstr \<Rightarrow> rstr \<Rightarrow> rstr option" where
  "strip_prefix path pre =
     (let p = trim_matches slash pre in
      if p = [] then Some path
      else strip_prefix_loop path (filter (\<lambda>c. c \<noteq> []) (split_on ((=) slash) p)))"

section \<open>Canonical paths\<close>

text \<open>A name: a component a canonical path may carry. The components of a canonical path are
  those between its slashes; the root has none.\<close>

definition good_name :: "rstr \<Rightarrow> bool" where
  "good_name w \<longleftrightarrow> w \<noteq> [] \<and> w \<noteq> dot \<and> w \<noteq> dotdot \<and> (\<forall>c\<in>set w. \<not> is_sep c)"

definition comps :: "rstr \<Rightarrow> rstr list" where
  "comps p = filter (\<lambda>c. c \<noteq> []) (split_on ((=) slash) p)"

definition raw_comps :: "rstr \<Rightarrow> rstr list" where
  "raw_comps p = filter (\<lambda>c. c \<noteq> []) (split_on is_sep p)"

definition canonical :: "rstr \<Rightarrow> bool" where
  "canonical p \<longleftrightarrow> list_all good_name (comps p) \<and> p = join_with slash (comps p)"

lemma filter_split_join:
  assumes "\<And>w. w \<in> set ws \<Longrightarrow> w \<noteq> [] \<and> s \<notin> set w"
  shows "filter (\<lambda>c. c \<noteq> []) (split_on ((=) s) (join_with s ws)) = ws"
proof (cases "ws = []")
  case False
  with assms have "split_on ((=) s) (join_with s ws) = ws" by (intro split_join) auto
  with assms show ?thesis by (simp add: filter_id_conv)
qed simp

lemma comps_join:
  assumes "list_all good_name ws"
  shows "comps (join_with slash ws) = ws"
  unfolding comps_def using assms
  by (intro filter_split_join) (auto simp: good_name_def is_sep_def list_all_iff)

lemma comps_Nil [simp]: "comps [] = []"
  by (simp add: comps_def)

lemma canonical_join [intro]: "list_all good_name ws \<Longrightarrow> canonical (join_with slash ws)"
  by (simp add: canonical_def comps_join)

lemma canonicalE:
  assumes "canonical p"
  obtains ws where "list_all good_name ws" "p = join_with slash ws" "comps p = ws"
  using assms that [of "comps p"] unfolding canonical_def by blast

lemma split_unify: "split_on ((=) slash) (unify_seps s) = split_on is_sep s"
proof (induction s)
  case (Cons c s)
  then show ?case
    by (auto simp: unify_seps_def is_sep_def)
qed (simp add: unify_seps_def)

lemma filter_split_dropWhile:
  "filter (\<lambda>c. c \<noteq> []) (split_on ((=) s) (dropWhile ((=) s) xs)) =
   filter (\<lambda>c. c \<noteq> []) (split_on ((=) s) xs)"
  by (induction xs) auto

lemma split_on_snoc_sep: "split_on ((=) s) (xs @ [s]) = split_on ((=) s) xs @ [[]]"
  using split_on_append_sep [of "(=) s" s xs "[]"] by simp

lemma filter_split_dropEnd:
  "filter (\<lambda>c. c \<noteq> []) (split_on ((=) s) (rev (dropWhile ((=) s) (rev xs)))) =
   filter (\<lambda>c. c \<noteq> []) (split_on ((=) s) xs)"
  by (induction xs rule: rev_induct) (auto simp: split_on_snoc_sep)

lemma comps_trim [simp]: "comps (trim_matches slash s) = comps s"
  by (simp add: comps_def trim_matches_def filter_split_dropEnd filter_split_dropWhile)

lemma comps_unify [simp]: "comps (unify_seps s) = raw_comps s"
  by (simp add: comps_def raw_comps_def split_unify)

lemma comps_trim_rel: "comps (trim_rel raw) = raw_comps raw"
  by (simp add: trim_rel_def)

lemma raw_comps_no_sep: "w \<in> set (raw_comps p) \<Longrightarrow> w \<noteq> [] \<and> (\<forall>c\<in>set w. \<not> is_sep c)"
  by (auto simp: raw_comps_def dest: split_on_pieces)

lemma canonical_raw_comps:
  assumes "canonical p"
  shows "raw_comps p = comps p"
proof -
  from assms have "backslash \<notin> set p"
  proof (rule canonicalE)
    fix ws assume ws: "list_all good_name ws" and p: "p = join_with slash ws"
    have "c = s \<or> (\<exists>w\<in>set ws. c \<in> set w)" if "c \<in> set (join_with s ws)" for c s :: rchar
      using that by (induction s ws rule: join_with.induct) auto
    from this [of backslash slash] ws p show ?thesis
      by (auto simp: good_name_def is_sep_def list_all_iff)
  qed
  then have "unify_seps p = p"
    by (auto simp: unify_seps_def intro!: map_idI)
  then show ?thesis using comps_unify [of p] by (simp del: comps_unify)
qed

section \<open>The refusing family\<close>

lemma rel_components_loop_eq:
  "rel_components_loop out cs =
     (if dot \<in> set cs \<or> dotdot \<in> set cs then Inl BadComponent else Inr (out @ cs))"
  by (induction out cs rule: rel_components_loop.induct) auto

lemma normalize_rel_loop_eq:
  "[] \<notin> set cs \<Longrightarrow> normalize_rel_loop out cs =
     (if out = [] then join_with slash cs else out @ concat (map (\<lambda>c. slash # c) cs))"
proof (induction out cs rule: normalize_rel_loop.induct)
  case (2 out c cs)
  have "join_with slash (c # cs) = c @ concat (map (\<lambda>c. slash # c) cs)" for c
    by (induction cs arbitrary: c) auto
  with 2 show ?case by auto
qed simp

lemma rel_components_eq:
  "rel_components raw =
     (if dot \<in> set (raw_comps raw) \<or> dotdot \<in> set (raw_comps raw) then Inl BadComponent
      else Inr (raw_comps raw))"
  by (simp add: rel_components_def rel_components_loop_eq raw_comps_def)

lemma normalize_rel_eq:
  "normalize_rel raw =
     (if dot \<in> set (raw_comps raw) \<or> dotdot \<in> set (raw_comps raw) then Inl BadComponent
      else Inr (join_with slash (raw_comps raw)))"
proof -
  have "[] \<notin> set (raw_comps raw)" using raw_comps_no_sep by blast
  then show ?thesis
    by (simp add: normalize_rel_def rel_components_eq normalize_rel_loop_eq)
qed

section \<open>The resolving family\<close>

lemma walk_comps_filter: "walk_comps e out (filter (\<lambda>c. c \<noteq> []) cs) = walk_comps e out cs"
  by (induction e out cs rule: walk_comps.induct) auto

lemma good_nameI:
  "c \<noteq> [] \<Longrightarrow> c \<noteq> dot \<Longrightarrow> c \<noteq> dotdot \<Longrightarrow> \<forall>x\<in>set c. \<not> is_sep x \<Longrightarrow> good_name c"
  by (simp add: good_name_def)

lemma walk_comps_good:
  assumes "walk_comps e out cs = Inr ws" and "list_all good_name out"
    and "\<forall>w\<in>set cs. \<forall>c\<in>set w. \<not> is_sep c"
  shows "list_all good_name ws"
  using assms
proof (induction e out cs rule: walk_comps.induct)
  case (2 e out c cs)
  have bl: "list_all good_name (butlast out)"
    using 2(5) by (auto simp: list_all_iff dest: in_set_butlastD)
  consider "c = [] \<or> c = dot" | "c = dotdot" | "c \<noteq> []" "c \<noteq> dot" "c \<noteq> dotdot" by blast
  then show ?case
  proof cases
    case 1
    with 2 show ?thesis by simp
  next
    case 2
    with "2.prems" "2.IH"(2) bl show ?thesis by (simp split: if_splits)
  next
    case 3
    with "2.prems" have "good_name c" by (intro good_nameI) auto
    with 3 "2.prems" "2.IH"(3) show ?thesis by simp
  qed
qed simp

lemma walk_comps_names: "list_all good_name cs \<Longrightarrow> walk_comps e out cs = Inr (out @ cs)"
  by (induction e out cs rule: walk_comps.induct) (auto simp: good_name_def)

text \<open>How far a list of components climbs: names go down, \<open>..\<close> goes up.\<close>

fun ups :: "rstr list \<Rightarrow> nat" where
  "ups [] = 0"
| "ups (c # cs) = (if c = dotdot then Suc (ups cs) else ups cs)"

fun downs :: "rstr list \<Rightarrow> nat" where
  "downs [] = 0"
| "downs (c # cs) = (if c = [] \<or> c = dot \<or> c = dotdot then downs cs else Suc (downs cs))"

lemma ex_take_Cons:
  "(\<exists>k. P (take k (c # cs))) \<longleftrightarrow> P [] \<or> (\<exists>k. P (c # take k cs))"
proof
  assume "\<exists>k. P (take k (c # cs))"
  then obtain k where "P (take k (c # cs))" by blast
  then show "P [] \<or> (\<exists>k. P (c # take k cs))" by (cases k) auto
next
  assume "P [] \<or> (\<exists>k. P (c # take k cs))"
  then show "\<exists>k. P (take k (c # cs))"
  proof
    assume "P []"
    then show ?thesis by (intro exI [of _ 0]) simp
  next
    assume "\<exists>k. P (c # take k cs)"
    then obtain k where "P (c # take k cs)" ..
    then show ?thesis by (intro exI [of _ "Suc k"]) simp
  qed
qed

lemma walk_comps_escapes:
  "walk_comps e out cs = Inl e \<longleftrightarrow>
     (\<exists>k. length out + downs (take k cs) < ups (take k cs))"
proof (induction e out cs rule: walk_comps.induct)
  case (2 e out c cs)
  note ex = ex_take_Cons [of "\<lambda>xs. length out + downs xs < ups xs" c cs]
  consider "c = [] \<or> c = dot" | "c = dotdot" "out = []" | "c = dotdot" "out \<noteq> []"
    | "c \<noteq> []" "c \<noteq> dot" "c \<noteq> dotdot" by blast
  then show ?case
  proof cases
    case 1
    with 2(1) show ?thesis unfolding ex by auto
  next
    case 2
    have "\<exists>k. length out + downs (c # take k cs) < ups (c # take k cs)"
      by (rule exI [of _ 0]) (simp add: 2)
    with 2 show ?thesis unfolding ex by simp
  next
    case 3
    then have "length (butlast out) + n < m \<longleftrightarrow> length out + n < Suc m" for n m
      by (cases out) auto
    with 2(2) 3 show ?thesis unfolding ex by simp
  next
    case 4
    with 2(3) show ?thesis unfolding ex by simp
  qed
qed simp

lemma walk_comps_error: "walk_comps e out cs = Inl e' \<Longrightarrow> e' = e"
  by (induction e out cs rule: walk_comps.induct) (auto split: if_splits)

lemma walk_comps_map_error:
  "walk_comps e out cs = Inr ws \<longleftrightarrow> walk_comps e' out cs = Inr ws"
  by (induction e out cs rule: walk_comps.induct) auto

lemma walk_comps_Inl: "walk_comps e out cs = Inl e' \<Longrightarrow> walk_comps e'' out cs = Inl e''"
  using walk_comps_map_error [of e out cs _ e''] walk_comps_error [of e'' out cs]
  by (cases "walk_comps e'' out cs") auto

lemma split_on_is_sep_no_sep: "\<forall>w\<in>set (split_on is_sep s). \<forall>c\<in>set w. \<not> is_sep c"
  by (auto dest: split_on_pieces)

lemma canonical_hd:
  assumes "canonical p"
  shows "p = [] \<or> \<not> is_sep (hd p)"
  using assms
proof (rule canonicalE)
  fix ws assume ws: "list_all good_name ws" and p: "p = join_with slash ws"
  show ?thesis
  proof (cases ws)
    case (Cons w us)
    with ws have "w \<noteq> []" "\<not> is_sep (hd w)" by (auto simp: good_name_def)
    with Cons p show ?thesis by (cases us) auto
  qed (use p in simp)
qed

lemma strip_first_none: "(\<And>p. p \<in> set ps \<Longrightarrow> strip_pre p s = None) \<Longrightarrow> strip_first ps s = s"
  by (induction ps) auto

lemma strip_first_canonical: "canonical p \<Longrightarrow> strip_first nt_prefixes p = p"
  using canonical_hd [of p]
  by (cases p) (auto simp: nt_prefixes_def strip_pre_def is_sep_def)

lemma walk_comps_canonical:
  assumes "canonical p"
  shows "walk_comps e [] (split_on is_sep p) = Inr (comps p)"
proof -
  have "walk_comps e [] (split_on is_sep p) = walk_comps e [] (raw_comps p)"
    by (simp add: raw_comps_def walk_comps_filter)
  then show ?thesis
    using assms by (simp add: canonical_raw_comps walk_comps_names canonical_def)
qed

section \<open>Properties\<close>

text \<open>C17. \<^verbatim>\<open>normalize_vpath\<close> returns canonical paths: no empty, \<open>.\<close> or \<open>..\<close> component, no
  backslash, no outer slash. Normalising its result again changes nothing, so the long-path
  prefixes cannot be smuggled in through a second pass.\<close>

theorem normalize_vpath_canonical:
  assumes "normalize_vpath raw = Inr p"
  shows "canonical p \<and> normalize_vpath p = Inr p"
proof -
  from assms obtain ws where w: "walk_comps EscapesRoot [] (split_on is_sep (strip_first nt_prefixes raw)) = Inr ws"
    and p: "p = join_with slash ws"
    by (auto simp: normalize_vpath_def rbind_eq_Inr)
  have "list_all good_name ws"
    using walk_comps_good [OF w _ split_on_is_sep_no_sep] by simp
  then have c: "canonical p" and "comps p = ws" using p by (auto simp: comps_join)
  with p have "normalize_vpath p = Inr p"
    by (simp add: normalize_vpath_def strip_first_canonical walk_comps_canonical)
  with c show ?thesis ..
qed

theorem normalize_vpath_canonical_witness:
  "canonical (lit ''b/c'') \<and> normalize_vpath (lit ''b/c'') = Inr (lit ''b/c'')"
proof (rule normalize_vpath_canonical)
  show "normalize_vpath (lit ''//?/a/.././b//c/'') = Inr (lit ''b/c'')" by code_simp
qed

text \<open>C18. \<^verbatim>\<open>normalize_vpath\<close> fails exactly on the paths that climb out of the root: those with some
  leading run of components that has more \<open>..\<close> than names.\<close>

theorem normalize_vpath_escapes:
  "normalize_vpath raw = Inl EscapesRoot \<longleftrightarrow>
     (\<exists>k. downs (take k (split_on is_sep (strip_first nt_prefixes raw)))
        < ups (take k (split_on is_sep (strip_first nt_prefixes raw))))"
proof -
  have "normalize_vpath raw = Inl EscapesRoot \<longleftrightarrow>
      walk_comps EscapesRoot [] (split_on is_sep (strip_first nt_prefixes raw)) = Inl EscapesRoot"
    by (cases "walk_comps EscapesRoot [] (split_on is_sep (strip_first nt_prefixes raw))")
      (auto simp: normalize_vpath_def)
  then show ?thesis by (simp add: walk_comps_escapes)
qed



lemma split_once_join:
  assumes "s \<notin> set w"
  shows "(case split_once s (join_with s (w # ws)) of Some ht \<Rightarrow> ht | None \<Rightarrow> (join_with s (w # ws), []))
    = (w, join_with s ws)"
proof (cases ws)
  case Nil
  have "split_once s w = None" using assms by simp
  with Nil show ?thesis by (simp del: split_once_None)
next
  case (Cons v vs)
  then have "split_once s (join_with s (w # ws)) = Some (w, join_with s ws)"
    using assms by (simp add: split_once_Some)
  then show ?thesis by simp
qed

lemma strip_prefix_loop_eq:
  assumes "list_all good_name ws" and "[] \<notin> set wants"
  shows "strip_prefix_loop (join_with slash ws) wants =
    (if length wants \<le> length ws \<and> map cfold (take (length wants) ws) = map cfold wants
     then Some (join_with slash (drop (length wants) ws)) else None)"
  using assms
proof (induction wants arbitrary: ws)
  case (Cons want wants)
  show ?case
  proof (cases ws)
    case Nil
    with Cons.prems show ?thesis by (auto dest: sym)
  next
    case ws: (Cons w us)
    with Cons.prems have "slash \<notin> set w" by (auto simp: good_name_def is_sep_def)
    from split_once_join [OF this, of us] ws Cons.prems Cons.IH [of us] show ?thesis
      by (simp add: Let_def)
  qed
qed simp

text \<open>C20. Taking a mount prefix off a canonical path succeeds exactly when the prefix's components
  are, case-folded, the first components of the path, and what is returned is the rest of the
  path in the path's own spelling. A prefix never matches half of a component.\<close>

theorem strip_prefix_spec:
  assumes "canonical path"
  shows "strip_prefix path pre =
    (let n = length (comps pre) in
     if n \<le> length (comps path) \<and> map cfold (take n (comps path)) = map cfold (comps pre)
     then Some (join_with slash (drop n (comps path))) else None)"
proof -
  obtain ws where ws: "list_all good_name ws" and p: "path = join_with slash ws" and c: "comps path = ws"
    using assms by (rule canonicalE)
  have "[] \<notin> set (comps pre)" by (simp add: comps_def)
  then have "strip_prefix_loop path (comps pre) = (let n = length (comps pre) in
     if n \<le> length ws \<and> map cfold (take n ws) = map cfold (comps pre)
     then Some (join_with slash (drop n ws)) else None)"
    unfolding p Let_def by (rule strip_prefix_loop_eq [OF ws])
  moreover have "comps pre = []" if "trim_matches slash pre = []"
    using comps_trim [of pre] that by simp
  moreover have "filter (\<lambda>c. c \<noteq> []) (split_on ((=) slash) (trim_matches slash pre)) = comps pre"
    by (metis comps_def comps_trim)
  ultimately show ?thesis using p c by (auto simp: strip_prefix_def Let_def)
qed

theorem strip_prefix_spec_witness:
  "strip_prefix (lit ''data/mod/A.esp'') (lit ''/Data/MOD/'') = Some (lit ''A.esp'')"
proof -
  have "canonical (lit ''data/mod/A.esp'')" by code_simp
  from strip_prefix_spec [OF this, of "lit ''/Data/MOD/''"] show ?thesis by code_simp
qed

text \<open>\<^verbatim>\<open>normalize_rel\<close> refuses exactly the paths with a \<open>.\<close> or \<open>..\<close> component, and where it
  accepts it gives the canonical path of the same components, which is also what the resolving
  walk gives.\<close>

theorem normalize_rel_spec:
  "normalize_rel raw = (if dot \<in> set (raw_comps raw) \<or> dotdot \<in> set (raw_comps raw) then Inl BadComponent
     else Inr (join_with slash (raw_comps raw))) \<and>
   (case normalize_rel raw of Inl _ \<Rightarrow> True
    | Inr p \<Rightarrow> canonical p \<and> comps p = raw_comps raw \<and> normalize raw = Inr p)"
proof (cases "dot \<in> set (raw_comps raw) \<or> dotdot \<in> set (raw_comps raw)")
  case True
  then show ?thesis by (auto simp: normalize_rel_eq)
next
  case False
  then have good: "list_all good_name (raw_comps raw)"
    using raw_comps_no_sep by (auto simp: list_all_iff intro!: good_nameI)
  have c: "comps (trim_matches slash (unify_seps raw)) = raw_comps raw" by simp
  have "walk_comps PathError [] (split_on ((=) slash) (trim_matches slash (unify_seps raw))) =
      walk_comps PathError [] (comps (trim_matches slash (unify_seps raw)))"
    by (simp only: comps_def walk_comps_filter)
  then have "walk_comps PathError [] (split_on ((=) slash) (trim_matches slash (unify_seps raw)))
      = Inr (raw_comps raw)"
    using walk_comps_names [OF good, of PathError "[]"] by (simp add: c)
  moreover have "raw_comps raw = []" if "trim_matches slash (unify_seps raw) = []"
    using c that by simp
  ultimately have "normalize raw = Inr (join_with slash (raw_comps raw))"
    by (auto simp: normalize_def Let_def)
  with False good show ?thesis
    by (auto simp: normalize_rel_eq comps_join)
qed

end
