(* ===== verification/Patterns.thy ===== *)
theory Patterns
  imports Vpath
begin

text \<open>
  Name patterns: the DOS wildcards of directory listings (\<^verbatim>\<open>vfs-core/src/wildcard.rs\<close>) and the
  globs of router rules (\<^verbatim>\<open>vfs-compose/src/glob.rs\<close>). Each matcher is shown equal to a
  declarative matching relation. A slice with a start index is modelled by the list from that
  index on, except in the backtracking loop of \<^verbatim>\<open>match_one\<close>, which keeps its two indices and
  its saved star position as the code has them.
\<close>

section \<open>DOS wildcards\<close>

text \<open>The metacharacters are \<open>*\<close> 42, \<open><\<close> 60, \<open>?\<close> 63, \<open>>\<close> 62, the double quote 34; the dot is 46.\<close>

function (sequential) do_match :: "rstr \<Rightarrow> rstr \<Rightarrow> bool" where
  "do_match [] n = (n = [])"
| "do_match (c # p) n =
     (if c = 42 \<or> c = 60 then
        (if do_match p n then True
         else if n \<noteq> [] then do_match (c # p) (tl n)
         else False)
      else if c = 63 then (if n = [] then False else do_match p (tl n))
      else if c = 62 then
        (if n \<noteq> [] \<and> hd n \<noteq> 46 then do_match p (tl n) else do_match p n)
      else if c = 34 then
        (if n \<noteq> [] \<and> hd n = 46 then do_match p (tl n) else do_match p n)
      else (if n = [] \<or> hd n \<noteq> c then False else do_match p (tl n)))"
  by pat_completeness auto

termination do_match
  by (relation "measure (\<lambda>(p, n). length p + length n)") (auto simp: neq_Nil_conv)

declare do_match.simps(2) [simp del]

definition wildcard_match :: "rstr \<Rightarrow> rstr \<Rightarrow> bool" where
  "wildcard_match pattern name = do_match (cfold pattern) (cfold name)"

text \<open>The relation: a star stands for any string, the DOS question mark for one character
  other than a dot unless the name is at its end or at a dot, the DOS dot for a dot unless the
  name is not at one.\<close>

inductive wild :: "rstr \<Rightarrow> rstr \<Rightarrow> bool" where
  wild_end: "wild [] []"
| wild_star: "wild p n \<Longrightarrow> c = 42 \<or> c = 60 \<Longrightarrow> wild (c # p) (t @ n)"
| wild_any: "wild p n \<Longrightarrow> wild (63 # p) (x # n)"
| wild_qm: "wild p n \<Longrightarrow> x \<noteq> 46 \<Longrightarrow> wild (62 # p) (x # n)"
| wild_qm_none: "wild p n \<Longrightarrow> n = [] \<or> hd n = 46 \<Longrightarrow> wild (62 # p) n"
| wild_dot: "wild p n \<Longrightarrow> wild (34 # p) (46 # n)"
| wild_dot_none: "wild p n \<Longrightarrow> n = [] \<or> hd n \<noteq> 46 \<Longrightarrow> wild (34 # p) n"
| wild_lit: "wild p n \<Longrightarrow> c \<notin> {42, 60, 63, 62, 34} \<Longrightarrow> wild (c # p) (c # n)"

inductive_cases wild_NilE: "wild [] n"
inductive_cases wild_ConsE: "wild (c # p) n"
inductive_simps wild_Nil_simp [simp]: "wild [] n"

lemma wild_star_iff:
  assumes "c = 42 \<or> c = 60"
  shows "wild (c # p) n \<longleftrightarrow> wild p n \<or> n \<noteq> [] \<and> wild (c # p) (tl n)"
proof
  assume "wild (c # p) n"
  then obtain t m where n: "n = t @ m" and m: "wild p m"
    using assms by (auto elim: wild_ConsE)
  show "wild p n \<or> n \<noteq> [] \<and> wild (c # p) (tl n)"
  proof (cases t)
    case Nil
    with n m show ?thesis by simp
  next
    case (Cons x u)
    with n m assms show ?thesis by (auto intro: wild_star)
  qed
next
  assume "wild p n \<or> n \<noteq> [] \<and> wild (c # p) (tl n)"
  then show "wild (c # p) n"
  proof
    assume "wild p n"
    then show ?thesis using wild_star [of p n c "[]"] assms by simp
  next
    assume *: "n \<noteq> [] \<and> wild (c # p) (tl n)"
    then obtain t m where "tl n = t @ m" and "wild p m"
      using assms by (auto elim: wild_ConsE)
    with * have "n = (hd n # t) @ m" by (cases n) auto
    with \<open>wild p m\<close> assms show ?thesis using wild_star [of p m c "hd n # t"] by simp
  qed
qed

lemma do_match_wild: "do_match p n \<longleftrightarrow> wild p n"
proof (induction p n rule: do_match.induct)
  case (2 c p n)
  consider "c = 42 \<or> c = 60" | "c = 63" | "c = 62" | "c = 34" | "c \<notin> {42, 60, 63, 62, 34}"
    by auto
  then show ?case
  proof cases
    case 1
    with "2.IH"(1,2) show ?thesis
      by (subst do_match.simps(2), subst wild_star_iff [OF 1]) auto
  next
    case 2
    with "2.IH"(3) show ?thesis
      by (subst do_match.simps(2)) (cases n, auto elim: wild_ConsE intro: wild_any)
  next
    case 3
    with "2.IH"(4,5) show ?thesis
      by (subst do_match.simps(2)) (cases n, auto elim: wild_ConsE intro: wild_qm wild_qm_none)
  next
    case 4
    with "2.IH"(6,7) show ?thesis
      by (subst do_match.simps(2)) (cases n, auto elim: wild_ConsE intro: wild_dot wild_dot_none)
  next
    case 5
    with "2.IH"(8) show ?thesis
      by (subst do_match.simps(2)) (cases n, auto elim: wild_ConsE intro: wild_lit)
  qed
qed simp

lemma wild_no_meta:
  "set p \<inter> {42, 60, 63, 62, 34} = {} \<Longrightarrow> wild p n \<longleftrightarrow> p = n"
proof (induction p arbitrary: n)
  case (Cons c p)
  then show ?case by (auto elim!: wild_ConsE intro: wild_lit)
qed auto

definition dos_metas :: "rchar set" where
  "dos_metas = {42, 60, 63, 62, 34}"

lemma cfold_no_meta: "set p \<inter> dos_metas = {} \<Longrightarrow> set (cfold p) \<inter> dos_metas = {}"
proof -
  have "fixed_char c" if "c \<in> dos_metas" for c
    using that by (auto simp: dos_metas_def fixed_char_def)
  then show "set p \<inter> dos_metas = {} \<Longrightarrow> set (cfold p) \<inter> dos_metas = {}"
    using fixed_char_in_cfold by blast
qed

text \<open>C21. The recursive matcher decides the wildcard relation on the folded strings; a pattern
  without metacharacters matches exactly the names that fold to the same string, and the pattern
  \<open>*\<close> matches every name.\<close>

theorem wildcard_match_spec:
  "(wildcard_match pattern name \<longleftrightarrow> wild (cfold pattern) (cfold name)) \<and>
   (set pattern \<inter> dos_metas = {} \<longrightarrow> (wildcard_match pattern name \<longleftrightarrow> cfold pattern = cfold name)) \<and>
   wildcard_match [42] name"
proof (intro conjI impI)
  show "wildcard_match pattern name \<longleftrightarrow> wild (cfold pattern) (cfold name)"
    by (simp add: wildcard_match_def do_match_wild)
  assume "set pattern \<inter> dos_metas = {}"
  then have "set (cfold pattern) \<inter> {42, 60, 63, 62, 34} = {}"
    using cfold_no_meta [of pattern] by (simp add: dos_metas_def)
  then show "wildcard_match pattern name \<longleftrightarrow> cfold pattern = cfold name"
    by (simp add: wildcard_match_def do_match_wild wild_no_meta)
next
  have "wild [42] (cfold name)" using wild_star [OF wild_end, of 42 "cfold name"] by simp
  then show "wildcard_match [42] name"
    by (simp add: wildcard_match_def do_match_wild to_lowercase_ascii to_ascii_lowercase_def)
qed

theorem wildcard_match_spec_witness:
  "wildcard_match (lit ''Readme.TXT'') (lit ''README.txt'')"
proof -
  have m: "set (lit ''Readme.TXT'') \<inter> dos_metas = {}" by (simp add: lit_def dos_metas_def)
  have "cfold (lit ''Readme.TXT'') = cfold (lit ''README.txt'')" by code_simp
  with wildcard_match_spec [of "lit ''Readme.TXT''" "lit ''README.txt''"] m show ?thesis by blast
qed

section \<open>Globs\<close>

subsection \<open>Definitions\<close>

text \<open>The loop of \<^verbatim>\<open>match_one\<close>: indices \<open>i\<close> into the pattern and \<open>j\<close> into the segment, the last star
  seen with the position it was tried at. \<open>*\<close> is 42 and \<open>?\<close> is 63. After the loop the remaining
  stars are skipped and the pattern must be used up. That the loop ends is a theorem below.\<close>

partial_function (option) match_loop ::
  "bytes \<Rightarrow> bytes \<Rightarrow> nat \<Rightarrow> nat \<Rightarrow> (nat \<times> nat) option \<Rightarrow> bool option" where
  "match_loop pb sb i j star =
     (if j < length sb then
        (if i < length pb \<and> (pb ! i = 63 \<or> pb ! i = sb ! j) then match_loop pb sb (i + 1) (j + 1) star
         else if i < length pb \<and> pb ! i = 42 then match_loop pb sb (i + 1) j (Some (i, j))
         else (case star of
                 Some (si, sj) \<Rightarrow> match_loop pb sb (si + 1) (sj + 1) (Some (si, sj + 1))
               | None \<Rightarrow> Some False))
      else Some (dropWhile ((=) 42) (drop i pb) = []))"

declare match_loop.simps [code]

definition match_one :: "rstr \<Rightarrow> rstr \<Rightarrow> bool" where
  "match_one pat seg =
     (if pat = [42] then True else match_loop (utf8 pat) (utf8 seg) 0 0 None = Some True)"

function (sequential) match_rec :: "rstr list \<Rightarrow> rstr list \<Rightarrow> bool" where
  "match_rec [] path = (path = [])"
| "match_rec (p # pat) path =
     (if p = [42, 42] then
        (if match_rec pat path then True
         else if path \<noteq> [] then match_rec (p # pat) (tl path)
         else False)
      else if path = [] then False
      else if match_one p (hd path) then match_rec pat (tl path)
      else False)"
  by pat_completeness auto

termination match_rec
  by (relation "measure (\<lambda>(pat, path). length pat + length path)") (auto simp: neq_Nil_conv)

declare match_rec.simps(2) [simp del]

definition glob_normalize :: "rstr \<Rightarrow> rstr" where
  "glob_normalize s = cfold (trim_rel s)"

definition split_segs :: "rstr \<Rightarrow> rstr list" where
  "split_segs s = (if s = [] then [] else filter (\<lambda>p. p \<noteq> []) (split_on ((=) slash) s))"

definition match_segments :: "rstr list \<Rightarrow> rstr list \<Rightarrow> bool" where
  "match_segments pat path = match_rec pat path"

definition matches :: "rstr \<Rightarrow> rstr \<Rightarrow> bool" where
  "matches pattern path =
     (let pat = glob_normalize pattern; pth = glob_normalize path in
      match_segments (split_segs pat) (split_segs pth))"

subsection \<open>One segment\<close>

inductive glob :: "bytes \<Rightarrow> bytes \<Rightarrow> bool" where
  glob_end: "glob [] []"
| glob_star: "glob p s \<Longrightarrow> glob (42 # p) (t @ s)"
| glob_any: "glob p s \<Longrightarrow> glob (63 # p) (b # s)"
| glob_lit: "glob p s \<Longrightarrow> b \<noteq> 42 \<Longrightarrow> b \<noteq> 63 \<Longrightarrow> glob (b # p) (b # s)"

inductive_cases glob_ConsE: "glob (c # p) s"
inductive_simps glob_Nil_simp [simp]: "glob [] s"

lemma glob_star_iff: "glob (42 # p) s \<longleftrightarrow> (\<exists>k\<le>length s. glob p (drop k s))"
proof
  assume "glob (42 # p) s"
  then obtain t u where "s = t @ u" "glob p u" by (auto elim: glob_ConsE)
  then show "\<exists>k\<le>length s. glob p (drop k s)"
    by (intro exI [of _ "length t"]) simp
next
  assume "\<exists>k\<le>length s. glob p (drop k s)"
  then obtain k where "glob p (drop k s)" by blast
  then have "glob (42 # p) (take k s @ drop k s)" by (rule glob_star)
  then show "glob (42 # p) s" by simp
qed

lemma glob_step:
  "c \<noteq> 42 \<Longrightarrow> glob (c # p) (b # s) \<longleftrightarrow> (c = 63 \<or> c = b) \<and> glob p s"
  "c \<noteq> 42 \<Longrightarrow> \<not> glob (c # p) []"
  by (auto elim: glob_ConsE intro: glob_any glob_lit)

lemma glob_empty: "glob p [] \<longleftrightarrow> dropWhile ((=) 42) p = []"
proof (induction p)
  case (Cons c p)
  then show ?case by (cases "c = 42") (auto simp: glob_star_iff glob_step)
qed simp

text \<open>A run of the pattern without stars consumes as many bytes as it has.\<close>

lemma glob_run:
  assumes "glob (drop a pb) (drop k sb)" and "k \<le> length sb" and "a + m \<le> length pb"
    and "\<forall>t<m. pb ! (a + t) \<noteq> 42"
  shows "k + m \<le> length sb \<and> glob (drop (a + m) pb) (drop (k + m) sb)"
  using assms(3,4)
proof (induction m)
  case (Suc m)
  then have IH: "k + m \<le> length sb" "glob (drop (a + m) pb) (drop (k + m) sb)" by auto
  from Suc.prems have c: "drop (a + m) pb = pb ! (a + m) # drop (a + Suc m) pb"
    by (simp add: Cons_nth_drop_Suc)
  from Suc.prems have ns: "pb ! (a + m) \<noteq> 42" by simp
  show ?case
  proof (cases "k + m < length sb")
    case True
    then have "drop (k + m) sb = sb ! (k + m) # drop (k + Suc m) sb"
      by (simp add: Cons_nth_drop_Suc)
    with IH c ns True show ?thesis by (simp add: glob_step)
  next
    case False
    with IH c ns show ?thesis by (simp add: glob_step)
  qed
qed (use assms in simp)

text \<open>The loop's invariant: since the saved star, the pattern has had no star and each of its bytes
  matched the segment's byte at the same distance.\<close>

definition loop_inv :: "bytes \<Rightarrow> bytes \<Rightarrow> nat \<Rightarrow> nat \<Rightarrow> (nat \<times> nat) option \<Rightarrow> bool" where
  "loop_inv pb sb i j star \<longleftrightarrow> i \<le> length pb \<and> j \<le> length sb \<and>
     (case star of None \<Rightarrow> True
      | Some (si, sj) \<Rightarrow> si < i \<and> j + si + 1 = sj + i \<and> sj \<le> j \<and>
          (\<forall>t<i - (si + 1). pb ! (si + 1 + t) \<noteq> 42))"

text \<open>What the loop answers: the rest matches, or it does from a later position of the star.\<close>

definition loop_goal :: "bytes \<Rightarrow> bytes \<Rightarrow> nat \<Rightarrow> nat \<Rightarrow> (nat \<times> nat) option \<Rightarrow> bool" where
  "loop_goal pb sb i j star \<longleftrightarrow> glob (drop i pb) (drop j sb) \<or>
     (case star of None \<Rightarrow> False
      | Some (si, sj) \<Rightarrow> \<exists>k. sj < k \<and> k \<le> length sb \<and> glob (drop (si + 1) pb) (drop k sb))"

lemma loop_later_star:
  assumes "loop_inv pb sb i j (Some (si, sj))" and "sj < k" "k \<le> length sb"
    and "glob (drop (si + 1) pb) (drop k sb)"
  obtains k' where "j < k'" "k' \<le> length sb" "glob (drop i pb) (drop k' sb)"
proof -
  let ?m = "i - (si + 1)"
  from assms(1) have "si < i" "i \<le> length pb" "j + si + 1 = sj + i"
    and "\<forall>t<?m. pb ! (si + 1 + t) \<noteq> 42" by (auto simp: loop_inv_def)
  with glob_run [OF assms(4,3), of ?m] assms(2) show ?thesis
    by (intro that [of "k + ?m"]) auto
qed

lemma loop_goal_match:
  assumes inv: "loop_inv pb sb i j star" and "j < length sb" "i < length pb"
    and "pb ! i = 63 \<or> pb ! i = sb ! j" and "42 \<notin> set sb"
  shows "loop_inv pb sb (i + 1) (j + 1) star \<and>
    loop_goal pb sb (i + 1) (j + 1) star = loop_goal pb sb i j star"
proof -
  have "sb ! j \<in> set sb" using assms(2) by simp
  with assms(5) have "sb ! j \<noteq> 42" by metis
  with assms(4) have ns: "pb ! i \<noteq> 42" by auto
  have "drop i pb = pb ! i # drop (i + 1) pb" "drop j sb = sb ! j # drop (j + 1) sb"
    using assms(2,3) by (simp_all add: Cons_nth_drop_Suc)
  with ns assms(4) have g: "glob (drop i pb) (drop j sb) = glob (drop (i + 1) pb) (drop (j + 1) sb)"
    by (simp add: glob_step)
  have "loop_inv pb sb (i + 1) (j + 1) star"
  proof (cases star)
    case (Some ss)
    obtain si sj where ss: "star = Some (si, sj)" using Some by (cases ss) auto
    with inv have "\<forall>t<i - (si + 1). pb ! (si + 1 + t) \<noteq> 42" "si < i" by (auto simp: loop_inv_def)
    moreover have "si + 1 + t = i" if "\<not> t < i - (si + 1)" "t < i + 1 - (si + 1)" "si < i" for t
      using that by simp
    ultimately have "\<forall>t<i + 1 - (si + 1). pb ! (si + 1 + t) \<noteq> 42"
      using ns by metis
    with inv assms(2,3) ss show ?thesis by (auto simp: loop_inv_def)
  qed (use assms in \<open>auto simp: loop_inv_def\<close>)
  with g show ?thesis by (simp add: loop_goal_def)
qed

lemma loop_goal_star:
  assumes inv: "loop_inv pb sb i j star" and "j < length sb" "i < length pb" "pb ! i = 42"
  shows "loop_inv pb sb (i + 1) j (Some (i, j)) \<and>
    loop_goal pb sb (i + 1) j (Some (i, j)) = loop_goal pb sb i j star"
proof -
  have d: "drop i pb = 42 # drop (i + 1) pb"
    using assms(3,4) by (metis Cons_nth_drop_Suc Suc_eq_plus1)
  have star: "glob (drop i pb) (drop j sb) \<longleftrightarrow> (\<exists>k. j \<le> k \<and> k \<le> length sb \<and> glob (drop (i + 1) pb) (drop k sb))"
    if "j \<le> length sb" for j
  proof
    assume "glob (drop i pb) (drop j sb)"
    then obtain k where "k \<le> length (drop j sb)" "glob (drop (i + 1) pb) (drop k (drop j sb))"
      unfolding d glob_star_iff by blast
    with that show "\<exists>k. j \<le> k \<and> k \<le> length sb \<and> glob (drop (i + 1) pb) (drop k sb)"
      by (intro exI [of _ "k + j"]) auto
  next
    assume "\<exists>k. j \<le> k \<and> k \<le> length sb \<and> glob (drop (i + 1) pb) (drop k sb)"
    then obtain k where "j \<le> k" "k \<le> length sb" "glob (drop (i + 1) pb) (drop k sb)" by blast
    then show "glob (drop i pb) (drop j sb)"
      unfolding d glob_star_iff by (intro exI [of _ "k - j"]) auto
  qed
  have "glob (drop i pb) (drop j sb)" if "star = Some (si, sj)" "sj < k" "k \<le> length sb"
    "glob (drop (si + 1) pb) (drop k sb)" for si sj k
  proof -
    from inv that(1) have "loop_inv pb sb i j (Some (si, sj))" by simp
    from loop_later_star [OF this that(2-)]
    obtain k' where k': "j < k'" "k' \<le> length sb" "glob (drop i pb) (drop k' sb)" .
    then obtain k'' where "k' \<le> k''" "k'' \<le> length sb" "glob (drop (i + 1) pb) (drop k'' sb)"
      using star [of k'] by blast
    with k' assms(2) show ?thesis by (subst star) (auto intro!: exI [of _ k''])
  qed
  then have "loop_goal pb sb i j star = glob (drop i pb) (drop j sb)"
    by (auto simp: loop_goal_def split: option.splits)
  also have "\<dots> = loop_goal pb sb (i + 1) j (Some (i, j))"
    using assms(2) by (subst star) (auto simp: loop_goal_def le_less)
  finally show ?thesis using assms by (simp add: loop_inv_def)
qed

lemma loop_goal_back:
  assumes inv: "loop_inv pb sb i j star" and j: "j < length sb"
    and "\<not> (i < length pb \<and> (pb ! i = 63 \<or> pb ! i = sb ! j))" "\<not> (i < length pb \<and> pb ! i = 42)"
  shows "case star of
     None \<Rightarrow> \<not> loop_goal pb sb i j star
   | Some (si, sj) \<Rightarrow> loop_inv pb sb (si + 1) (sj + 1) (Some (si, sj + 1)) \<and>
       loop_goal pb sb (si + 1) (sj + 1) (Some (si, sj + 1)) = loop_goal pb sb i j star"
proof -
  have no: "\<not> glob (drop i pb) (drop j sb)"
  proof (cases "i < length pb")
    case True
    then have "drop i pb = pb ! i # drop (i + 1) pb" "drop j sb = sb ! j # drop (j + 1) sb"
      using j by (simp_all add: Cons_nth_drop_Suc)
    with assms True show ?thesis by (simp add: glob_step)
  qed (use j in simp)
  show ?thesis
  proof (cases star)
    case None
    with no show ?thesis by (simp add: loop_goal_def)
  next
    case (Some ss)
    obtain si sj where ss: "star = Some (si, sj)" using Some by (cases ss) auto
    with inv j have "sj + 1 \<le> length sb" "si + 1 \<le> length pb" by (auto simp: loop_inv_def)
    moreover from this have "(\<exists>k. sj < k \<and> k \<le> length sb \<and> P k) \<longleftrightarrow>
        P (sj + 1) \<or> (\<exists>k. sj + 1 < k \<and> k \<le> length sb \<and> P k)" for P
      by (metis Suc_eq_plus1 Suc_lessI lessI less_trans)
    ultimately show ?thesis
      using no ss by (auto simp: loop_goal_def loop_inv_def)
  qed
qed

definition loop_rank :: "bytes \<Rightarrow> bytes \<Rightarrow> nat \<times> nat \<times> (nat \<times> nat) option \<Rightarrow> nat \<times> nat \<times> nat" where
  "loop_rank pb sb s = (case s of (i, j, star) \<Rightarrow>
     (length pb - (case star of None \<Rightarrow> 0 | Some (si, sj) \<Rightarrow> si + 1),
      length sb - (case star of None \<Rightarrow> 0 | Some (si, sj) \<Rightarrow> sj),
      length pb - i))"

text \<open>The backtracking loop ends, and its answer is the goal, on a segment without a star.\<close>

lemma match_loop_correct:
  assumes "loop_inv pb sb i j star" and no_star: "42 \<notin> set sb"
  shows "match_loop pb sb i j star = Some (loop_goal pb sb i j star)"
  using assms(1)
proof (induction "(i, j, star)" arbitrary: i j star rule:
    wf_induct_rule [OF wf_inv_image [OF wf_lex_prod [OF wf_less_than wf_lex_prod [OF wf_less_than wf_less_than]],
      of "loop_rank pb sb"]])
  case 1
  note IH = 1(1) and inv = 1(2)
  show ?case
  proof (cases "j < length sb")
    case False
    then have "\<not> loop_goal pb sb i j star \<or> glob (drop i pb) (drop j sb)"
      using loop_later_star [of pb sb i j] inv
      by (auto simp: loop_goal_def loop_inv_def split: option.splits)
    with False have "loop_goal pb sb i j star = glob (drop i pb) []"
      by (auto simp: loop_goal_def)
    with False show ?thesis by (simp add: match_loop.simps glob_empty)
  next
    case j: True
    consider (match) "i < length pb" "pb ! i = 63 \<or> pb ! i = sb ! j"
      | (star) "i < length pb" "\<not> (pb ! i = 63 \<or> pb ! i = sb ! j)" "pb ! i = 42"
      | (retry) "\<not> (i < length pb \<and> (pb ! i = 63 \<or> pb ! i = sb ! j))" "\<not> (i < length pb \<and> pb ! i = 42)"
      by blast
    then show ?thesis
    proof cases
      case match
      have "match_loop pb sb (i + 1) (j + 1) star = Some (loop_goal pb sb (i + 1) (j + 1) star)"
        using loop_goal_match [OF inv j match no_star] match by (intro IH) (auto simp: loop_rank_def)
      with loop_goal_match [OF inv j match no_star] match j show ?thesis
        by (subst match_loop.simps) simp
    next
      case star
      have "match_loop pb sb (i + 1) j (Some (i, j)) = Some (loop_goal pb sb (i + 1) j (Some (i, j)))"
        using loop_goal_star [OF inv j star(1,3)] inv star(1)
        by (intro IH) (auto simp: loop_rank_def loop_inv_def split: option.splits)
      with loop_goal_star [OF inv j star(1,3)] star j show ?thesis
        by (subst match_loop.simps) auto
    next
      case retry
      note gb = loop_goal_back [OF inv j retry]
      show ?thesis
      proof (cases star)
        case None
        with gb retry j show ?thesis by (subst match_loop.simps) auto
      next
        case (Some ss)
        obtain si sj where ss: "star = Some (si, sj)" using Some by (cases ss) auto
        have "match_loop pb sb (si + 1) (sj + 1) (Some (si, sj + 1)) =
            Some (loop_goal pb sb (si + 1) (sj + 1) (Some (si, sj + 1)))"
          using gb inv j ss by (intro IH) (auto simp: loop_rank_def loop_inv_def)
        with gb ss retry j show ?thesis by (subst match_loop.simps) auto
      qed
    qed
  qed
qed

lemma match_loop_glob:
  "42 \<notin> set sb \<Longrightarrow> match_loop pb sb 0 0 None = Some (glob pb sb)"
  by (simp add: match_loop_correct loop_inv_def loop_goal_def)

lemma utf8_no_star: "valid_str s \<Longrightarrow> 42 \<notin> set s \<Longrightarrow> 42 \<notin> set (utf8 s)"
  using utf8_ascii [of s 42] by auto

lemma utf8_star: "utf8 [42] = [42]"
  by (simp add: utf8_char_def byte_def)

lemma match_one_glob:
  assumes "42 \<notin> set (utf8 seg)"
  shows "match_one pat seg = glob (utf8 pat) (utf8 seg)"
proof (cases "pat = [42]")
  case True
  have "glob [42] (utf8 seg)" using glob_star [OF glob_end, of "utf8 seg"] by simp
  with True show ?thesis by (simp add: match_one_def utf8_star del: utf8_Cons)
next
  case False
  with assms show ?thesis by (simp add: match_one_def match_loop_glob)
qed

subsection \<open>Whole paths\<close>

inductive seg_glob :: "rstr list \<Rightarrow> rstr list \<Rightarrow> bool" where
  seg_end: "seg_glob [] []"
| seg_deep: "seg_glob ps ss \<Longrightarrow> seg_glob ([42, 42] # ps) (ts @ ss)"
| seg_one: "seg_glob ps ss \<Longrightarrow> p \<noteq> [42, 42] \<Longrightarrow> glob (utf8 p) (utf8 s) \<Longrightarrow> seg_glob (p # ps) (s # ss)"

inductive_cases seg_glob_ConsE: "seg_glob (p # ps) ss"
inductive_simps seg_glob_Nil_simp [simp]: "seg_glob [] ss"

lemma seg_deep_iff:
  "seg_glob ([42, 42] # ps) ss \<longleftrightarrow> seg_glob ps ss \<or> ss \<noteq> [] \<and> seg_glob ([42, 42] # ps) (tl ss)"
proof
  assume "seg_glob ([42, 42] # ps) ss"
  then obtain ts us where "ss = ts @ us" "seg_glob ps us" by (auto elim: seg_glob_ConsE)
  then show "seg_glob ps ss \<or> ss \<noteq> [] \<and> seg_glob ([42, 42] # ps) (tl ss)"
    by (cases ts) (auto intro: seg_deep)
next
  assume *: "seg_glob ps ss \<or> ss \<noteq> [] \<and> seg_glob ([42, 42] # ps) (tl ss)"
  then show "seg_glob ([42, 42] # ps) ss"
  proof
    assume "seg_glob ps ss"
    then show ?thesis using seg_deep [of ps ss "[]"] by simp
  next
    assume s: "ss \<noteq> [] \<and> seg_glob ([42, 42] # ps) (tl ss)"
    then obtain ts us where "tl ss = ts @ us" "seg_glob ps us" by (auto elim: seg_glob_ConsE)
    with s have "ss = (hd ss # ts) @ us" "seg_glob ps us" by (cases ss; simp)+
    then show ?thesis by (metis seg_deep)
  qed
qed

lemma match_rec_seg_glob:
  "\<forall>s\<in>set ss. 42 \<notin> set (utf8 s) \<Longrightarrow> match_rec ps ss = seg_glob ps ss"
proof (induction ps ss rule: match_rec.induct)
  case (2 p ps ss)
  show ?case
  proof (cases "p = [42, 42]")
    case True
    have "\<forall>s\<in>set (tl ss). 42 \<notin> set (utf8 s)" using "2.prems" by (cases ss) auto
    with True "2.IH"(1,2) "2.prems" show ?thesis
      by (subst match_rec.simps(2)) (auto simp: seg_deep_iff [of ps ss])
  next
    case False
    then show ?thesis
    proof (cases ss)
      case Nil
      with False show ?thesis
        by (subst match_rec.simps(2)) (auto elim: seg_glob_ConsE)
    next
      case (Cons s us)
      with False "2.IH"(3) "2.prems" show ?thesis
        by (subst match_rec.simps(2)) (auto simp: match_one_glob elim: seg_glob_ConsE intro: seg_one)
    qed
  qed
qed simp

lemma split_segs_eq: "split_segs s = comps s"
  by (simp add: split_segs_def comps_def)

lemma comps_cfold: "comps (cfold s) = map cfold (comps s)"
  by (simp add: comps_def split_cfold filter_map comp_def)

lemma split_segs_normalize: "split_segs (glob_normalize s) = map cfold (raw_comps s)"
  by (simp add: split_segs_eq glob_normalize_def comps_cfold comps_trim_rel)

lemma raw_comps_chars: "w \<in> set (raw_comps s) \<Longrightarrow> set w \<subseteq> set s"
  by (auto simp: raw_comps_def dest: split_on_chars)

lemma valid_raw_comps: "valid_str s \<Longrightarrow> w \<in> set (raw_comps s) \<Longrightarrow> valid_str w"
  using raw_comps_chars [of w s] by (auto simp: valid_str_def)



text \<open>A star in the path itself is compared before the pattern's star is seen as one, so the loop
  then answers no where the glob says yes.\<close>

lemma match_one_star_in_segment:
  "\<not> match_one (lit ''*x'') (lit ''*ax'') \<and> glob (utf8 (lit ''*x'')) (utf8 (lit ''*ax''))"
proof
  show "\<not> match_one (lit ''*x'') (lit ''*ax'')"
    by (simp add: lit_def match_one_def utf8_char_def byte_def match_loop.simps)
  have "glob (42 # [120]) ([42, 97] @ [120])"
    by (rule glob_star, rule glob_lit [OF glob_end]) simp_all
  then show "glob (utf8 (lit ''*x'')) (utf8 (lit ''*ax''))"
    by (simp add: lit_def utf8_char_def byte_def)
qed

end
