(* ===== verification/Ordmap.thy ===== *)
theory Ordmap
  imports Main
begin

text \<open>
  The standard library's \<^verbatim>\<open>BTreeMap\<close> as an association list in key order: \<open>map_of\<close> reads it,
  \<open>oins\<close> inserts or replaces, \<open>odel\<close> removes. Iteration visits the list from the front. The
  reading laws need no order; \<open>ordered\<close> is the order that insertion and removal keep.
\<close>

fun oins :: "'k::linorder \<Rightarrow> 'v \<Rightarrow> ('k \<times> 'v) list \<Rightarrow> ('k \<times> 'v) list" where
  "oins k v [] = [(k, v)]"
| "oins k v ((k', v') # m) =
     (if k < k' then (k, v) # (k', v') # m
      else if k = k' then (k, v) # m
      else (k', v') # oins k v m)"

definition odel :: "'k \<Rightarrow> ('k \<times> 'v) list \<Rightarrow> ('k \<times> 'v) list" where
  "odel k m = filter (\<lambda>(k', v). k' \<noteq> k) m"

definition ordered :: "('k::linorder \<times> 'v) list \<Rightarrow> bool" where
  "ordered m \<longleftrightarrow> sorted_wrt (<) (map fst m)"

lemma ordered_Nil [simp]: "ordered []"
  by (simp add: ordered_def)

lemma ordered_Cons: "ordered ((k, v) # m) \<longleftrightarrow> (\<forall>k'\<in>fst ` set m. k < k') \<and> ordered m"
  by (auto simp: ordered_def)

lemma ordered_distinct: "ordered m \<Longrightarrow> distinct (map fst m)"
  by (simp add: ordered_def strict_sorted_iff)

lemma ordered_sorted: "ordered m \<Longrightarrow> sorted (map fst m)"
  by (simp add: ordered_def strict_sorted_iff)

lemma map_of_oins [simp]: "map_of (oins k v m) = (map_of m)(k \<mapsto> v)"
  by (induction k v m rule: oins.induct) (auto simp: fun_eq_iff)

lemma keys_oins [simp]: "fst ` set (oins k v m) = insert k (fst ` set m)"
  by (induction k v m rule: oins.induct) auto

lemma ordered_oins [simp]: "ordered m \<Longrightarrow> ordered (oins k v m)"
  by (induction k v m rule: oins.induct) (auto simp: ordered_Cons)

lemma map_of_odel [simp]: "map_of (odel k m) = (map_of m)(k := None)"
  by (induction m) (auto simp: odel_def fun_eq_iff)

lemma keys_odel [simp]: "fst ` set (odel k m) = fst ` set m - {k}"
  by (auto simp: odel_def image_iff)

lemma ordered_odel [simp]: "ordered m \<Longrightarrow> ordered (odel k m)"
  by (induction m) (auto simp: odel_def ordered_Cons)

lemma in_set_map_of: "ordered m \<Longrightarrow> (k, v) \<in> set m \<longleftrightarrow> map_of m k = Some v"
  by (simp add: ordered_distinct map_of_eq_Some_iff)

text \<open>An ordered list is determined by what it maps, so two maps built in different ways with
  the same content are the same list.\<close>

lemma ordered_eqI:
  assumes "ordered m" and "ordered m'" and "map_of m = map_of m'"
  shows "m = m'"
proof -
  have "fst ` set m = fst ` set m'"
    using assms(3) by (metis dom_map_of_conv_image_fst)
  then have keys: "map fst m = map fst m'"
    using assms(1,2) by (intro strict_sorted_equal) (simp_all add: ordered_def)
  have "set m = set m'"
    using assms by (intro set_eqI) (auto simp: in_set_map_of)
  moreover have "inj_on fst (set m \<union> set m')"
    using \<open>set m = set m'\<close> ordered_distinct [OF assms(1)] by (simp add: distinct_map)
  ultimately show ?thesis
    using keys by (metis map_inj_on)
qed

lemma oins_same: "ordered m \<Longrightarrow> map_of m k = Some v \<Longrightarrow> oins k v m = m"
  by (rule ordered_eqI) auto

end
