(* ===== verification/Vtree.thy ===== *)
theory Vtree
  imports Patterns Ordmap
begin

text \<open>
  The merged tree of \<^verbatim>\<open>vfs-core/src/tree.rs\<close> with its data of \<^verbatim>\<open>model.rs\<close>: an arena of nodes whose
  directories map folded names to node indices, built by inserting the entries of the layers
  from low to high. Node indices are 32 bits wide and \<open>push\<close> cuts the arena's length to that
  width. The cache key is a hash of a third-party library and so a parameter.
\<close>

section \<open>Data\<close>

datatype entry_kind = File | Dir | Tombstone

record input_entry =
  vpath :: rstr
  ie_kind :: entry_kind
  ie_source :: bytes
  ie_size :: u64
  ie_mtime :: u64

record layer =
  layer_id :: u32
  layer_entries :: "input_entry list"

record file_node =
  fn_source :: bytes
  fn_size :: u64
  fn_mtime :: u64
  fn_layer :: u32

datatype node_entry = FileN file_node | DirN "(rstr \<times> nat) list" | TombstoneN

record node =
  node_name :: rstr
  node_entry :: node_entry

type_synonym vtree = "node list"

record tree_stat =
  ts_kind :: entry_kind
  ts_size :: u64
  ts_mtime :: u64

record tree_entry =
  te_name :: rstr
  te_kind :: entry_kind
  te_size :: u64
  te_mtime :: u64

datatype resolution =
    RFile bytes u64 u64 u32 bytes
  | RDir
  | RTombstone
  | RNotFound

datatype build_error = BEmptyPath | BEscapesRoot
datatype vfs_error = NotADirectory | NotFound

section \<open>Operations\<close>

definition compute_cache_key :: "(bytes \<Rightarrow> bytes) \<Rightarrow> bytes \<Rightarrow> u64 \<Rightarrow> u64 \<Rightarrow> bytes" where
  "compute_cache_key hash source sz mtime = hash (source @ u64_le sz @ u64_le mtime)"

definition push :: "rstr \<Rightarrow> node_entry \<Rightarrow> vtree \<Rightarrow> vtree \<times> nat" where
  "push name e t = (t @ [\<lparr>node_name = name, node_entry = e\<rparr>], length t mod 2 ^ 32)"

definition child :: "vtree \<Rightarrow> nat \<Rightarrow> rstr \<Rightarrow> nat option" where
  "child t parent key = (case node_entry (t ! parent) of
     DirN ch \<Rightarrow> map_of ch key | FileN f \<Rightarrow> None | TombstoneN \<Rightarrow> None)"

definition set_child :: "nat \<Rightarrow> rstr \<Rightarrow> nat \<Rightarrow> vtree \<Rightarrow> vtree" where
  "set_child parent key i t = (case node_entry (t ! parent) of
     DirN ch \<Rightarrow> t[parent := (t ! parent)\<lparr>node_entry := DirN (oins key i ch)\<rparr>]
   | FileN f \<Rightarrow> t | TombstoneN \<Rightarrow> t)"

definition is_dir :: "node_entry \<Rightarrow> bool" where
  "is_dir e = (case e of DirN ch \<Rightarrow> True | FileN f \<Rightarrow> False | TombstoneN \<Rightarrow> False)"

text \<open>The loop of \<^verbatim>\<open>ensure_dir_path\<close> from node \<open>cur\<close>.\<close>

fun ensure_dirs :: "nat \<Rightarrow> rstr list \<Rightarrow> vtree \<Rightarrow> vtree \<times> nat" where
  "ensure_dirs cur [] t = (t, cur)"
| "ensure_dirs cur (cp # rest) t =
     (let key = cfold cp in
      case child t cur key of
        Some i \<Rightarrow>
          (if \<not> is_dir (node_entry (t ! i))
           then ensure_dirs i rest (t[i := \<lparr>node_name = cp, node_entry = DirN []\<rparr>])
           else ensure_dirs i rest t)
      | None \<Rightarrow>
          (let (t, i) = push cp (DirN []) t in
           ensure_dirs i rest (set_child cur key i t)))"

definition ensure_dir_path :: "rstr list \<Rightarrow> vtree \<Rightarrow> vtree \<times> nat" where
  "ensure_dir_path cs t = ensure_dirs 0 cs t"

text \<open>The end of \<^verbatim>\<open>insert_file\<close> and of \<^verbatim>\<open>insert_tombstone\<close>: the leaf is replaced or added.\<close>

definition put_leaf :: "rstr list \<Rightarrow> node_entry \<Rightarrow> vtree \<Rightarrow> vtree" where
  "put_leaf cs e t =
     (let leaf = last cs; parents = butlast cs;
          (t, parent) = ensure_dir_path parents t;
          key = cfold leaf in
      case child t parent key of
        Some i \<Rightarrow> t[i := \<lparr>node_name = leaf, node_entry = e\<rparr>]
      | None \<Rightarrow> (let (t, i) = push leaf e t in set_child parent key i t))"

definition insert_file :: "rstr list \<Rightarrow> input_entry \<Rightarrow> u32 \<Rightarrow> vtree \<Rightarrow> vtree" where
  "insert_file cs e l t =
     put_leaf cs (FileN \<lparr>fn_source = ie_source e, fn_size = ie_size e, fn_mtime = ie_mtime e, fn_layer = l\<rparr>) t"

definition insert_tombstone :: "rstr list \<Rightarrow> vtree \<Rightarrow> vtree" where
  "insert_tombstone cs t = put_leaf cs TombstoneN t"

definition build_entry :: "u32 \<Rightarrow> input_entry \<Rightarrow> vtree \<Rightarrow> build_error + vtree" where
  "build_entry l e t =
     (case normalize_vpath (vpath e) of
        Inl _ \<Rightarrow> Inl BEscapesRoot
      | Inr norm \<Rightarrow>
          (if norm = [] then Inl BEmptyPath
           else (let cs = split_on ((=) slash) norm in
             Inr (case ie_kind e of
                    Tombstone \<Rightarrow> insert_tombstone cs t
                  | Dir \<Rightarrow> fst (ensure_dir_path cs t)
                  | File \<Rightarrow> insert_file cs e l t))))"

fun build_entries :: "u32 \<Rightarrow> input_entry list \<Rightarrow> vtree \<Rightarrow> build_error + vtree" where
  "build_entries l [] t = Inr t"
| "build_entries l (e # es) t = rbind (build_entry l e t) (build_entries l es)"

fun build_layers :: "layer list \<Rightarrow> vtree \<Rightarrow> build_error + vtree" where
  "build_layers [] t = Inr t"
| "build_layers (l # ls) t = rbind (build_entries (layer_id l) (layer_entries l) t) (build_layers ls)"

definition empty_tree :: vtree where
  "empty_tree = [\<lparr>node_name = [], node_entry = DirN []\<rparr>]"

definition build :: "layer list \<Rightarrow> build_error + vtree" where
  "build layers = build_layers layers empty_tree"

fun find_from :: "vtree \<Rightarrow> nat \<Rightarrow> rstr list \<Rightarrow> nat option" where
  "find_from t cur [] = Some cur"
| "find_from t cur (cp # cs) =
     (let key = cfold cp in
      case node_entry (t ! cur) of
        DirN ch \<Rightarrow> (case map_of ch key of Some i \<Rightarrow> find_from t i cs | None \<Rightarrow> None)
      | FileN f \<Rightarrow> None
      | TombstoneN \<Rightarrow> None)"

definition find_node :: "vtree \<Rightarrow> rstr \<Rightarrow> nat option" where
  "find_node t norm = (if norm = [] then Some 0 else find_from t 0 (split_on ((=) slash) norm))"

definition resolve :: "(bytes \<Rightarrow> bytes) \<Rightarrow> vtree \<Rightarrow> rstr \<Rightarrow> resolution" where
  "resolve hash t p =
     (case normalize_vpath p of
        Inl _ \<Rightarrow> RNotFound
      | Inr norm \<Rightarrow>
          (case find_node t norm of
             Some i \<Rightarrow>
               (case node_entry (t ! i) of
                  DirN ch \<Rightarrow> RDir
                | TombstoneN \<Rightarrow> RTombstone
                | FileN f \<Rightarrow> RFile (fn_source f) (fn_size f) (fn_mtime f) (fn_layer f)
                    (compute_cache_key hash (fn_source f) (fn_size f) (fn_mtime f)))
           | None \<Rightarrow> RNotFound))"

definition getattr :: "vtree \<Rightarrow> rstr \<Rightarrow> tree_stat option" where
  "getattr t p =
     (case normalize_vpath p of
        Inl _ \<Rightarrow> None
      | Inr norm \<Rightarrow>
          (case find_node t norm of
             None \<Rightarrow> None
           | Some i \<Rightarrow>
               (case node_entry (t ! i) of
                  DirN ch \<Rightarrow> Some \<lparr>ts_kind = Dir, ts_size = 0, ts_mtime = 0\<rparr>
                | FileN f \<Rightarrow> Some \<lparr>ts_kind = File, ts_size = fn_size f, ts_mtime = fn_mtime f\<rparr>
                | TombstoneN \<Rightarrow> None)))"

definition tree_entry_of :: "node \<Rightarrow> tree_entry" where
  "tree_entry_of n = (case node_entry n of
     DirN ch \<Rightarrow> \<lparr>te_name = node_name n, te_kind = Dir, te_size = 0, te_mtime = 0\<rparr>
   | FileN f \<Rightarrow> \<lparr>te_name = node_name n, te_kind = File, te_size = fn_size f, te_mtime = fn_mtime f\<rparr>
   | TombstoneN \<Rightarrow> \<lparr>te_name = node_name n, te_kind = Tombstone, te_size = 0, te_mtime = 0\<rparr>)"

text \<open>The sort is \<^verbatim>\<open>sort_by(cmp_ci)\<close>, stable, on the folded names.\<close>

definition readdir :: "vtree \<Rightarrow> rstr \<Rightarrow> rstr option \<Rightarrow> vfs_error + tree_entry list" where
  "readdir t p flt =
     (case normalize_vpath p of
        Inl _ \<Rightarrow> Inl NotFound
      | Inr norm \<Rightarrow>
          (case find_node t norm of
             None \<Rightarrow> Inl NotFound
           | Some i \<Rightarrow>
               (case node_entry (t ! i) of
                  DirN ch \<Rightarrow>
                    Inr (sort_key (\<lambda>e. cfold (te_name e))
                      (filter (\<lambda>e. case flt of Some pat \<Rightarrow> wildcard_match pat (te_name e) | None \<Rightarrow> True)
                        (map (\<lambda>(k, c). tree_entry_of (t ! c)) ch)))
                | FileN f \<Rightarrow> Inl NotADirectory
                | TombstoneN \<Rightarrow> Inl NotADirectory)))"

text \<open>A visited node: its index, display name, folded name, entry and child list.\<close>

record walk_node =
  wn_id :: nat
  wn_display :: rstr
  wn_folded :: rstr
  wn_entry :: node_entry
  wn_children :: "(rstr \<times> nat) list"

text \<open>The visits of \<^verbatim>\<open>walk_from\<close> in order; \<open>None\<close> when the fuel for the recursion depth runs out.\<close>

fun walk_from :: "nat \<Rightarrow> vtree \<Rightarrow> nat \<Rightarrow> rstr \<Rightarrow> walk_node list option"
and walk_children :: "nat \<Rightarrow> vtree \<Rightarrow> (rstr \<times> nat) list \<Rightarrow> walk_node list option" where
  "walk_from 0 t idx folded = None"
| "walk_from (Suc n) t idx folded =
     (let nd = t ! idx in
      case node_entry nd of
        DirN ch \<Rightarrow>
          map_option (\<lambda>vs. vs @ [\<lparr>wn_id = idx, wn_display = node_name nd, wn_folded = folded,
              wn_entry = node_entry nd, wn_children = ch\<rparr>]) (walk_children n t ch)
      | FileN f \<Rightarrow> Some [\<lparr>wn_id = idx, wn_display = node_name nd, wn_folded = folded,
            wn_entry = node_entry nd, wn_children = []\<rparr>]
      | TombstoneN \<Rightarrow> Some [\<lparr>wn_id = idx, wn_display = node_name nd, wn_folded = folded,
            wn_entry = node_entry nd, wn_children = []\<rparr>])"
| "walk_children n t [] = Some []"
| "walk_children n t ((f, c) # ch) =
     (case walk_from n t c f of
        None \<Rightarrow> None
      | Some vs \<Rightarrow> map_option (\<lambda>ws. vs @ ws) (walk_children n t ch))"

definition walk_postorder :: "vtree \<Rightarrow> walk_node list option" where
  "walk_postorder t = walk_from (length t) t 0 []"

section \<open>Well-formed trees\<close>

text \<open>The arena's invariant: the root is a directory; every directory's children are in key order,
  lie in the arena above their parent and are keyed by the fold of their name; a node is the
  child of one directory under one key only.\<close>

definition wf_tree :: "vtree \<Rightarrow> bool" where
  "wf_tree t \<longleftrightarrow> t \<noteq> [] \<and> is_dir (node_entry (t ! 0)) \<and>
     (\<forall>i<length t. \<forall>ch. node_entry (t ! i) = DirN ch \<longrightarrow> ordered ch) \<and>
     (\<forall>i<length t. \<forall>k c. child t i k = Some c \<longrightarrow> i < c \<and> c < length t \<and> cfold (node_name (t ! c)) = k) \<and>
     (\<forall>i<length t. \<forall>j<length t. \<forall>k k' c. child t i k = Some c \<longrightarrow> child t j k' = Some c \<longrightarrow> i = j \<and> k = k')"

lemma wf_treeD:
  assumes "wf_tree t"
  shows "0 < length t" "is_dir (node_entry (t ! 0))"
    and "i < length t \<Longrightarrow> node_entry (t ! i) = DirN ch \<Longrightarrow> ordered ch"
    and "i < length t \<Longrightarrow> child t i k = Some c \<Longrightarrow> i < c \<and> c < length t \<and> cfold (node_name (t ! c)) = k"
    and "i < length t \<Longrightarrow> j < length t \<Longrightarrow> child t i k = Some c \<Longrightarrow> child t j k' = Some c \<Longrightarrow> i = j \<and> k = k'"
  using assms unfolding wf_tree_def by blast+

lemma is_dir_iff: "is_dir e \<longleftrightarrow> (\<exists>ch. e = DirN ch)"
  by (cases e) (auto simp: is_dir_def)

text \<open>The node at a path of folded names.\<close>

fun follow :: "vtree \<Rightarrow> nat \<Rightarrow> rstr list \<Rightarrow> nat option" where
  "follow t i [] = Some i"
| "follow t i (k # ks) = (case child t i k of None \<Rightarrow> None | Some c \<Rightarrow> follow t c ks)"

lemma follow_snoc:
  "follow t i (ks @ [k]) = (case follow t i ks of None \<Rightarrow> None | Some c \<Rightarrow> child t c k)"
  by (induction t i ks rule: follow.induct) (auto split: option.splits)

lemma find_from_follow: "find_from t i cs = follow t i (map cfold cs)"
proof (induction t i cs rule: find_from.induct)
  case (2 t cur cp cs)
  then show ?case
    by (auto simp: child_def Let_def split: node_entry.splits option.splits)
qed simp

lemma follow_from_bound:
  assumes "wf_tree t" and "r < length t" and "follow t r ks = Some c"
  shows "r \<le> c \<and> c < length t"
  using assms(3)
proof (induction ks arbitrary: c rule: rev_induct)
  case (snoc k ks)
  then obtain i where i: "follow t r ks = Some i" "child t i k = Some c"
    by (auto simp: follow_snoc split: option.splits)
  have "r \<le> i" "i < length t" using snoc.IH [OF i(1)] by auto
  with wf_treeD(4) [OF assms(1) _ i(2)] show ?case by auto
qed (use assms in simp)

lemma follow_from_inj:
  assumes wf: "wf_tree t" and r: "r < length t"
    and "follow t r ks = Some c" and "follow t r qs = Some c"
  shows "ks = qs"
  using assms(3,4)
proof (induction ks arbitrary: qs c rule: rev_induct)
  case Nil
  then show ?case
  proof (cases qs rule: rev_exhaust)
    case (snoc qs' q)
    with Nil obtain i where i: "follow t r qs' = Some i" "child t i q = Some r"
      by (auto simp: follow_snoc split: option.splits)
    with follow_from_bound [OF wf r i(1)] wf_treeD(4) [OF wf _ i(2)] show ?thesis by auto
  qed simp
next
  case (snoc k ks)
  then obtain i where i: "follow t r ks = Some i" "child t i k = Some c"
    by (auto simp: follow_snoc split: option.splits)
  have ib: "r \<le> i" "i < length t" using follow_from_bound [OF wf r i(1)] by auto
  show ?case
  proof (cases qs rule: rev_exhaust)
    case Nil
    with snoc.prems(2) ib wf_treeD(4) [OF wf ib(2) i(2)] show ?thesis by simp
  next
    case (snoc qs' q)
    with \<open>follow t r qs = Some c\<close> obtain j where j: "follow t r qs' = Some j" "child t j q = Some c"
      by (auto simp: follow_snoc split: option.splits)
    have "j < length t" using follow_from_bound [OF wf r j(1)] by simp
    from wf_treeD(5) [OF wf ib(2) this i(2) j(2)] have "i = j" "k = q" by auto
    with snoc.IH [OF i(1)] j(1) snoc show ?thesis by simp
  qed
qed

lemma follow_bound: "wf_tree t \<Longrightarrow> follow t 0 ks = Some c \<Longrightarrow> c < length t"
  using follow_from_bound wf_treeD(1) by blast

lemma follow_inj: "wf_tree t \<Longrightarrow> follow t 0 ks = Some c \<Longrightarrow> follow t 0 qs = Some c \<Longrightarrow> ks = qs"
  using follow_from_inj wf_treeD(1) by blast

subsection \<open>Two updates\<close>

lemma child_update:
  assumes "j < length t"
  shows "child (t[j := nd]) i k =
    (if i = j then (case node_entry nd of DirN ch \<Rightarrow> map_of ch k | _ \<Rightarrow> None) else child t i k)"
  using assms by (simp add: child_def split: node_entry.splits)

text \<open>Replacing the node at a path by one without children.\<close>

definition bare :: "node_entry \<Rightarrow> bool" where
  "bare e \<longleftrightarrow> e = DirN [] \<or> \<not> is_dir e"

lemma bare_child: "bare e \<Longrightarrow> (case e of DirN ch \<Rightarrow> map_of ch k | _ \<Rightarrow> None) = None"
  by (cases e) (auto simp: bare_def is_dir_def)

lemma wf_replace:
  assumes wf: "wf_tree t" and j: "j < length t" and "bare e"
    and "cfold nm = cfold (node_name (t ! j))" and "j = 0 \<Longrightarrow> is_dir e"
  shows "wf_tree (t[j := \<lparr>node_name = nm, node_entry = e\<rparr>])"
proof -
  let ?t = "t[j := \<lparr>node_name = nm, node_entry = e\<rparr>]"
  have c: "child ?t i k = (if i = j then None else child t i k)" for i k
    using child_update [OF j] bare_child [OF assms(3)] by simp
  have nm: "cfold (node_name (?t ! i)) = cfold (node_name (t ! i))" if "i < length t" for i
    using that assms(4) by (cases "i = j") auto
  have "?t \<noteq> []" "is_dir (node_entry (?t ! 0))"
    using wf_treeD(1,2) [OF wf] assms(5) j by (cases "j = 0"; simp)+
  moreover have "ordered ch" if "i < length ?t" "node_entry (?t ! i) = DirN ch" for i ch
    using that wf_treeD(3) [OF wf, of i ch] assms(3) by (cases "i = j") (auto simp: bare_def is_dir_iff)
  moreover have "i < d \<and> d < length ?t \<and> cfold (node_name (?t ! d)) = k"
    if "i < length ?t" "child ?t i k = Some d" for i k d
    using that wf_treeD(4) [OF wf, of i k d] nm by (auto simp: c split: if_splits)
  moreover have "i = i' \<and> k = k'"
    if "i < length ?t" "i' < length ?t" "child ?t i k = Some d" "child ?t i' k' = Some d" for i i' k k' d
    using that wf_treeD(5) [OF wf, of i i' k d k'] by (auto simp: c split: if_splits)
  ultimately show ?thesis unfolding wf_tree_def by blast
qed

lemma strict_prefix_snoc: "strict_prefix ks (qs @ [q]) \<longleftrightarrow> ks = qs \<or> strict_prefix ks qs"
  using prefix_length_le [of ks qs] by (auto simp: strict_prefix_def)

lemma follow_replace:
  assumes wf: "wf_tree t" and ks: "follow t 0 ks = Some j" and "bare e"
  shows "follow (t[j := \<lparr>node_name = nm, node_entry = e\<rparr>]) 0 qs =
    (if strict_prefix ks qs then None else follow t 0 qs)"
proof (induction qs rule: rev_induct)
  case (snoc q qs)
  let ?t = "t[j := \<lparr>node_name = nm, node_entry = e\<rparr>]"
  have c: "child ?t i k = (if i = j then None else child t i k)" for i k
    using child_update [OF follow_bound [OF wf ks]] bare_child [OF assms(3)] by simp
  have sp: "strict_prefix ks (qs @ [q]) \<longleftrightarrow> ks = qs \<or> strict_prefix ks qs"
    by (rule strict_prefix_snoc)
  show ?case
  proof (cases "follow t 0 qs")
    case None
    with snoc show ?thesis by (auto simp: follow_snoc)
  next
    case (Some i)
    then have "i = j \<longleftrightarrow> ks = qs" using follow_inj [OF wf ks, of qs] ks by (metis option.inject)
    with Some snoc show ?thesis by (auto simp: follow_snoc sp c)
  qed
qed simp

text \<open>Adding a child that was not there.\<close>

definition add_child :: "nat \<Rightarrow> rstr \<Rightarrow> node_entry \<Rightarrow> vtree \<Rightarrow> vtree" where
  "add_child i nm e t = set_child i (cfold nm) (length t) (t @ [\<lparr>node_name = nm, node_entry = e\<rparr>])"

lemma length_set_child [simp]: "length (set_child i k c t) = length t"
  by (simp add: set_child_def split: node_entry.splits)

lemma length_add_child [simp]: "length (add_child i nm e t) = Suc (length t)"
  by (simp add: add_child_def)

lemma nth_add_child:
  assumes "i < length t" and "node_entry (t ! i) = DirN ch"
  shows "add_child i nm e t ! j =
    (if j = i then (t ! i)\<lparr>node_entry := DirN (oins (cfold nm) (length t) ch)\<rparr>
     else (t @ [\<lparr>node_name = nm, node_entry = e\<rparr>]) ! j)"
  using assms by (simp add: add_child_def set_child_def nth_append nth_list_update)

lemma child_add_child:
  assumes i: "i < length t" and "is_dir (node_entry (t ! i))" and "bare e" and "j \<le> length t"
  shows "child (add_child i nm e t) j k =
    (if j = i \<and> k = cfold nm then Some (length t) else if j = length t then None else child t j k)"
proof -
  obtain ch where ch: "node_entry (t ! i) = DirN ch" using assms(2) by (auto simp: is_dir_iff)
  then show ?thesis
    using bare_child [OF assms(3), of k] assms(1,4)
    by (auto simp: child_def nth_add_child [OF i ch] nth_append split: node_entry.splits)
qed

lemma wf_add_child:
  assumes wf: "wf_tree t" and i: "i < length t" and d: "is_dir (node_entry (t ! i))"
    and b: "bare e" and new: "child t i (cfold nm) = None"
  shows "wf_tree (add_child i nm e t)"
proof -
  let ?t = "add_child i nm e t"
  obtain ch where ch: "node_entry (t ! i) = DirN ch" using d by (auto simp: is_dir_iff)
  note c = child_add_child [OF i d b]
  have nm: "node_name (?t ! j) = node_name (t ! j)" if "j < length t" for j
    using that by (auto simp: nth_add_child [OF i ch] nth_append)
  have nmn: "node_name (?t ! length t) = nm"
    using i by (simp add: nth_add_child [OF i ch])
  have "?t \<noteq> []" using length_add_child [of i nm e t] by (metis list.size(3) nat.simps(3))
  moreover have "is_dir (node_entry (?t ! 0))"
    using wf_treeD(1,2) [OF wf] by (auto simp: nth_add_child [OF i ch] nth_append is_dir_def)
  moreover have "ordered ch'" if "j < length ?t" "node_entry (?t ! j) = DirN ch'" for j ch'
    using that wf_treeD(3) [OF wf, of j ch'] wf_treeD(3) [OF wf i ch] b i
    by (auto simp: nth_add_child [OF i ch] nth_append bare_def is_dir_iff less_Suc_eq split: if_splits)
  moreover have "j < a \<and> a < length ?t \<and> cfold (node_name (?t ! a)) = k"
    if "j < length ?t" "child ?t j k = Some a" for j k a
  proof (cases "j = i \<and> k = cfold nm")
    case True
    with that i nmn c [of j nm k] show ?thesis by (auto simp: less_Suc_eq_le)
  next
    case False
    with that c [of j nm k] have "j < length t" "child t j k = Some a"
      by (auto simp: less_Suc_eq_le split: if_splits)
    with wf_treeD(4) [OF wf this] nm show ?thesis by simp
  qed
  moreover have "j = j' \<and> k = k'"
    if "j < length ?t" "j' < length ?t" "child ?t j k = Some a" "child ?t j' k' = Some a" for j j' k k' a
  proof -
    have old: "(a = length t \<and> j = i \<and> k = cfold nm) \<or> (j < length t \<and> child t j k = Some a \<and> a < length t)"
      if "j < length ?t" "child ?t j k = Some a" for j k
    proof (cases "j = i \<and> k = cfold nm")
      case True
      with that c [of j nm k] show ?thesis by (auto simp: less_Suc_eq_le)
    next
      case False
      with that c [of j nm k] have "j < length t" "child t j k = Some a"
        by (auto simp: less_Suc_eq_le split: if_splits)
      with wf_treeD(4) [OF wf this] show ?thesis by simp
    qed
    from old [OF that(1,3)] old [OF that(2,4)] wf_treeD(5) [OF wf, of j j' k a k'] show ?thesis
      by blast
  qed
  ultimately show ?thesis unfolding wf_tree_def by blast
qed

lemma follow_add_child:
  assumes wf: "wf_tree t" and ks: "follow t 0 ks = Some i" and d: "is_dir (node_entry (t ! i))"
    and b: "bare e" and new: "child t i (cfold nm) = None"
  shows "follow (add_child i nm e t) 0 qs =
    (if qs = ks @ [cfold nm] then Some (length t) else follow t 0 qs)"
proof (induction qs rule: rev_induct)
  case (snoc q qs)
  note i = follow_bound [OF wf ks]
  note c = child_add_child [OF i d b]
  show ?case
  proof (cases "qs = ks @ [cfold nm]")
    case True
    have none: "follow t 0 qs = None" using ks new by (simp add: True follow_snoc)
    have "qs @ [q] \<noteq> ks @ [cfold nm]" using True by simp
    with True snoc c [of "length t" nm q] none i show ?thesis
      by (simp add: follow_snoc del: append_assoc)
  next
    case False
    show ?thesis
    proof (cases "follow t 0 qs")
      case None
      with False snoc ks show ?thesis by (auto simp: follow_snoc)
    next
      case (Some j)
      then have "j = i \<longleftrightarrow> qs = ks" using follow_inj [OF wf ks, of qs] ks by (metis option.inject)
      moreover have "j < length t" using follow_bound [OF wf Some] .
      ultimately show ?thesis using False Some snoc c [of j nm q] by (auto simp: follow_snoc)
    qed
  qed
qed simp

section \<open>What the tree stands for\<close>

text \<open>The specification: a view maps a path of folded names to the display name and kind there.
  Making a directory path adds the directories that are missing and turns anything else on the
  way into a directory; putting a leaf makes its parents and hides all that was below it.\<close>

datatype vkind = VFile file_node | VDir | VTomb

type_synonym view = "rstr list \<Rightarrow> (rstr \<times> vkind) option"

definition is_vdir :: "(rstr \<times> vkind) option \<Rightarrow> bool" where
  "is_vdir x = (case x of Some (nm, VDir) \<Rightarrow> True | _ \<Rightarrow> False)"

fun spec_mkdirs :: "rstr list \<Rightarrow> rstr list \<Rightarrow> view \<Rightarrow> view" where
  "spec_mkdirs ds [] v = v"
| "spec_mkdirs ds (c # cs) v =
     (let ks = ds @ [cfold c] in
      spec_mkdirs ks cs (if is_vdir (v ks) then v else v(ks \<mapsto> (c, VDir))))"

definition spec_put :: "rstr list \<Rightarrow> vkind \<Rightarrow> view \<Rightarrow> view" where
  "spec_put cs k v = (\<lambda>qs.
     if qs = map cfold cs then Some (last cs, k)
     else if strict_prefix (map cfold cs) qs then None
     else spec_mkdirs [] (butlast cs) v qs)"

definition spec_entry :: "u32 \<Rightarrow> input_entry \<Rightarrow> view \<Rightarrow> build_error + view" where
  "spec_entry l e v =
     (case normalize_vpath (vpath e) of
        Inl _ \<Rightarrow> Inl BEscapesRoot
      | Inr [] \<Rightarrow> Inl BEmptyPath
      | Inr p \<Rightarrow> Inr (case ie_kind e of
          Dir \<Rightarrow> spec_mkdirs [] (comps p) v
        | Tombstone \<Rightarrow> spec_put (comps p) VTomb v
        | File \<Rightarrow> spec_put (comps p) (VFile \<lparr>fn_source = ie_source e, fn_size = ie_size e,
            fn_mtime = ie_mtime e, fn_layer = l\<rparr>) v))"

fun spec_build :: "(u32 \<times> input_entry) list \<Rightarrow> view \<Rightarrow> build_error + view" where
  "spec_build [] v = Inr v"
| "spec_build ((l, e) # es) v = rbind (spec_entry l e v) (spec_build es)"

definition flat_entries :: "layer list \<Rightarrow> (u32 \<times> input_entry) list" where
  "flat_entries ls = concat (map (\<lambda>l. map (Pair (layer_id l)) (layer_entries l)) ls)"

definition empty_view :: view where
  "empty_view = [[] \<mapsto> ([], VDir)]"

text \<open>The abstraction.\<close>

definition kind_of :: "node_entry \<Rightarrow> vkind" where
  "kind_of e = (case e of FileN f \<Rightarrow> VFile f | DirN ch \<Rightarrow> VDir | TombstoneN \<Rightarrow> VTomb)"

definition view :: "vtree \<Rightarrow> view" where
  "view t qs = map_option (\<lambda>i. (node_name (t ! i), kind_of (node_entry (t ! i)))) (follow t 0 qs)"

lemma kind_of_simps [simp]:
  "kind_of (FileN f) = VFile f" "kind_of (DirN ch) = VDir" "kind_of TombstoneN = VTomb"
  "kind_of e = VDir \<longleftrightarrow> is_dir e"
  by (auto simp: kind_of_def is_dir_def split: node_entry.splits)

lemma is_vdir_view: "is_vdir (view t ks) \<longleftrightarrow> (\<exists>i. follow t 0 ks = Some i \<and> is_dir (node_entry (t ! i)))"
  by (auto simp: is_vdir_def view_def kind_of_def is_dir_def split: option.splits node_entry.splits)

lemma follow_below_None:
  assumes "follow t i ks = None"
  shows "follow t i (ks @ rs) = None"
  using assms by (induction t i ks rule: follow.induct) (auto split: option.splits)

lemma follow_below_leaf:
  assumes "follow t i ks = Some j" and "\<not> is_dir (node_entry (t ! j))" and "rs \<noteq> []"
  shows "follow t i (ks @ rs) = None"
  using assms
  by (induction t i ks rule: follow.induct)
    (auto simp: child_def is_dir_def neq_Nil_conv split: option.splits node_entry.splits)

lemma view_replace:
  assumes wf: "wf_tree t" and ks: "follow t 0 ks = Some j" and b: "bare e"
  shows "view (t[j := \<lparr>node_name = nm, node_entry = e\<rparr>]) qs =
    (if qs = ks then Some (nm, kind_of e) else if strict_prefix ks qs then None else view t qs)"
proof -
  note f = follow_replace [OF wf ks b, of nm qs]
  have j: "j < length t" using follow_bound [OF wf ks] .
  consider "qs = ks" | "strict_prefix ks qs" | "qs \<noteq> ks" "\<not> strict_prefix ks qs" by blast
  then show ?thesis
  proof cases
    case 3
    have "i \<noteq> j" if "follow t 0 qs = Some i" for i
      using follow_inj [OF wf ks, of qs] that 3(1) by blast
    with f 3 show ?thesis by (cases "follow t 0 qs") (auto simp: view_def)
  qed (use f ks j in \<open>auto simp: view_def\<close>)
qed

lemma view_undir:
  assumes wf: "wf_tree t" and ks: "follow t 0 ks = Some j" and "\<not> is_dir (node_entry (t ! j))"
  shows "view (t[j := \<lparr>node_name = nm, node_entry = DirN []\<rparr>]) = (view t)(ks \<mapsto> (nm, VDir))"
proof
  fix qs
  have "view t qs = None" if "strict_prefix ks qs"
  proof -
    from that obtain rs where "qs = ks @ rs" "rs \<noteq> []" by (auto simp: strict_prefix_def prefix_def)
    then show ?thesis using follow_below_leaf [OF ks assms(3)] by (simp add: view_def)
  qed
  then show "view (t[j := \<lparr>node_name = nm, node_entry = DirN []\<rparr>]) qs = ((view t)(ks \<mapsto> (nm, VDir))) qs"
    using view_replace [OF wf ks, of "DirN []" nm qs] by (auto simp: bare_def)
qed

lemma view_add_child:
  assumes wf: "wf_tree t" and ks: "follow t 0 ks = Some i" and d: "is_dir (node_entry (t ! i))"
    and b: "bare e" and new: "child t i (cfold nm) = None"
  shows "view (add_child i nm e t) = (view t)(ks @ [cfold nm] \<mapsto> (nm, kind_of e))"
proof
  fix qs
  have i: "i < length t" using follow_bound [OF wf ks] .
  obtain ch where ch: "node_entry (t ! i) = DirN ch" using d by (auto simp: is_dir_iff)
  note f = follow_add_child [OF wf ks d b new, of qs]
  show "view (add_child i nm e t) qs = ((view t)(ks @ [cfold nm] \<mapsto> (nm, kind_of e))) qs"
  proof (cases "qs = ks @ [cfold nm]")
    case True
    with f i show ?thesis by (simp add: view_def nth_add_child [OF i ch])
  next
    case False
    show ?thesis
    proof (cases "follow t 0 qs")
      case (Some j)
      with follow_bound [OF wf Some] f False show ?thesis
        by (auto simp: view_def nth_add_child [OF i ch] nth_append ch)
    qed (use f False in \<open>simp add: view_def\<close>)
  qed
qed

section \<open>Refinement\<close>

lemma push_in_range:
  "length t < 2 ^ 32 \<Longrightarrow> push nm e t = (t @ [\<lparr>node_name = nm, node_entry = e\<rparr>], length t)"
  by (simp add: push_def)

lemma ensure_dirs_refines:
  assumes "wf_tree t" and "follow t 0 ds = Some cur" and "is_dir (node_entry (t ! cur))"
    and "length t + length cs \<le> 2 ^ 32" and "ensure_dirs cur cs t = (t', i)"
  shows "wf_tree t' \<and> follow t' 0 (ds @ map cfold cs) = Some i \<and> is_dir (node_entry (t' ! i)) \<and>
    view t' = spec_mkdirs ds cs (view t) \<and> length t' \<le> length t + length cs"
  using assms
proof (induction cs arbitrary: t ds cur)
  case (Cons c cs)
  note wf = Cons.prems(1) and ds = Cons.prems(2) and d = Cons.prems(3)
  have cur: "cur < length t" using follow_bound [OF wf ds] .
  let ?ks = "ds @ [cfold c]"
  show ?case
  proof (cases "child t cur (cfold c)")
    case None
    let ?t = "add_child cur c (DirN []) t"
    have b: "bare (DirN [])" by (simp add: bare_def)
    have e: "ensure_dirs (length t) cs ?t = (t', i)"
      using Cons.prems(4,5) None by (simp add: push_in_range add_child_def Let_def)
    have nv: "\<not> is_vdir (view t ?ks)" using ds None by (simp add: is_vdir_view follow_snoc)
    have f: "follow ?t 0 ?ks = Some (length t)"
      using follow_add_child [OF wf ds d b None] by simp
    obtain ch where ch: "node_entry (t ! cur) = DirN ch" using d by (auto simp: is_dir_iff)
    have "is_dir (node_entry (?t ! length t))"
      using cur by (simp add: nth_add_child [OF cur ch] is_dir_def)
    with Cons.IH [OF wf_add_child [OF wf cur d b None] f _ _ e] Cons.prems(4)
      view_add_child [OF wf ds d b None] nv
    show ?thesis by (simp add: Let_def fun_upd_def)
  next
    case (Some j)
    have j: "j < length t" "cfold (node_name (t ! j)) = cfold c" "j \<noteq> 0"
      using wf_treeD(4) [OF wf cur Some] by auto
    have f: "follow t 0 ?ks = Some j" using ds Some by (simp add: follow_snoc)
    show ?thesis
    proof (cases "is_dir (node_entry (t ! j))")
      case True
      then have "is_vdir (view t ?ks)" using f by (auto simp: is_vdir_view)
      with True Some Cons.prems Cons.IH [OF wf f True] show ?thesis by (simp add: Let_def)
    next
      case False
      let ?t = "t[j := \<lparr>node_name = c, node_entry = DirN []\<rparr>]"
      have b: "bare (DirN [])" by (simp add: bare_def)
      have e: "ensure_dirs j cs ?t = (t', i)" using Cons.prems(5) Some False by (simp add: Let_def)
      have w: "wf_tree ?t" using j by (intro wf_replace [OF wf j(1) b]) (auto simp: is_dir_def)
      have f': "follow ?t 0 ?ks = Some j" using follow_replace [OF wf f b] f by simp
      have "is_dir (node_entry (?t ! j))" using j by (simp add: is_dir_def)
      moreover have "\<not> is_vdir (view t ?ks)" using f False by (auto simp: is_vdir_view)
      ultimately show ?thesis
        using Cons.IH [OF w f' _ _ e] Cons.prems(4) view_undir [OF wf f False]
        by (simp add: Let_def fun_upd_def)
    qed
  qed
qed simp

lemma put_leaf_refines:
  assumes wf: "wf_tree t" and cs: "cs \<noteq> []" and b: "\<not> is_dir e"
    and "length t + length cs \<le> 2 ^ 32"
  shows "wf_tree (put_leaf cs e t) \<and> view (put_leaf cs e t) = spec_put cs (kind_of e) (view t) \<and>
    length (put_leaf cs e t) \<le> length t + length cs"
proof -
  obtain t1 p where tp: "ensure_dirs 0 (butlast cs) t = (t1, p)" by (cases "ensure_dirs 0 (butlast cs) t")
  let ?ps = "map cfold (butlast cs)" and ?k = "cfold (last cs)"
  have len: "Suc (length (butlast cs)) = length cs" using cs by simp
  have b': "bare e" using b by (simp add: bare_def)
  have ks: "map cfold cs = ?ps @ [?k]" using cs by (metis append_butlast_last_id list.simps(8,9) map_append)
  have r: "wf_tree t1" "follow t1 0 ?ps = Some p" "is_dir (node_entry (t1 ! p))"
    "view t1 = spec_mkdirs [] (butlast cs) (view t)" "length t1 \<le> length t + length (butlast cs)"
    using ensure_dirs_refines [OF wf, of "[]" 0 "butlast cs" t1 p] wf_treeD(2) [OF wf] assms(4) tp len by auto
  have p: "p < length t1" using follow_bound [OF r(1,2)] .
  show ?thesis
  proof (cases "child t1 p ?k")
    case None
    have f: "follow t1 0 (map cfold cs) = None" using r(2) None by (simp add: ks follow_snoc)
    have pl: "put_leaf cs e t = add_child p (last cs) e t1"
      using tp None r(5) assms(4) len
      by (simp add: put_leaf_def ensure_dir_path_def Let_def push_in_range add_child_def)
    have below: "view t1 qs = None" if "strict_prefix (map cfold cs) qs" for qs
      using that follow_below_None [OF f] by (auto simp: view_def strict_prefix_def prefix_def)
    have "view (put_leaf cs e t) = spec_put cs (kind_of e) (view t)"
      using view_add_child [OF r(1,2,3) b' None] below r(4) unfolding pl ks [symmetric]
      by (auto simp: spec_put_def fun_eq_iff)
    with pl wf_add_child [OF r(1) p r(3) b' None] r(5) len show ?thesis by simp
  next
    case (Some j)
    have j: "j < length t1" "cfold (node_name (t1 ! j)) = ?k" "j \<noteq> 0"
      using wf_treeD(4) [OF r(1) p Some] by auto
    have f: "follow t1 0 (map cfold cs) = Some j" using r(2) Some by (simp add: ks follow_snoc)
    have pl: "put_leaf cs e t = t1[j := \<lparr>node_name = last cs, node_entry = e\<rparr>]"
      using tp Some by (simp add: put_leaf_def ensure_dir_path_def Let_def)
    have "view (put_leaf cs e t) = spec_put cs (kind_of e) (view t)"
      using view_replace [OF r(1) f b', of "last cs"] r(4) unfolding pl
      by (auto simp: spec_put_def fun_eq_iff)
    moreover have "wf_tree (put_leaf cs e t)"
      unfolding pl using j by (intro wf_replace [OF r(1) j(1) b']) auto
    ultimately show ?thesis using pl r(5) len by simp
  qed
qed

text \<open>The arena never outgrows the components inserted into it.\<close>

definition entry_size :: "input_entry \<Rightarrow> nat" where
  "entry_size e = (case normalize_vpath (vpath e) of Inl _ \<Rightarrow> 0 | Inr p \<Rightarrow> length (comps p))"

definition tree_budget :: "layer list \<Rightarrow> nat" where
  "tree_budget ls = 1 + sum_list (map (entry_size \<circ> snd) (flat_entries ls))"

lemma canonical_split:
  assumes "canonical p" and "p \<noteq> []"
  shows "split_on ((=) slash) p = comps p" and "comps p \<noteq> []"
proof -
  obtain ws where ws: "list_all good_name ws" "p = join_with slash ws" "comps p = ws"
    using assms(1) by (rule canonicalE)
  with assms(2) show ne: "comps p \<noteq> []" by auto
  have "split_on ((=) slash) (join_with slash ws) = ws"
    using ws(1,3) ne by (intro split_join) (auto simp: good_name_def is_sep_def list_all_iff)
  with ws show "split_on ((=) slash) p = comps p" by metis
qed

lemma normalized_canonical: "normalize_vpath raw = Inr p \<Longrightarrow> canonical p"
  using walk_comps_good [of EscapesRoot "[]" "split_on is_sep (strip_first nt_prefixes raw)"]
    split_on_is_sep_no_sep
  by (auto simp: normalize_vpath_def rbind_eq_Inr)

lemma build_entry_refines:
  assumes wf: "wf_tree t" and "length t + entry_size e \<le> 2 ^ 32"
  shows "case spec_entry l e (view t) of
     Inl err \<Rightarrow> build_entry l e t = Inl err
   | Inr v \<Rightarrow> \<exists>t'. build_entry l e t = Inr t' \<and> wf_tree t' \<and> view t' = v \<and> length t' \<le> length t + entry_size e"
proof (cases "normalize_vpath (vpath e)")
  case (Inl err)
  then show ?thesis by (simp add: spec_entry_def build_entry_def)
next
  case (Inr p)
  show ?thesis
  proof (cases p)
    case Nil
    with Inr show ?thesis by (simp add: spec_entry_def build_entry_def)
  next
    case (Cons c cs)
    then have "p \<noteq> []" by simp
    have cp: "split_on ((=) slash) p = comps p" "comps p \<noteq> []"
      using canonical_split [OF normalized_canonical [OF Inr]] Cons by auto
    have size: "entry_size e = length (comps p)" using Inr by (simp add: entry_size_def)
    obtain t' i where t': "ensure_dirs 0 (comps p) t = (t', i)" by (cases "ensure_dirs 0 (comps p) t")
    have root: "is_dir (node_entry (t ! 0))" using wf_treeD(2) [OF wf] .
    note put = put_leaf_refines [OF wf cp(2)]
    have sp: "spec_entry l e (view t) = Inr (case ie_kind e of
          Dir \<Rightarrow> spec_mkdirs [] (comps p) (view t)
        | Tombstone \<Rightarrow> spec_put (comps p) VTomb (view t)
        | File \<Rightarrow> spec_put (comps p) (VFile \<lparr>fn_source = ie_source e, fn_size = ie_size e,
            fn_mtime = ie_mtime e, fn_layer = l\<rparr>) (view t))"
      using Inr unfolding Cons by (simp add: spec_entry_def)
    have bu: "build_entry l e t = Inr (case ie_kind e of
          Tombstone \<Rightarrow> insert_tombstone (comps p) t
        | Dir \<Rightarrow> fst (ensure_dir_path (comps p) t)
        | File \<Rightarrow> insert_file (comps p) e l t)"
      using Inr cp(1) \<open>p \<noteq> []\<close> by (simp add: build_entry_def Let_def)
    have nd: "\<not> is_dir TombstoneN" "\<not> is_dir (FileN f)" for f by (simp_all add: is_dir_def)
    show ?thesis
      using put [OF nd(1)] put [OF nd(2)] ensure_dirs_refines [OF wf _ root, of "[]" "comps p" t' i] t' assms(2)
      unfolding sp bu size
      by (cases "ie_kind e") (simp_all add: insert_file_def insert_tombstone_def ensure_dir_path_def)
  qed
qed

lemma build_entries_refines:
  assumes "wf_tree t" and "length t + sum_list (map entry_size es) \<le> 2 ^ 32"
  shows "case spec_build (map (Pair l) es) (view t) of
     Inl err \<Rightarrow> build_entries l es t = Inl err
   | Inr v \<Rightarrow> \<exists>t'. build_entries l es t = Inr t' \<and> wf_tree t' \<and> view t' = v \<and>
       length t' \<le> length t + sum_list (map entry_size es)"
  using assms
proof (induction es arbitrary: t)
  case (Cons e es)
  show ?case
  proof (cases "spec_entry l e (view t)")
    case (Inl err)
    then show ?thesis using build_entry_refines [OF Cons.prems(1), of e l] Cons.prems(2) by simp
  next
    case (Inr v)
    then obtain t1 where "build_entry l e t = Inr t1" "wf_tree t1" "view t1 = v" "length t1 \<le> length t + entry_size e"
      using build_entry_refines [OF Cons.prems(1), of e l] Cons.prems(2) by auto
    with Inr Cons.IH [of t1] Cons.prems(2) show ?thesis
      by (auto split: sum.splits)
  qed
qed simp

lemma spec_build_append: "spec_build (es @ fs) v = rbind (spec_build es v) (spec_build fs)"
  by (induction es v rule: spec_build.induct) (auto simp: rbind_def split: sum.splits)

lemma build_layers_refines:
  assumes "wf_tree t" and "length t + sum_list (map (entry_size \<circ> snd) (flat_entries ls)) \<le> 2 ^ 32"
  shows "case spec_build (flat_entries ls) (view t) of
     Inl err \<Rightarrow> build_layers ls t = Inl err
   | Inr v \<Rightarrow> \<exists>t'. build_layers ls t = Inr t' \<and> wf_tree t' \<and> view t' = v"
  using assms
proof (induction ls arbitrary: t)
  case (Cons l ls)
  let ?es = "layer_entries l"
  have fe: "flat_entries (l # ls) = map (Pair (layer_id l)) ?es @ flat_entries ls"
    by (simp add: flat_entries_def)
  have sz: "length t + sum_list (map entry_size ?es) \<le> 2 ^ 32"
    using Cons.prems(2) by (simp add: fe comp_def)
  note be = build_entries_refines [OF Cons.prems(1) sz, of "layer_id l"]
  show ?case
  proof (cases "spec_build (map (Pair (layer_id l)) ?es) (view t)")
    case (Inl err)
    with be show ?thesis by (simp add: fe spec_build_append)
  next
    case (Inr v)
    with be obtain t1 where "build_entries (layer_id l) ?es t = Inr t1" "wf_tree t1" "view t1 = v"
      "length t1 \<le> length t + sum_list (map entry_size ?es)" by auto
    with Inr Cons.IH [of t1] Cons.prems(2) show ?thesis
      by (auto simp: fe spec_build_append comp_def split: sum.splits)
  qed
qed (simp add: flat_entries_def)

lemma empty_tree_wf: "wf_tree empty_tree" "view empty_tree = empty_view"
proof -
  show "wf_tree empty_tree"
    by (simp add: wf_tree_def empty_tree_def is_dir_def child_def)
  show "view empty_tree = empty_view"
  proof
    fix qs
    show "view empty_tree qs = empty_view qs"
      by (cases qs) (auto simp: view_def empty_tree_def empty_view_def child_def)
  qed
qed

subsection \<open>Reading\<close>

lemma find_node_follow:
  assumes "normalize_vpath raw = Inr p"
  shows "find_node t p = follow t 0 (map cfold (comps p))"
  using canonical_split(1) [OF normalized_canonical [OF assms]]
  by (simp add: find_node_def find_from_follow)

lemma child_in: "wf_tree t \<Longrightarrow> i < length t \<Longrightarrow> node_entry (t ! i) = DirN ch \<Longrightarrow>
    (k, c) \<in> set ch \<longleftrightarrow> child t i k = Some c"
  using wf_treeD(3) by (auto simp: child_def in_set_map_of)

definition entry_of :: "rstr \<Rightarrow> vkind \<Rightarrow> tree_entry" where
  "entry_of nm k = (case k of
     VDir \<Rightarrow> \<lparr>te_name = nm, te_kind = Dir, te_size = 0, te_mtime = 0\<rparr>
   | VFile f \<Rightarrow> \<lparr>te_name = nm, te_kind = File, te_size = fn_size f, te_mtime = fn_mtime f\<rparr>
   | VTomb \<Rightarrow> \<lparr>te_name = nm, te_kind = Tombstone, te_size = 0, te_mtime = 0\<rparr>)"

lemma tree_entry_of_eq: "tree_entry_of n = entry_of (node_name n) (kind_of (node_entry n))"
  by (simp add: tree_entry_of_def entry_of_def split: node_entry.splits)

lemma te_name_entry_of [simp]: "te_name (entry_of nm k) = nm"
  by (simp add: entry_of_def split: vkind.splits)

lemma sort_key_sorted_id: "sorted (map f xs) \<Longrightarrow> sort_key f xs = xs"
  by (induction xs) (simp_all add: insort_is_Cons)

lemma dir_children_keys:
  assumes wf: "wf_tree t" and i: "i < length t" and ch: "node_entry (t ! i) = DirN ch"
  shows "map (\<lambda>e. cfold (te_name e)) (map (\<lambda>(k, c). tree_entry_of (t ! c)) ch) = map fst ch"
proof -
  have "cfold (te_name (tree_entry_of (t ! c))) = k" if "(k, c) \<in> set ch" for k c
    using wf_treeD(4) [OF wf i] that child_in [OF wf i ch] by (auto simp: tree_entry_of_eq)
  then show ?thesis by (auto simp: comp_def)
qed

lemma entry_of_filter:
  "{x \<in> {entry_of nm k |nm k. Q nm k}.
      case flt of Some pat \<Rightarrow> wildcard_match pat (te_name x) | None \<Rightarrow> True} =
   {entry_of nm k |nm k. Q nm k \<and> (case flt of Some pat \<Rightarrow> wildcard_match pat nm | None \<Rightarrow> True)}"
proof (cases flt)
  case (Some pat)
  have "x \<in> {entry_of nm k |nm k. Q nm k} \<and> wildcard_match pat (te_name x) \<longleftrightarrow>
      (\<exists>nm k. x = entry_of nm k \<and> Q nm k \<and> wildcard_match pat nm)" for x
    by auto blast
  with Some show ?thesis by auto
qed simp

section \<open>Properties\<close>

text \<open>C13. Building the merged tree from layers gives the tree that the view specification
  describes, entry by entry from the lowest layer to the highest, and fails exactly where it
  fails, with the same error. The arena's 32-bit indices do not wrap while the layers hold fewer
  than \<open>2 ^ 32\<close> path components.\<close>

theorem build_refines:
  assumes "tree_budget layers \<le> 2 ^ 32"
  shows "case spec_build (flat_entries layers) empty_view of
     Inl err \<Rightarrow> build layers = Inl err
   | Inr v \<Rightarrow> \<exists>t. build layers = Inr t \<and> wf_tree t \<and> view t = v"
proof -
  have "length empty_tree = 1" by (simp add: empty_tree_def)
  with build_layers_refines [OF empty_tree_wf(1), of layers] assms show ?thesis
    unfolding build_def by (simp add: tree_budget_def empty_tree_wf(2))
qed

theorem build_refines_witness:
  "case spec_build (flat_entries [\<lparr>layer_id = 1, layer_entries =
        [\<lparr>vpath = [65, 47, 98], ie_kind = File, ie_source = [], ie_size = 5, ie_mtime = 0\<rparr>]\<rparr>]) empty_view of
     Inl err \<Rightarrow> False
   | Inr v \<Rightarrow> \<exists>t. build [\<lparr>layer_id = 1, layer_entries =
        [\<lparr>vpath = [65, 47, 98], ie_kind = File, ie_source = [], ie_size = 5, ie_mtime = 0\<rparr>]\<rparr>] = Inr t \<and> view t = v"
proof -
  have n: "normalize_vpath [65, 47, 98] = Inr [65, 47, 98]" by code_simp
  have c: "comps [65, 47, 98] = [[65], [98]]" by code_simp
  have "tree_budget [\<lparr>layer_id = 1, layer_entries =
        [\<lparr>vpath = [65, 47, 98], ie_kind = File, ie_source = [], ie_size = 5, ie_mtime = 0\<rparr>]\<rparr>] \<le> 2 ^ 32"
    by (simp add: tree_budget_def flat_entries_def entry_size_def n c)
  from build_refines [OF this] show ?thesis
    by (auto simp: flat_entries_def spec_entry_def n split: sum.splits)
qed

text \<open>C14. A query answers from the view at the folded components of its normalised path, so
  spelling, separators and long-path prefixes do not matter; a path that escapes the root is
  not found, and a tombstone has no attributes.\<close>

theorem resolve_getattr_spec:
  "resolve hash t p = (case normalize_vpath p of
     Inl _ \<Rightarrow> RNotFound
   | Inr q \<Rightarrow> (case view t (map cfold (comps q)) of
       None \<Rightarrow> RNotFound
     | Some (nm, VDir) \<Rightarrow> RDir
     | Some (nm, VTomb) \<Rightarrow> RTombstone
     | Some (nm, VFile f) \<Rightarrow> RFile (fn_source f) (fn_size f) (fn_mtime f) (fn_layer f)
         (compute_cache_key hash (fn_source f) (fn_size f) (fn_mtime f)))) \<and>
   getattr t p = (case normalize_vpath p of
     Inl _ \<Rightarrow> None
   | Inr q \<Rightarrow> (case view t (map cfold (comps q)) of
       None \<Rightarrow> None
     | Some (nm, VDir) \<Rightarrow> Some \<lparr>ts_kind = Dir, ts_size = 0, ts_mtime = 0\<rparr>
     | Some (nm, VTomb) \<Rightarrow> None
     | Some (nm, VFile f) \<Rightarrow> Some \<lparr>ts_kind = File, ts_size = fn_size f, ts_mtime = fn_mtime f\<rparr>))"
proof (cases "normalize_vpath p")
  case (Inr q)
  show ?thesis
    by (cases "follow t 0 (map cfold (comps q))")
      (auto simp: resolve_def getattr_def view_def Inr find_node_follow [OF Inr] split: node_entry.splits)
qed (simp add: resolve_def getattr_def)

text \<open>C15. A listing of a well-formed tree holds exactly the children of the directory that pass
  the filter, tombstones included, with strictly increasing folded names, so no two of them
  differ in case only.\<close>

theorem readdir_spec:
  assumes wf: "wf_tree t" and n: "normalize_vpath p = Inr q" and "readdir t p flt = Inr es"
  shows "sorted_wrt (<) (map (\<lambda>e. cfold (te_name e)) es) \<and>
    set es = {entry_of nm k |nm k. view t (map cfold (comps q) @ [cfold nm]) = Some (nm, k) \<and>
      (case flt of Some pat \<Rightarrow> wildcard_match pat nm | None \<Rightarrow> True)}"
proof -
  let ?ks = "map cfold (comps q)" and ?key = "\<lambda>e. cfold (te_name e)"
  let ?P = "\<lambda>e. case flt of Some pat \<Rightarrow> wildcard_match pat (te_name e) | None \<Rightarrow> True"
  obtain i ch where f: "follow t 0 ?ks = Some i" and ch: "node_entry (t ! i) = DirN ch"
    and es: "es = sort_key ?key (filter ?P (map (\<lambda>(k, c). tree_entry_of (t ! c)) ch))"
    using assms(3) by (auto simp: readdir_def n find_node_follow [OF n] split: option.splits node_entry.splits)
  have i: "i < length t" using follow_bound [OF wf f] .
  let ?xs = "map (\<lambda>(k, c). tree_entry_of (t ! c)) ch"
  have s: "sorted_wrt (<) (map ?key (filter ?P xs))" if "sorted_wrt (<) (map ?key xs)" for xs
    using that by (simp only: sorted_wrt_map) (rule sorted_wrt_filter)
  have "sorted_wrt (<) (map ?key ?xs)"
    using dir_children_keys [OF wf i ch] wf_treeD(3) [OF wf i ch] by (simp only: ordered_def)
  note s = s [OF this]
  then have e: "es = filter ?P ?xs"
    unfolding es by (intro sort_key_sorted_id) (simp add: strict_sorted_iff)
  have mem: "x \<in> set ?xs \<longleftrightarrow> (\<exists>k c. child t i k = Some c \<and> x = tree_entry_of (t ! c))" for x
    unfolding child_in [OF wf i ch, symmetric] by force
  have v: "view t (?ks @ [k]) = (case child t i k of None \<Rightarrow> None
      | Some c \<Rightarrow> Some (node_name (t ! c), kind_of (node_entry (t ! c))))" for k
    using f by (simp add: view_def follow_snoc split: option.splits)
  have "x \<in> set ?xs \<longleftrightarrow> x \<in> {entry_of nm k |nm k. view t (?ks @ [cfold nm]) = Some (nm, k)}" for x
  proof
    assume "x \<in> set ?xs"
    then obtain k c where c: "child t i k = Some c" "x = tree_entry_of (t ! c)" unfolding mem by blast
    with wf_treeD(4) [OF wf i c(1)] v [of k] show "x \<in> {entry_of nm k |nm k. view t (?ks @ [cfold nm]) = Some (nm, k)}"
      by (auto simp: tree_entry_of_eq)
  next
    assume "x \<in> {entry_of nm k |nm k. view t (?ks @ [cfold nm]) = Some (nm, k)}"
    then show "x \<in> set ?xs" unfolding mem by (auto simp: v tree_entry_of_eq split: option.splits)
  qed
  then have "set ?xs = {entry_of nm k |nm k. view t (?ks @ [cfold nm]) = Some (nm, k)}" by (intro set_eqI)
  then have "set es = {x \<in> {entry_of nm k |nm k. view t (?ks @ [cfold nm]) = Some (nm, k)}. ?P x}"
    unfolding e set_filter by (simp only:)
  also have "\<dots> = {entry_of nm k |nm k. view t (?ks @ [cfold nm]) = Some (nm, k) \<and>
      (case flt of Some pat \<Rightarrow> wildcard_match pat nm | None \<Rightarrow> True)}"
    by (rule entry_of_filter)
  finally have "set es = {entry_of nm k |nm k. view t (?ks @ [cfold nm]) = Some (nm, k) \<and>
      (case flt of Some pat \<Rightarrow> wildcard_match pat nm | None \<Rightarrow> True)}" .
  moreover have "sorted_wrt (<) (map ?key es)" unfolding e by (rule s)
  ultimately show ?thesis by (intro conjI)
qed

subsection \<open>One entry\<close>

lemma spec_mkdirs_other:
  "(\<And>n. 0 < n \<Longrightarrow> n \<le> length cs \<Longrightarrow> qs \<noteq> ds @ map cfold (take n cs)) \<Longrightarrow> spec_mkdirs ds cs v qs = v qs"
proof (induction ds cs v rule: spec_mkdirs.induct)
  case (2 ds c cs v)
  have "qs \<noteq> ds @ [cfold c]" using "2.prems" [of 1] by simp
  moreover have "qs \<noteq> (ds @ [cfold c]) @ map cfold (take n cs)" if "n \<le> length cs" for n
    using "2.prems" [of "Suc n"] that by simp
  ultimately show ?case using "2.IH" by (simp add: Let_def)
qed simp

lemma spec_mkdirs_at:
  "0 < n \<Longrightarrow> n \<le> length cs \<Longrightarrow> qs = ds @ map cfold (take n cs) \<Longrightarrow>
   spec_mkdirs ds cs v qs = (if is_vdir (v qs) then v qs else Some (cs ! (n - 1), VDir))"
proof (induction ds cs v arbitrary: n rule: spec_mkdirs.induct)
  case (2 ds c cs v)
  let ?ks = "ds @ [cfold c]" and ?v = "if is_vdir (v (ds @ [cfold c])) then v else v(ds @ [cfold c] \<mapsto> (c, VDir))"
  show ?case
  proof (cases "n = 1")
    case True
    with "2.prems" have qs: "qs = ?ks" by simp
    have "spec_mkdirs ?ks cs ?v qs = ?v qs" by (rule spec_mkdirs_other) (auto simp: qs)
    with True qs show ?thesis by (simp add: Let_def)
  next
    case False
    then obtain m where m: "n = Suc m" "0 < m" "m \<le> length cs" "qs = ?ks @ map cfold (take m cs)"
      using "2.prems" by (cases n) auto
    then have "?v qs = v qs" by auto
    with m "2.IH" [OF refl m(2,3,4)] show ?thesis by (simp add: Let_def nth_Cons')
  qed
qed simp

lemma strict_prefix_take: "strict_prefix qs ks \<Longrightarrow> qs = take (length qs) ks \<and> length qs < length ks"
  by (auto simp: strict_prefix_def prefix_def)

lemma spec_mkdirs_eq:
  assumes "is_vdir (v [])"
  shows "spec_mkdirs [] cs v qs =
    (if prefix qs (map cfold cs) \<and> \<not> is_vdir (v qs) then Some (cs ! (length qs - 1), VDir) else v qs)"
proof (cases "prefix qs (map cfold cs) \<and> qs \<noteq> []")
  case True
  then have "qs = take (length qs) (map cfold cs)" "length qs \<le> length cs"
    by (auto simp: prefix_def)
      (metis append_eq_conv_conj length_append length_map le_add1)
  with True show ?thesis
    using spec_mkdirs_at [of "length qs" cs qs "[]" v] by (auto simp: take_map)
next
  case False
  have "spec_mkdirs [] cs v qs = v qs"
  proof (rule spec_mkdirs_other)
    fix n :: nat assume "0 < n" "n \<le> length cs"
    then show "qs \<noteq> [] @ map cfold (take n cs)"
      using False take_is_prefix [of n "map cfold cs"] by (auto simp: take_map)
  qed
  with False assms show ?thesis by auto
qed

lemma butlast_prefix:
  "cs \<noteq> [] \<Longrightarrow> prefix qs (map cfold (butlast cs)) \<longleftrightarrow> strict_prefix qs (map cfold cs)"
  using strict_prefix_snoc [of qs "map cfold (butlast cs)" "cfold (last cs)"]
  by (metis append_butlast_last_id list.simps(8,9) map_append prefix_order.le_less)

text \<open>What one entry does to a well-formed tree. Its own path gets its display name and kind,
  except that a directory entry keeps a directory that is there. Every proper prefix becomes a
  directory, keeping the name of one that was. A file or tombstone hides all that was below it.
  No other path changes.\<close>

theorem build_entry_effect:
  assumes wf: "wf_tree t" and size: "length t + entry_size e \<le> 2 ^ 32"
    and n: "normalize_vpath (vpath e) = Inr p" and "p \<noteq> []" and ks: "ks = map cfold (comps p)"
  shows "\<exists>t'. build_entry l e t = Inr t' \<and> wf_tree t' \<and> (\<forall>qs. view t' qs =
    (if qs = ks \<and> ie_kind e \<noteq> Dir then
       Some (last (comps p), if ie_kind e = Tombstone then VTomb else
         VFile \<lparr>fn_source = ie_source e, fn_size = ie_size e, fn_mtime = ie_mtime e, fn_layer = l\<rparr>)
     else if strict_prefix ks qs \<and> ie_kind e \<noteq> Dir then None
     else if prefix qs ks \<and> \<not> is_vdir (view t qs) then Some (comps p ! (length qs - 1), VDir)
     else view t qs))"
proof -
  have cs: "comps p \<noteq> []" using canonical_split(2) [OF normalized_canonical [OF n] assms(4)] .
  have root: "is_vdir (view t [])" using wf_treeD(2) [OF wf] by (simp add: is_vdir_view)
  obtain v where v: "spec_entry l e (view t) = Inr v"
    using n assms(4) by (cases p) (auto simp: spec_entry_def)
  with build_entry_refines [OF wf size, of l] obtain t' where t': "build_entry l e t = Inr t'" "wf_tree t'" "view t' = v"
    by auto
  have nth: "butlast (comps p) ! (length qs - 1) = comps p ! (length qs - 1)" if "strict_prefix qs ks" "qs \<noteq> []" for qs
    using strict_prefix_take [OF that(1)] ks that(2) by (intro nth_butlast) (cases qs; auto)
  have se: "spec_entry l e (view t) = Inr (case ie_kind e of
          Dir \<Rightarrow> spec_mkdirs [] (comps p) (view t)
        | Tombstone \<Rightarrow> spec_put (comps p) VTomb (view t)
        | File \<Rightarrow> spec_put (comps p) (VFile \<lparr>fn_source = ie_source e, fn_size = ie_size e,
            fn_mtime = ie_mtime e, fn_layer = l\<rparr>) (view t))"
    using n assms(4) by (auto simp: spec_entry_def split: list.split)
  have "v qs = (if qs = ks \<and> ie_kind e \<noteq> Dir then
       Some (last (comps p), if ie_kind e = Tombstone then VTomb else
         VFile \<lparr>fn_source = ie_source e, fn_size = ie_size e, fn_mtime = ie_mtime e, fn_layer = l\<rparr>)
     else if strict_prefix ks qs \<and> ie_kind e \<noteq> Dir then None
     else if prefix qs ks \<and> \<not> is_vdir (view t qs) then Some (comps p ! (length qs - 1), VDir)
     else view t qs)" for qs
  proof -
    have md: "spec_mkdirs [] (butlast (comps p)) (view t) qs =
        (if strict_prefix qs ks \<and> \<not> is_vdir (view t qs) then Some (comps p ! (length qs - 1), VDir) else view t qs)"
      using nth [of qs] root
      by (cases "qs = []") (auto simp: spec_mkdirs_eq [of "view t", OF root] butlast_prefix [OF cs] ks)
    have pk: "prefix qs ks \<longleftrightarrow> qs = ks \<or> strict_prefix qs ks" by (auto simp: strict_prefix_def)
    show ?thesis
      using v unfolding se
      by (cases "ie_kind e")
        (auto simp: spec_put_def md ks [symmetric] pk spec_mkdirs_eq [of "view t" "comps p", OF root])
  qed
  with t' show ?thesis by blast
qed

lemma view_empty: "view empty_tree qs = (if qs = [] then Some ([], VDir) else None)"
  by (simp add: empty_tree_wf(2) empty_view_def)

theorem build_entry_effect_witness:
  "\<exists>t'. build_entry 7 \<lparr>vpath = [65, 47, 98], ie_kind = Tombstone, ie_source = [], ie_size = 0, ie_mtime = 0\<rparr> empty_tree = Inr t' \<and>
     view t' [[97], [98]] = Some ([98], VTomb) \<and> view t' [[97]] = Some ([65], VDir)"
proof -
  let ?e = "\<lparr>vpath = [65, 47, 98], ie_kind = Tombstone, ie_source = [], ie_size = 0, ie_mtime = 0\<rparr>"
  have n: "normalize_vpath (vpath ?e) = Inr [65, 47, 98]" by code_simp
  have c: "comps [65, 47, 98] = [[65], [98]]" by code_simp
  have k: "[[97], [98]] = map cfold (comps [65, 47, 98])"
    by (simp add: c to_lowercase_ascii to_ascii_lowercase_def)
  have len: "length empty_tree + entry_size ?e \<le> 2 ^ 32"
    using n c by (simp add: empty_tree_def entry_size_def)
  from build_entry_effect [OF empty_tree_wf(1) len n _ k, of 7] show ?thesis
    by (auto simp: c view_empty is_vdir_def)
qed

theorem readdir_spec_witness:
  "set [entry_of [65] VDir] = {entry_of nm k |nm k.
     view [\<lparr>node_name = [], node_entry = DirN [([97], 1)]\<rparr>, \<lparr>node_name = [65], node_entry = DirN []\<rparr>]
       ([] @ [cfold nm]) = Some (nm, k)}"
proof -
  let ?t = "[\<lparr>node_name = [], node_entry = DirN [([97], 1)]\<rparr>, \<lparr>node_name = [65], node_entry = DirN []\<rparr>]"
  have wf: "wf_tree ?t"
    by (auto simp: wf_tree_def is_dir_def child_def less_Suc_eq nth_Cons' ordered_def
        to_lowercase_ascii to_ascii_lowercase_def split: if_splits)
  have n: "normalize_vpath [] = Inr []" by code_simp
  have "readdir ?t [] None = Inr [entry_of [65] VDir]"
    by (simp add: readdir_def n find_node_def tree_entry_of_eq)
  from readdir_spec [OF wf n this] show ?thesis by simp
qed

subsection \<open>The post-order walk\<close>

definition reach :: "vtree \<Rightarrow> nat \<Rightarrow> nat set" where
  "reach t i = {c. \<exists>ks. follow t i ks = Some c}"

definition postorder :: "walk_node list \<Rightarrow> bool" where
  "postorder vs \<longleftrightarrow> (\<forall>a<length vs. \<forall>c\<in>snd ` set (wn_children (vs ! a)). \<exists>b<a. wn_id (vs ! b) = c)"

lemma postorderD:
  "postorder vs \<Longrightarrow> a < length vs \<Longrightarrow> c \<in> snd ` set (wn_children (vs ! a)) \<Longrightarrow> \<exists>b<a. wn_id (vs ! b) = c"
  unfolding postorder_def by blast

lemma postorder_append:
  assumes "postorder vs" and "postorder ws"
  shows "postorder (vs @ ws)"
  unfolding postorder_def
proof (intro allI impI ballI)
  fix a c assume a: "a < length (vs @ ws)" and c: "c \<in> snd ` set (wn_children ((vs @ ws) ! a))"
  show "\<exists>b<a. wn_id ((vs @ ws) ! b) = c"
  proof (cases "a < length vs")
    case True
    with c have "c \<in> snd ` set (wn_children (vs ! a))" by (simp add: nth_append)
    from postorderD [OF assms(1) True this] obtain b where "b < a" "wn_id (vs ! b) = c" by blast
    with True show ?thesis by (intro exI [of _ b]) (simp add: nth_append)
  next
    case False
    with c have "c \<in> snd ` set (wn_children (ws ! (a - length vs)))" by (simp add: nth_append)
    moreover have "a - length vs < length ws" using a False by simp
    ultimately obtain b where "b < a - length vs" "wn_id (ws ! b) = c"
      using postorderD [OF assms(2)] by blast
    with False show ?thesis by (intro exI [of _ "length vs + b"]) (simp add: nth_append)
  qed
qed

lemma postorder_snoc:
  assumes "postorder vs" and "snd ` set (wn_children v) \<subseteq> wn_id ` set vs"
  shows "postorder (vs @ [v])"
  unfolding postorder_def
proof (intro allI impI ballI)
  fix a c assume a: "a < length (vs @ [v])" and c: "c \<in> snd ` set (wn_children ((vs @ [v]) ! a))"
  show "\<exists>b<a. wn_id ((vs @ [v]) ! b) = c"
  proof (cases "a < length vs")
    case True
    with c have "c \<in> snd ` set (wn_children (vs ! a))" by (simp add: nth_append)
    from postorderD [OF assms(1) True this] obtain b where "b < a" "wn_id (vs ! b) = c" by blast
    with True show ?thesis by (intro exI [of _ b]) (simp add: nth_append)
  next
    case False
    with a have al: "a = length vs" by simp
    with c assms(2) have "c \<in> wn_id ` set vs" by auto
    then obtain b where "b < length vs" "wn_id (vs ! b) = c" by (auto simp: in_set_conv_nth)
    with al show ?thesis by (intro exI [of _ b]) (simp add: nth_append)
  qed
qed

text \<open>What a walk over a set of nodes returns.\<close>

definition visits :: "nat set \<Rightarrow> walk_node list option \<Rightarrow> bool" where
  "visits A r \<longleftrightarrow> (\<exists>vs. r = Some vs \<and> wn_id ` set vs = A \<and> distinct (map wn_id vs) \<and> postorder vs)"

lemma visits_append:
  "visits A (Some vs) \<Longrightarrow> visits B (Some ws) \<Longrightarrow> A \<inter> B = {} \<Longrightarrow> visits (A \<union> B) (Some (vs @ ws))"
  by (auto simp: visits_def postorder_append)

lemma walk_children_visits:
  assumes "\<And>k c. (k, c) \<in> set ch \<Longrightarrow> visits (reach t c) (walk_from n t c k)"
    and "distinct (map snd ch)"
    and "\<And>c d. c \<in> snd ` set ch \<Longrightarrow> d \<in> snd ` set ch \<Longrightarrow> c \<noteq> d \<Longrightarrow> reach t c \<inter> reach t d = {}"
  shows "visits (\<Union>c\<in>snd ` set ch. reach t c) (walk_children n t ch)"
  using assms
proof (induction ch)
  case (Cons kc ch)
  obtain k c where kc: "kc = (k, c)" by (cases kc)
  have 1: "visits (\<Union>c\<in>snd ` set ch. reach t c) (walk_children n t ch)"
    using Cons.prems by (intro Cons.IH) (auto simp: kc)
  have 2: "visits (reach t c) (walk_from n t c k)" using Cons.prems(1) by (simp add: kc)
  have 3: "reach t c \<inter> (\<Union>c\<in>snd ` set ch. reach t c) = {}"
  proof -
    have "reach t c \<inter> reach t d = {}" if "d \<in> snd ` set ch" for d
      using Cons.prems(2) that by (intro Cons.prems(3)) (auto simp: kc)
    then show ?thesis by blast
  qed
  from 1 2 obtain vs ws where "walk_from n t c k = Some vs" "walk_children n t ch = Some ws"
    by (auto simp: visits_def)
  with visits_append [of "reach t c" vs "\<Union>c\<in>snd ` set ch. reach t c" ws] 1 2 3 show ?case
    by (simp add: kc)
qed (simp add: visits_def postorder_def)

lemma reach_leaf: "\<not> is_dir (node_entry (t ! i)) \<Longrightarrow> reach t i = {i}"
proof -
  assume "\<not> is_dir (node_entry (t ! i))"
  then have "child t i k = None" for k by (simp add: child_def is_dir_def split: node_entry.splits)
  then have "follow t i ks = Some c \<longleftrightarrow> ks = [] \<and> c = i" for ks c by (cases ks) auto
  then show ?thesis by (auto simp: reach_def)
qed

lemma reach_dir:
  assumes "\<And>k c. (k, c) \<in> set ch \<longleftrightarrow> child t i k = Some c"
  shows "reach t i = insert i (\<Union>c\<in>snd ` set ch. reach t c)"
proof -
  have "(\<exists>ks. follow t i ks = Some x) \<longleftrightarrow> x = i \<or> (\<exists>k c ks. child t i k = Some c \<and> follow t c ks = Some x)" for x
  proof
    assume "\<exists>ks. follow t i ks = Some x"
    then obtain ks where "follow t i ks = Some x" ..
    then show "x = i \<or> (\<exists>k c ks. child t i k = Some c \<and> follow t c ks = Some x)"
      by (cases ks) (auto split: option.splits)
  next
    assume "x = i \<or> (\<exists>k c ks. child t i k = Some c \<and> follow t c ks = Some x)"
    then show "\<exists>ks. follow t i ks = Some x"
    proof
      assume "x = i"
      then show ?thesis by (intro exI [of _ "[]"]) simp
    next
      assume "\<exists>k c ks. child t i k = Some c \<and> follow t c ks = Some x"
      then obtain k c ks where "child t i k = Some c" "follow t c ks = Some x" by blast
      then show ?thesis by (intro exI [of _ "k # ks"]) simp
    qed
  qed
  moreover have "x \<in> (\<Union>c\<in>snd ` set ch. reach t c) \<longleftrightarrow>
      (\<exists>k c ks. child t i k = Some c \<and> follow t c ks = Some x)" for x
    unfolding assms [symmetric] reach_def by force
  ultimately show ?thesis by (intro set_eqI) (simp only: reach_def [of t i] mem_Collect_eq insert_iff)
qed

lemma children_disjoint:
  assumes wf: "wf_tree t" and i: "i < length t" and "child t i k = Some c" and "child t i k' = Some d" and "c \<noteq> d"
  shows "reach t c \<inter> reach t d = {}"
proof -
  have False if "follow t c ks = Some x" "follow t d qs = Some x" for ks qs x
  proof -
    have "k # ks = k' # qs"
      using that assms(3,4) by (intro follow_from_inj [OF wf i, of _ x]) simp_all
    with assms(3-5) show False by simp
  qed
  then show ?thesis by (auto simp: reach_def)
qed

lemma walk_from_visits:
  assumes wf: "wf_tree t"
  shows "i < length t \<Longrightarrow> length t - i \<le> n \<Longrightarrow> visits (reach t i) (walk_from n t i f)"
proof (induction n arbitrary: i f)
  case (Suc n)
  note i = Suc.prems(1)
  show ?case
  proof (cases "node_entry (t ! i)")
    case (DirN ch)
    note ci = child_in [OF wf i DirN]
    have sub: "i < c" "c < length t" if "(k, c) \<in> set ch" for k c
      using wf_treeD(4) [OF wf i] that ci by blast+
    have d: "distinct (map fst ch)" using wf_treeD(3) [OF wf i DirN] by (rule ordered_distinct)
    have inj: "k = k'" if "(k, c) \<in> set ch" "(k', c) \<in> set ch" for k k' c
      using wf_treeD(5) [OF wf i i] that ci by blast
    have ds: "distinct (map snd ch)"
      using d inj by (induction ch) (auto, metis fst_conv image_eqI)
    have "visits (\<Union>c\<in>snd ` set ch. reach t c) (walk_children n t ch)"
    proof (rule walk_children_visits [OF _ ds])
      fix k c assume "(k, c) \<in> set ch"
      with sub Suc.prems(2) show "visits (reach t c) (walk_from n t c k)"
        by (intro Suc.IH) fastforce+
    next
      fix c d assume "c \<in> snd ` set ch" "d \<in> snd ` set ch" "c \<noteq> d"
      then show "reach t c \<inter> reach t d = {}"
        using children_disjoint [OF wf i] ci by fastforce
    qed
    then obtain vs where vs: "walk_children n t ch = Some vs" "wn_id ` set vs = (\<Union>c\<in>snd ` set ch. reach t c)"
      "distinct (map wn_id vs)" "postorder vs" by (auto simp: visits_def)
    have "i \<notin> reach t c" if "(k, c) \<in> set ch" for k c
      using follow_from_bound [OF wf] sub [OF that] by (fastforce simp: reach_def)
    then have new: "i \<notin> wn_id ` set vs" unfolding vs(2) by fastforce
    have "c \<in> reach t c" for c unfolding reach_def by (intro CollectI exI [of _ "[]"]) simp
    then have kids: "snd ` set ch \<subseteq> wn_id ` set vs" unfolding vs(2) by blast
    let ?v = "\<lparr>wn_id = i, wn_display = node_name (t ! i), wn_folded = f, wn_entry = DirN ch, wn_children = ch\<rparr>"
    have "walk_from (Suc n) t i f = Some (vs @ [?v])"
      using DirN vs(1) by (simp add: Let_def)
    moreover have "postorder (vs @ [?v])" using postorder_snoc [OF vs(4), of ?v] kids by simp
    ultimately show ?thesis
      using reach_dir [of ch t i, OF ci] vs(2,3) new by (simp add: visits_def)
  qed (simp_all add: visits_def Let_def reach_leaf is_dir_def postorder_def)
qed simp

text \<open>C16. The post-order walk of a well-formed tree terminates (its depth is bounded by the arena)
  and visits every node that a path leads to exactly once, each directory after all its children.\<close>

theorem walk_postorder_spec:
  assumes "wf_tree t"
  shows "\<exists>vs. walk_postorder t = Some vs \<and> distinct (map wn_id vs) \<and>
    wn_id ` set vs = {i. \<exists>ks. follow t 0 ks = Some i} \<and> postorder vs"
  using walk_from_visits [OF assms wf_treeD(1) [OF assms], of "length t" "[]"]
  by (auto simp: visits_def walk_postorder_def reach_def)

theorem walk_postorder_spec_witness:
  "\<exists>vs. walk_postorder empty_tree = Some vs \<and> distinct (map wn_id vs) \<and>
    wn_id ` set vs = {i. \<exists>ks. follow empty_tree 0 ks = Some i} \<and> postorder vs \<and> map wn_id vs = [0]"
proof -
  have "walk_postorder empty_tree = Some [\<lparr>wn_id = 0, wn_display = [], wn_folded = [], wn_entry = DirN [], wn_children = []\<rparr>]"
    by (simp add: walk_postorder_def empty_tree_def)
  with walk_postorder_spec [OF empty_tree_wf(1)] show ?thesis by auto
qed

end
