(* ===== verification/Reg_Types.thy ===== *)
theory Reg_Types
  imports Casefold
begin

text \<open>
  The data of the registry overlay (\<^verbatim>\<open>vfs-registry/src/overlay.rs\<close>): values, children, nodes, the
  lookup states, the errors and the limits. A node's \<^verbatim>\<open>children\<close> is a \<^verbatim>\<open>BTreeMap\<close> from folded name to
  stored spelling and state, kept as a list in key order.
\<close>

definition MAX_KEY_NAME :: nat where "MAX_KEY_NAME = 255"
definition MAX_VALUE_NAME :: nat where "MAX_VALUE_NAME = 16383"
definition MAX_DATA :: nat where "MAX_DATA = 1048576"
definition MAX_DELETED_AT :: nat where "MAX_DELETED_AT = 16384"
definition MAX_WRITE_DEPTH :: nat where "MAX_WRITE_DEPTH = 512"
definition MAX_DECODE_DEPTH :: nat where "MAX_DECODE_DEPTH = 1024"

record reg_value =
  rv_name :: rstr
  rv_ty :: u32
  rv_data :: bytes

datatype reg_child = CPresent | CTombstone

record reg_node =
  rn_values :: "reg_value list"
  rn_value_tombstones :: "rstr list"
  rn_children :: "(rstr \<times> rstr \<times> reg_child) list"
  rn_created :: bool
  rn_volatile :: bool
  rn_last_write :: u64

definition default_node :: reg_node where
  "default_node = \<lparr>rn_values = [], rn_value_tombstones = [], rn_children = [],
     rn_created = False, rn_volatile = False, rn_last_write = 0\<rparr>"

datatype reg_lookup = LAbsent | LPresent bool | LTombstoned

datatype reg_error =
  NameTooLong | DataTooLarge | RNotFound | AlreadyExists | InvalidPath | TooDeep

definition utf16_len :: "rstr \<Rightarrow> nat" where
  "utf16_len s = length (encode_utf16 s)"

lemma utf16_len_simps [simp]:
  "utf16_len [] = 0" "utf16_len (s @ t) = utf16_len s + utf16_len t"
  "utf16_len (c # s) = (if c < 0x10000 then 1 else 2) + utf16_len s"
  by (simp_all add: utf16_len_def encode_utf16_def utf16_char_def)

lemma length_utf8_utf16: "length (utf8 s) \<le> 3 * utf16_len s"
  unfolding utf16_len_def by (rule length_utf8_le)

end
