(* ===== verification/Wire.thy ===== *)
theory Wire
  imports Reg_Types "HOL-Library.Monad_Syntax"
begin

text \<open>
  The byte cursor of \<^verbatim>\<open>vfs-protocol/src/wire.rs\<close>. A reader takes the bytes that are left and gives a
  value with the bytes left after it, or nothing. The interface the codecs rely on is the locale
  \<open>codec\<close>, what was written is read back, and for the readers that accept nothing else its
  extension \<open>strict_codec\<close>; both carry over to sequences of items.
\<close>

type_synonym 'a rd = "bytes \<Rightarrow> ('a \<times> bytes) option"

section \<open>Definitions\<close>

definition put_str :: "rstr \<Rightarrow> bytes" where
  "put_str s = u32_le (word_of_nat (length (utf8 s))) @ utf8 s"

definition rd_take :: "nat \<Rightarrow> bytes rd" where
  "rd_take n b = (if length b < n then None else Some (take n b, drop n b))"

definition rd_u8 :: "u8 rd" where
  "rd_u8 b = do { (h, r) \<leftarrow> rd_take 1 b; Some (h ! 0, r) }"

definition rd_bool :: "bool rd" where
  "rd_bool b = do {
     (x, r) \<leftarrow> rd_u8 b;
     if x = 0 then Some (False, r) else if x = 1 then Some (True, r) else None }"

definition rd_flag :: "bool rd" where
  "rd_flag b = do { (x, r) \<leftarrow> rd_u8 b; Some (x \<noteq> 0, r) }"

definition rd_u32 :: "u32 rd" where
  "rd_u32 b = do { (h, r) \<leftarrow> rd_take 4 b; Some (le_u32 h, r) }"

definition rd_u64 :: "u64 rd" where
  "rd_u64 b = do { (h, r) \<leftarrow> rd_take 8 b; Some (le_u64 h, r) }"

definition rd_bytes :: "nat \<Rightarrow> bytes rd" where
  "rd_bytes mx b = do {
     (n, r) \<leftarrow> rd_u32 b;
     if unat n > mx then None else rd_take (unat n) r }"

definition rd_str :: "rstr rd" where
  "rd_str b = do {
     (n, r) \<leftarrow> rd_u32 b;
     (h, r) \<leftarrow> rd_take (unat n) r;
     s \<leftarrow> from_utf8 h;
     Some (s, r) }"

definition rd_str_max :: "nat \<Rightarrow> rstr rd" where
  "rd_str_max mx b = do {
     (s, r) \<leftarrow> rd_str b;
     if utf16_len s \<le> mx then Some (s, r) else None }"

definition rd_rest_str :: "rstr rd" where
  "rd_rest_str b = do {
     (h, r) \<leftarrow> rd_take (length b) b;
     s \<leftarrow> from_utf8 h;
     Some (s, r) }"

definition rd_done :: "bytes \<Rightarrow> unit option" where
  "rd_done b = (if b = [] then Some () else None)"

text \<open>A loop \<^verbatim>\<open>for _ in 0..n\<close> that reads one item each time.\<close>

fun rd_n :: "'a rd \<Rightarrow> nat \<Rightarrow> 'a list rd" where
  "rd_n d 0 b = Some ([], b)"
| "rd_n d (Suc n) b = do {
     (x, r) \<leftarrow> d b;
     (xs, r) \<leftarrow> rd_n d n r;
     Some (x # xs, r) }"

definition enc_bool :: "bool \<Rightarrow> bytes" where
  "enc_bool x = [if x then 1 else 0]"

definition enc_bytes :: "bytes \<Rightarrow> bytes" where
  "enc_bytes d = u32_le (word_of_nat (length d)) @ d"

section \<open>The codec interface\<close>

locale codec =
  fixes enc :: "'a \<Rightarrow> bytes" and dec :: "'a rd" and ok :: "'a \<Rightarrow> bool"
  assumes dec_enc: "ok x \<Longrightarrow> dec (enc x @ r) = Some (x, r)"
begin

lemma dec_enc_list: "list_all ok xs \<Longrightarrow> rd_n dec (length xs) (concat (map enc xs) @ r) = Some (xs, r)"
  by (induction xs) (simp_all add: dec_enc)

lemma enc_inj:
  assumes "ok x" and "ok y" and "enc x @ r = enc y @ q"
  shows "x = y \<and> r = q"
proof -
  have "Some (x, r) = Some (y, q)"
    using dec_enc [OF assms(1), of r] dec_enc [OF assms(2), of q] unfolding assms(3) by (rule trans [OF sym])
  then show ?thesis by simp
qed

end

locale strict_codec =
  fixes enc :: "'a \<Rightarrow> bytes" and dec :: "'a rd" and ok :: "'a \<Rightarrow> bool"
  assumes dec_iff: "dec b = Some (x, r) \<longleftrightarrow> ok x \<and> b = enc x @ r"
begin

lemma dec_list_iff:
  "rd_n dec n b = Some (xs, r) \<longleftrightarrow> n = length xs \<and> list_all ok xs \<and> b = concat (map enc xs) @ r"
proof (induction n arbitrary: b xs)
  case 0
  then show ?case by auto
next
  case (Suc n)
  have "rd_n dec (Suc n) b = Some (xs, r) \<longleftrightarrow>
      (\<exists>x q ys. dec b = Some (x, q) \<and> rd_n dec n q = Some (ys, r) \<and> xs = x # ys)"
    by (auto simp: bind_eq_Some_conv)
  also have "\<dots> \<longleftrightarrow> Suc n = length xs \<and> list_all ok xs \<and> b = concat (map enc xs) @ r"
    unfolding dec_iff Suc.IH by (cases xs) auto
  finally show ?case .
qed

end

sublocale strict_codec \<subseteq> codec
  by unfold_locales (simp add: dec_iff)

section \<open>The cursor's readers\<close>

lemma rd_take_iff: "rd_take n b = Some (h, r) \<longleftrightarrow> length h = n \<and> b = h @ r"
proof
  assume "rd_take n b = Some (h, r)"
  then have "\<not> length b < n" "h = take n b" "r = drop n b" by (auto simp: rd_take_def split: if_splits)
  then show "length h = n \<and> b = h @ r" by simp
qed (auto simp: rd_take_def)

lemma rd_u8_iff: "rd_u8 b = Some (x, r) \<longleftrightarrow> b = x # r"
proof -
  have "rd_u8 b = Some (x, r) \<longleftrightarrow> (\<exists>h. length h = 1 \<and> b = h @ r \<and> x = h ! 0)"
    by (auto simp: rd_u8_def bind_eq_Some_conv rd_take_iff)
  also have "\<dots> \<longleftrightarrow> b = x # r"
    by (auto simp: length_Suc_conv)
  finally show ?thesis .
qed

lemma rd_u8_simps [simp]: "rd_u8 [] = None" "rd_u8 (x # r) = Some (x, r)"
  by (simp_all add: rd_u8_def rd_take_def)

definition ok_str :: "rstr \<Rightarrow> bool" where
  "ok_str s \<longleftrightarrow> valid_str s \<and> length (utf8 s) < 2 ^ 32"

definition ok_str_max :: "nat \<Rightarrow> rstr \<Rightarrow> bool" where
  "ok_str_max mx s \<longleftrightarrow> ok_str s \<and> utf16_len s \<le> mx"

definition ok_bytes :: "nat \<Rightarrow> bytes \<Rightarrow> bool" where
  "ok_bytes mx d \<longleftrightarrow> length d \<le> mx \<and> length d < 2 ^ 32"

abbreviation always :: "'a \<Rightarrow> bool" where
  "always \<equiv> \<lambda>x. True"

interpretation u8c: strict_codec "\<lambda>x. [x]" rd_u8 always
  by unfold_locales (simp add: rd_u8_iff)

interpretation boolc: strict_codec enc_bool rd_bool always
proof unfold_locales
  fix b :: bytes and x :: bool and r :: bytes
  show "rd_bool b = Some (x, r) \<longleftrightarrow> always x \<and> b = enc_bool x @ r"
    by (cases b) (auto simp: rd_bool_def enc_bool_def)
qed

interpretation u32c: strict_codec u32_le rd_u32 always
proof unfold_locales
  fix b :: bytes and x :: u32 and r :: bytes
  show "rd_u32 b = Some (x, r) \<longleftrightarrow> always x \<and> b = u32_le x @ r"
    by (auto simp: rd_u32_def bind_eq_Some_conv rd_take_iff u32_le_le_u32)
qed

interpretation u64c: strict_codec u64_le rd_u64 always
proof unfold_locales
  fix b :: bytes and x :: u64 and r :: bytes
  show "rd_u64 b = Some (x, r) \<longleftrightarrow> always x \<and> b = u64_le x @ r"
    by (auto simp: rd_u64_def bind_eq_Some_conv rd_take_iff u64_le_le_u64)
qed

lemma len_u32: "unat n = length h \<longleftrightarrow> n = word_of_nat (length h) \<and> length h < 2 ^ 32" for n :: u32
proof
  assume n: "unat n = length h"
  have "unat n < 2 ^ LENGTH(32)" by (rule unsigned_less)
  moreover have "n = word_of_nat (unat n)" by simp
  ultimately show "n = word_of_nat (length h) \<and> length h < 2 ^ 32" using n by simp
qed (simp add: unat_of_nat)

interpretation strc: strict_codec put_str rd_str ok_str
proof unfold_locales
  fix b :: bytes and s :: rstr and r :: bytes
  have "rd_str b = Some (s, r) \<longleftrightarrow> (\<exists>n h q. rd_u32 b = Some (n, q) \<and> rd_take (unat n) q = Some (h, r) \<and> from_utf8 h = Some s)"
    by (cases "rd_u32 b") (auto simp: rd_str_def bind_eq_Some_conv)
  also have "\<dots> \<longleftrightarrow> (\<exists>n. unat n = length (utf8 s) \<and> valid_str s \<and> b = u32_le n @ utf8 s @ r)"
    by (auto simp: rd_take_iff u32c.dec_iff from_utf8_iff)
  also have "\<dots> \<longleftrightarrow> ok_str s \<and> b = put_str s @ r"
    unfolding len_u32 ok_str_def put_str_def by auto
  finally show "rd_str b = Some (s, r) \<longleftrightarrow> ok_str s \<and> b = put_str s @ r" .
qed

interpretation strmc: strict_codec put_str "rd_str_max mx" "ok_str_max mx"
proof unfold_locales
  fix b :: bytes and s :: rstr and r :: bytes
  have "rd_str_max mx b = Some (s, r) \<longleftrightarrow> rd_str b = Some (s, r) \<and> utf16_len s \<le> mx"
    by (cases "rd_str b") (auto simp: rd_str_max_def split: if_splits)
  then show "rd_str_max mx b = Some (s, r) \<longleftrightarrow> ok_str_max mx s \<and> b = put_str s @ r"
    by (auto simp: strc.dec_iff ok_str_max_def)
qed

interpretation bytesc: strict_codec enc_bytes "rd_bytes mx" "ok_bytes mx"
proof unfold_locales
  fix b :: bytes and d :: bytes and r :: bytes
  have "rd_bytes mx b = Some (d, r) \<longleftrightarrow>
      (\<exists>n q. rd_u32 b = Some (n, q) \<and> unat n \<le> mx \<and> rd_take (unat n) q = Some (d, r))"
    by (cases "rd_u32 b") (auto simp: rd_bytes_def split: if_splits)
  also have "\<dots> \<longleftrightarrow> (\<exists>n. unat n = length d \<and> length d \<le> mx \<and> b = u32_le n @ d @ r)"
    by (auto simp: rd_take_iff u32c.dec_iff)
  also have "\<dots> \<longleftrightarrow> ok_bytes mx d \<and> b = enc_bytes d @ r"
    unfolding len_u32 ok_bytes_def enc_bytes_def by auto
  finally show "rd_bytes mx b = Some (d, r) \<longleftrightarrow> ok_bytes mx d \<and> b = enc_bytes d @ r" .
qed

interpretation flagc: codec enc_bool rd_flag always
  by unfold_locales (simp add: rd_flag_def enc_bool_def)

lemma rd_rest_str_iff: "rd_rest_str b = Some (s, r) \<longleftrightarrow> r = [] \<and> valid_str s \<and> b = utf8 s"
proof -
  have "rd_rest_str b = from_utf8 b \<bind> (\<lambda>s. Some (s, []))"
    by (simp add: rd_rest_str_def rd_take_def)
  then show ?thesis by (auto simp: bind_eq_Some_conv from_utf8_iff)
qed

lemma rd_done_iff: "rd_done b = Some u \<longleftrightarrow> b = []"
  by (simp add: rd_done_def)

text \<open>Writing then reading, and reading to the end, for \<open>simp\<close>.\<close>

named_theorems codec_simps \<open>reading back what was written\<close>
named_theorems codec_iffs \<open>what a reader accepts\<close>

lemmas [codec_simps] =
  boolc.dec_enc [simplified] u32c.dec_enc [simplified] u64c.dec_enc [simplified]
  strc.dec_enc strmc.dec_enc bytesc.dec_enc flagc.dec_enc [simplified]

lemmas [codec_iffs] =
  rd_take_iff rd_u8_iff boolc.dec_iff u32c.dec_iff u64c.dec_iff strc.dec_iff strmc.dec_iff bytesc.dec_iff
  rd_rest_str_iff rd_done_iff bind_eq_Some_conv

end
