(* ===== verification/Protocol.thy ===== *)
theory Protocol
  imports Wire
begin

unbundle bit_operations_syntax

text \<open>
  The file-operation codecs of \<^verbatim>\<open>vfs-protocol/src/lib.rs\<close>: what the shim writes into a ring slot
  and the director reads, and the replies. Integers are little-endian; \<^verbatim>\<open>i64\<close> times travel as
  their 64 bits. These decoders accept trailing bytes and any non-zero byte as true.
\<close>

section \<open>Opcodes\<close>

definition OP_GETATTR :: u32 where "OP_GETATTR = 1"
definition OP_READDIR :: u32 where "OP_READDIR = 2"
definition OP_OPEN :: u32 where "OP_OPEN = 3"
definition OP_READ :: u32 where "OP_READ = 5"
definition OP_WRITE :: u32 where "OP_WRITE = 6"
definition OP_SETATTR :: u32 where "OP_SETATTR = 7"
definition OP_RENAME :: u32 where "OP_RENAME = 8"
definition OP_DELETE :: u32 where "OP_DELETE = 9"
definition OP_MKDIR :: u32 where "OP_MKDIR = 10"
definition OP_CLOSE :: u32 where "OP_CLOSE = 11"
definition OP_HEARTBEAT :: u32 where "OP_HEARTBEAT = 13"
definition OP_STORED_NAMES :: u32 where "OP_STORED_NAMES = 14"
definition OP_REG_LOOKUP :: u32 where "OP_REG_LOOKUP = 15"
definition OP_REG_KEY :: u32 where "OP_REG_KEY = 16"
definition OP_REG_SET_VALUE :: u32 where "OP_REG_SET_VALUE = 17"
definition OP_REG_DELETE_VALUE :: u32 where "OP_REG_DELETE_VALUE = 18"
definition OP_REG_CREATE_KEY :: u32 where "OP_REG_CREATE_KEY = 19"
definition OP_REG_DELETE_KEY :: u32 where "OP_REG_DELETE_KEY = 20"
definition OP_REG_RENAME_KEY :: u32 where "OP_REG_RENAME_KEY = 21"
definition OP_REG_CHANGED :: u32 where "OP_REG_CHANGED = 22"
definition OP_RENAME_X :: u32 where "OP_RENAME_X = 23"
definition OP_STAGE_EXEC :: u32 where "OP_STAGE_EXEC = 24"

definition OPCODES :: "(rstr \<times> u32) list" where
  "OPCODES =
    [(lit ''getattr'', OP_GETATTR), (lit ''readdir'', OP_READDIR), (lit ''open'', OP_OPEN),
     (lit ''read'', OP_READ), (lit ''write'', OP_WRITE), (lit ''setattr'', OP_SETATTR),
     (lit ''rename'', OP_RENAME), (lit ''delete'', OP_DELETE), (lit ''mkdir'', OP_MKDIR),
     (lit ''close'', OP_CLOSE), (lit ''heartbeat'', OP_HEARTBEAT),
     (lit ''stored-names'', OP_STORED_NAMES), (lit ''reg-lookup'', OP_REG_LOOKUP),
     (lit ''reg-key'', OP_REG_KEY), (lit ''reg-set-value'', OP_REG_SET_VALUE),
     (lit ''reg-delete-value'', OP_REG_DELETE_VALUE), (lit ''reg-create-key'', OP_REG_CREATE_KEY),
     (lit ''reg-delete-key'', OP_REG_DELETE_KEY), (lit ''reg-rename-key'', OP_REG_RENAME_KEY),
     (lit ''reg-changed'', OP_REG_CHANGED), (lit ''rename-x'', OP_RENAME_X),
     (lit ''stage-exec'', OP_STAGE_EXEC)]"

definition READ_RESP_BULK_BIT :: u32 where "READ_RESP_BULK_BIT = 0x80000000"
definition OPEN_RESP_IMMUTABLE :: u8 where "OPEN_RESP_IMMUTABLE = 1"

section \<open>Messages\<close>

record attr_resp =
  ar_found :: bool
  ar_is_dir :: bool
  ar_size :: u64
  ar_mtime :: u64

record dir_entry_wire =
  dw_name :: rstr
  dw_is_dir :: bool
  dw_size :: u64
  dw_mtime :: u64

record open_resp =
  or_fh :: u64
  or_size :: u64
  or_is_dir :: bool
  or_immutable :: bool
  or_mount_gen :: u32

record read_req =
  rr_fh :: u64
  rr_offset :: u64
  rr_len :: u32

record write_req =
  wr_fh :: u64
  wr_offset :: u64
  wr_len :: u32

record setattr_req =
  sr_fh :: u64
  sr_size :: u64

section \<open>Codecs\<close>

definition encode_path_req :: "u32 \<Rightarrow> rstr \<Rightarrow> bytes" where
  "encode_path_req root vpath = u32_le root @ utf8 vpath"

definition decode_path_req :: "bytes \<Rightarrow> (u32 \<times> rstr) option" where
  "decode_path_req p = do {
     (root, r) \<leftarrow> rd_u32 p;
     (path, r) \<leftarrow> rd_rest_str r;
     Some (root, path) }"

definition encode_getattr_resp :: "attr_resp \<Rightarrow> bytes" where
  "encode_getattr_resp r =
     enc_bool (ar_found r) @ enc_bool (ar_is_dir r) @ u64_le (ar_size r) @ u64_le (ar_mtime r)"

definition decode_getattr_resp :: "bytes \<Rightarrow> attr_resp option" where
  "decode_getattr_resp p = do {
     (found, r) \<leftarrow> rd_flag p;
     (is_dir, r) \<leftarrow> rd_flag r;
     (sz, r) \<leftarrow> rd_u64 r;
     (mtime, r) \<leftarrow> rd_u64 r;
     Some \<lparr>ar_found = found, ar_is_dir = is_dir, ar_size = sz, ar_mtime = mtime\<rparr> }"

definition encode_dir_entry :: "dir_entry_wire \<Rightarrow> bytes" where
  "encode_dir_entry e =
     u32_le (word_of_nat (length (utf8 (dw_name e)))) @ utf8 (dw_name e) @
     enc_bool (dw_is_dir e) @ u64_le (dw_size e) @ u64_le (dw_mtime e)"

definition decode_dir_entry :: "dir_entry_wire rd" where
  "decode_dir_entry b = do {
     (name, r) \<leftarrow> rd_str b;
     (is_dir, r) \<leftarrow> rd_flag r;
     (sz, r) \<leftarrow> rd_u64 r;
     (mtime, r) \<leftarrow> rd_u64 r;
     Some (\<lparr>dw_name = name, dw_is_dir = is_dir, dw_size = sz, dw_mtime = mtime\<rparr>, r) }"

definition encode_readdir_resp :: "dir_entry_wire list \<Rightarrow> bytes" where
  "encode_readdir_resp es = u32_le (word_of_nat (length es)) @ concat (map encode_dir_entry es)"

definition decode_readdir_resp :: "bytes \<Rightarrow> dir_entry_wire list option" where
  "decode_readdir_resp p = do {
     (count, r) \<leftarrow> rd_u32 p;
     (out, r) \<leftarrow> rd_n decode_dir_entry (unat count) r;
     Some out }"

definition encode_open_req :: "u32 \<Rightarrow> u32 \<Rightarrow> rstr \<Rightarrow> bytes" where
  "encode_open_req root flags path = u32_le root @ u32_le flags @ utf8 path"

definition decode_open_req :: "bytes \<Rightarrow> (u32 \<times> u32 \<times> rstr) option" where
  "decode_open_req p = do {
     (root, r) \<leftarrow> rd_u32 p;
     (flags, r) \<leftarrow> rd_u32 r;
     (path, r) \<leftarrow> rd_rest_str r;
     Some (root, flags, path) }"

definition encode_open_resp :: "open_resp \<Rightarrow> bytes" where
  "encode_open_resp r =
     u64_le (or_fh r) @ u64_le (or_size r) @ enc_bool (or_is_dir r) @
     [if or_immutable r then OPEN_RESP_IMMUTABLE else 0] @ [0, 0] @ u32_le (or_mount_gen r)"

definition decode_open_resp :: "bytes \<Rightarrow> open_resp option" where
  "decode_open_resp p = do {
     (fh, r) \<leftarrow> rd_u64 p;
     (sz, r) \<leftarrow> rd_u64 r;
     (is_dir, r) \<leftarrow> rd_flag r;
     (fl, r) \<leftarrow> rd_u8 r;
     (pad, r) \<leftarrow> rd_take 2 r;
     (mount_gen, r) \<leftarrow> rd_u32 r;
     Some \<lparr>or_fh = fh, or_size = sz, or_is_dir = is_dir,
       or_immutable = (fl AND OPEN_RESP_IMMUTABLE \<noteq> 0), or_mount_gen = mount_gen\<rparr> }"

definition encode_read_req :: "read_req \<Rightarrow> bytes" where
  "encode_read_req r = u64_le (rr_fh r) @ u64_le (rr_offset r) @ u32_le (rr_len r) @ u32_le 0"

definition decode_read_req :: "bytes \<Rightarrow> read_req option" where
  "decode_read_req p = do {
     (fh, r) \<leftarrow> rd_u64 p;
     (offset, r) \<leftarrow> rd_u64 r;
     (len, r) \<leftarrow> rd_u32 r;
     Some \<lparr>rr_fh = fh, rr_offset = offset, rr_len = len\<rparr> }"

definition encode_read_resp :: "bytes \<Rightarrow> bytes" where
  "encode_read_resp d = u32_le (word_of_nat (length d)) @ u32_le 0 @ d"

definition decode_read_resp :: "bytes \<Rightarrow> bytes option" where
  "decode_read_resp p = do {
     (n, r) \<leftarrow> rd_u32 p;
     (pad, r) \<leftarrow> rd_take 4 r;
     (d, r) \<leftarrow> rd_take (unat n) r;
     Some d }"

text \<open>The caller's buffer is the second argument; the result is the count and the buffer after.\<close>

definition decode_read_resp_into :: "bytes \<Rightarrow> bytes \<Rightarrow> (nat \<times> bytes) option" where
  "decode_read_resp_into p out = do {
     (raw, r) \<leftarrow> rd_u32 p;
     if raw AND READ_RESP_BULK_BIT \<noteq> 0 then None
     else do {
       (pad, r) \<leftarrow> rd_take 4 r;
       (d, r) \<leftarrow> rd_take (unat raw) r;
       let n = min (length d) (length out);
       Some (n, take n d @ drop n out) } }"

definition encode_read_resp_bulk :: "u32 \<Rightarrow> u64 \<Rightarrow> bytes" where
  "encode_read_resp_bulk bytes_read arena_offset =
     u32_le (bytes_read OR READ_RESP_BULK_BIT) @ u32_le 0 @ u64_le arena_offset"

definition decode_read_bulk_resp :: "bytes \<Rightarrow> (u32 \<times> u64) option" where
  "decode_read_bulk_resp p = do {
     (raw, r) \<leftarrow> rd_u32 p;
     if raw AND READ_RESP_BULK_BIT = 0 then None
     else do {
       (pad, r) \<leftarrow> rd_take 4 r;
       (off, r) \<leftarrow> rd_u64 r;
       Some (raw AND NOT READ_RESP_BULK_BIT, off) } }"

definition is_read_resp_bulk :: "bytes \<Rightarrow> bool" where
  "is_read_resp_bulk p = (case rd_u32 p of
     Some (raw, r) \<Rightarrow> raw AND READ_RESP_BULK_BIT \<noteq> 0 | None \<Rightarrow> False)"

definition encode_write_req :: "write_req \<Rightarrow> bytes \<Rightarrow> bytes" where
  "encode_write_req r d =
     u64_le (wr_fh r) @ u64_le (wr_offset r) @ u32_le (word_of_nat (length d)) @ u32_le 0 @ d"

definition decode_write_req :: "bytes \<Rightarrow> (write_req \<times> bytes) option" where
  "decode_write_req p = do {
     (fh, r) \<leftarrow> rd_u64 p;
     (offset, r) \<leftarrow> rd_u64 r;
     (len, r) \<leftarrow> rd_u32 r;
     (pad, r) \<leftarrow> rd_take 4 r;
     (d, r) \<leftarrow> rd_take (unat len) r;
     Some (\<lparr>wr_fh = fh, wr_offset = offset, wr_len = len\<rparr>, d) }"

definition encode_write_resp :: "u32 \<Rightarrow> bytes" where
  "encode_write_resp n = u32_le n @ u32_le 0"

definition decode_write_resp :: "bytes \<Rightarrow> u32 option" where
  "decode_write_resp p = map_option fst (rd_u32 p)"

definition encode_mkdir_req :: "u32 \<Rightarrow> u32 \<Rightarrow> rstr \<Rightarrow> bytes" where
  "encode_mkdir_req root mode path = u32_le root @ u32_le mode @ utf8 path"

definition decode_mkdir_req :: "bytes \<Rightarrow> (u32 \<times> u32 \<times> rstr) option" where
  "decode_mkdir_req p = do {
     (root, r) \<leftarrow> rd_u32 p;
     (mode, r) \<leftarrow> rd_u32 r;
     (path, r) \<leftarrow> rd_rest_str r;
     Some (root, mode, path) }"

definition encode_names_req :: "u32 \<Rightarrow> u32 \<Rightarrow> rstr \<Rightarrow> bytes" where
  "encode_names_req root skip path = u32_le root @ u32_le skip @ utf8 path"

definition decode_names_req :: "bytes \<Rightarrow> (u32 \<times> u32 \<times> rstr) option" where
  "decode_names_req p = do {
     (root, r) \<leftarrow> rd_u32 p;
     (skip, r) \<leftarrow> rd_u32 r;
     (path, r) \<leftarrow> rd_rest_str r;
     Some (root, skip, path) }"

definition encode_names_resp :: "rstr list \<Rightarrow> bytes" where
  "encode_names_resp names = utf8 (join_with slash names)"

definition decode_names_resp :: "bytes \<Rightarrow> rstr list option" where
  "decode_names_resp p = do {
     txt \<leftarrow> from_utf8 p;
     Some (split_on ((=) slash) txt) }"

definition encode_rename_req :: "u32 \<Rightarrow> rstr \<Rightarrow> rstr \<Rightarrow> bytes" where
  "encode_rename_req root from to =
     u32_le root @ u32_le (word_of_nat (length (utf8 from))) @ utf8 from @ utf8 to"

definition decode_rename_req :: "bytes \<Rightarrow> (u32 \<times> rstr \<times> rstr) option" where
  "decode_rename_req p = do {
     (root, r) \<leftarrow> rd_u32 p;
     (from_len, r) \<leftarrow> rd_u32 r;
     (h, r) \<leftarrow> rd_take (unat from_len) r;
     from \<leftarrow> from_utf8 h;
     (to, r) \<leftarrow> rd_rest_str r;
     Some (root, from, to) }"

definition encode_rename_x_req :: "u32 \<Rightarrow> rstr \<Rightarrow> u32 \<Rightarrow> rstr \<Rightarrow> bytes" where
  "encode_rename_x_req from_root from to_root to =
     u32_le from_root @ u32_le to_root @ u32_le (word_of_nat (length (utf8 from))) @ utf8 from @ utf8 to"

definition decode_rename_x_req :: "bytes \<Rightarrow> (u32 \<times> rstr \<times> u32 \<times> rstr) option" where
  "decode_rename_x_req p = do {
     (from_root, r) \<leftarrow> rd_u32 p;
     (to_root, r) \<leftarrow> rd_u32 r;
     (from_len, r) \<leftarrow> rd_u32 r;
     (h, r) \<leftarrow> rd_take (unat from_len) r;
     from \<leftarrow> from_utf8 h;
     (to, r) \<leftarrow> rd_rest_str r;
     Some (from_root, from, to_root, to) }"

definition encode_setattr_req :: "setattr_req \<Rightarrow> bytes" where
  "encode_setattr_req r = u64_le (sr_fh r) @ u64_le (sr_size r)"

definition decode_setattr_req :: "bytes \<Rightarrow> setattr_req option" where
  "decode_setattr_req p = do {
     (fh, r) \<leftarrow> rd_u64 p;
     (sz, r) \<leftarrow> rd_u64 r;
     Some \<lparr>sr_fh = fh, sr_size = sz\<rparr> }"

definition encode_close_req :: "u64 \<Rightarrow> bytes" where
  "encode_close_req fh = u64_le fh"

definition decode_close_req :: "bytes \<Rightarrow> u64 option" where
  "decode_close_req p = map_option fst (rd_u64 p)"

section \<open>Reading back\<close>

lemma rest_str_back [codec_simps]: "valid_str s \<Longrightarrow> rd_rest_str (utf8 s) = Some (s, [])"
  by (simp add: rd_rest_str_iff)

lemma u32_back_end [codec_simps]: "rd_u32 (u32_le x) = Some (x, [])"
  using u32c.dec_iff [of "u32_le x" x "[]"] by simp

lemma u64_back_end [codec_simps]: "rd_u64 (u64_le x) = Some (x, [])"
  using u64c.dec_iff [of "u64_le x" x "[]"] by simp

lemma take_back [codec_simps]: "length h = n \<Longrightarrow> rd_take n (h @ r) = Some (h, r)"
  by (simp add: rd_take_iff)

lemma take_back_end: "length h = n \<Longrightarrow> rd_take n h = Some (h, [])"
  by (simp add: rd_take_iff)

lemma len_back [codec_simps]: "n < 2 ^ 32 \<Longrightarrow> unat (word_of_nat n :: u32) = n"
  by (rule unat_of_nat_u32)

definition ok_dir_entry :: "dir_entry_wire \<Rightarrow> bool" where
  "ok_dir_entry e \<longleftrightarrow> ok_str (dw_name e)"

interpretation dirc: codec encode_dir_entry decode_dir_entry ok_dir_entry
proof unfold_locales
  fix e :: dir_entry_wire and r :: bytes
  assume "ok_dir_entry e"
  moreover have "encode_dir_entry e @ r =
      put_str (dw_name e) @ enc_bool (dw_is_dir e) @ u64_le (dw_size e) @ u64_le (dw_mtime e) @ r"
    by (simp add: encode_dir_entry_def put_str_def)
  ultimately show "decode_dir_entry (encode_dir_entry e @ r) = Some (e, r)"
    by (simp add: decode_dir_entry_def ok_dir_entry_def codec_simps)
qed

lemma path_req_back:
  "valid_str p \<Longrightarrow> decode_path_req (encode_path_req root p) = Some (root, p)"
  by (simp add: decode_path_req_def encode_path_req_def codec_simps)

lemma two_word_req_back:
  "valid_str p \<Longrightarrow> decode_open_req (encode_open_req root x p) = Some (root, x, p)"
  "valid_str p \<Longrightarrow> decode_mkdir_req (encode_mkdir_req root x p) = Some (root, x, p)"
  "valid_str p \<Longrightarrow> decode_names_req (encode_names_req root x p) = Some (root, x, p)"
  by (simp_all add: decode_open_req_def encode_open_req_def decode_mkdir_req_def encode_mkdir_req_def
      decode_names_req_def encode_names_req_def codec_simps)

lemma rename_req_back:
  assumes "valid_str a" and "valid_str b" and "length (utf8 a) < 2 ^ 32"
  shows "decode_rename_req (encode_rename_req root a b) = Some (root, a, b)"
    and "decode_rename_x_req (encode_rename_x_req root a root' b) = Some (root, a, root', b)"
  using assms
  by (simp_all add: decode_rename_req_def encode_rename_req_def decode_rename_x_req_def
      encode_rename_x_req_def codec_simps from_utf8_utf8)

lemma handle_req_back:
  "decode_read_req (encode_read_req q) = Some q"
  "decode_setattr_req (encode_setattr_req t) = Some t"
  "decode_close_req (encode_close_req fh) = Some fh"
  by (simp_all add: decode_read_req_def encode_read_req_def decode_setattr_req_def
      encode_setattr_req_def decode_close_req_def encode_close_req_def codec_simps)

lemma write_req_back:
  assumes "length d < 2 ^ 32"
  shows "decode_write_req (encode_write_req w d) = Some (w\<lparr>wr_len := word_of_nat (length d)\<rparr>, d)"
  using assms
  by (simp add: decode_write_req_def encode_write_req_def codec_simps take_back_end)

text \<open>C25. Every file request the shim encodes is decoded by the director to the same fields, for
  any valid strings whose length fits the prefix. The declared length of a write is the length
  of its data.\<close>

theorem file_requests_roundtrip:
  assumes "valid_str a" and "valid_str b" and "length (utf8 a) < 2 ^ 32" and "length d < 2 ^ 32"
  shows "decode_path_req (encode_path_req root a) = Some (root, a) \<and>
    decode_open_req (encode_open_req root x a) = Some (root, x, a) \<and>
    decode_mkdir_req (encode_mkdir_req root x a) = Some (root, x, a) \<and>
    decode_names_req (encode_names_req root x a) = Some (root, x, a) \<and>
    decode_rename_req (encode_rename_req root a b) = Some (root, a, b) \<and>
    decode_rename_x_req (encode_rename_x_req root a root' b) = Some (root, a, root', b) \<and>
    decode_read_req (encode_read_req q) = Some q \<and>
    decode_write_req (encode_write_req w d) = Some (w\<lparr>wr_len := word_of_nat (length d)\<rparr>, d) \<and>
    decode_setattr_req (encode_setattr_req t) = Some t \<and>
    decode_close_req (encode_close_req fh) = Some fh"
  using assms by (simp add: path_req_back two_word_req_back rename_req_back handle_req_back write_req_back)

theorem file_requests_roundtrip_witness:
  "decode_rename_req (encode_rename_req 7 (lit ''a'') (lit ''b'')) = Some (7, lit ''a'', lit ''b'')"
proof -
  have v: "valid_str (lit ''a'')" "valid_str (lit ''b'')" "length (utf8 (lit ''a'')) < 2 ^ 32"
    "length ([] :: bytes) < 2 ^ 32"
    by (simp_all add: lit_def valid_char_def utf8_char_def)
  show ?thesis using file_requests_roundtrip [OF v, of 7] by blast
qed



section \<open>Inline and bulk replies\<close>

lemma bulk_bit_clear: "w AND READ_RESP_BULK_BIT = 0 \<longleftrightarrow> unat w < 2 ^ 31" for w :: u32
proof -
  have e: "READ_RESP_BULK_BIT = (2 ^ 31 :: u32)" by (simp add: READ_RESP_BULK_BIT_def)
  have "unat w < 2 ^ LENGTH(32)" by (rule unsigned_less)
  then have "unat w div 2 ^ 31 < 2" by (intro less_mult_imp_div_less) simp
  then have d: "unat w div 2 ^ 31 = 0 \<or> unat w div 2 ^ 31 = 1" by auto
  have "w AND READ_RESP_BULK_BIT = 0 \<longleftrightarrow> \<not> bit w 31"
    unfolding e by (rule and_exp_eq_0_iff_not_bit)
  also have "\<dots> \<longleftrightarrow> \<not> bit (unat w) 31"
    by (simp add: bit_unsigned_iff)
  also have "\<dots> \<longleftrightarrow> even (unat w div 2 ^ 31)"
    by (simp add: bit_iff_odd)
  also have "\<dots> \<longleftrightarrow> unat w < 2 ^ 31"
    using d by (auto simp: div_eq_0_iff)
  finally show ?thesis .
qed

lemma bulk_or_clear:
  assumes "w AND READ_RESP_BULK_BIT = 0"
  shows "(w OR READ_RESP_BULK_BIT) AND NOT READ_RESP_BULK_BIT = w"
    and "(w OR READ_RESP_BULK_BIT) AND READ_RESP_BULK_BIT \<noteq> 0"
proof -
  have b: "\<not> (bit w n \<and> bit READ_RESP_BULK_BIT n)" for n
    using assms by (metis bit_and_iff bit_0_eq bot_apply bot_bool_def)
  show "(w OR READ_RESP_BULK_BIT) AND NOT READ_RESP_BULK_BIT = w"
    using b by (intro bit_eqI) (auto simp: bit_simps)
  have "(w OR READ_RESP_BULK_BIT) AND READ_RESP_BULK_BIT = READ_RESP_BULK_BIT"
    by (intro bit_eqI) (auto simp: bit_simps)
  then show "(w OR READ_RESP_BULK_BIT) AND READ_RESP_BULK_BIT \<noteq> 0"
    by (simp add: READ_RESP_BULK_BIT_def)
qed

text \<open>Inline and bulk read replies are never taken for each other as long as a read is
  shorter than \<open>2 ^ 31\<close> bytes: an inline reply is read into the caller's buffer up to the
  shorter of the two lengths and refused by the bulk decoder, a bulk reply gives back its length
  and arena offset and is refused by the inline one.\<close>

lemma read_replies_disjoint:
  assumes "length d < 2 ^ 31" and "unat n < 2 ^ 31"
  shows "\<not> is_read_resp_bulk (encode_read_resp d) \<and>
    decode_read_bulk_resp (encode_read_resp d) = None \<and>
    decode_read_resp_into (encode_read_resp d) buf =
      Some (min (length d) (length buf), take (length buf) d @ drop (length d) buf) \<and>
    is_read_resp_bulk (encode_read_resp_bulk n off) \<and>
    decode_read_bulk_resp (encode_read_resp_bulk n off) = Some (n, off) \<and>
    decode_read_resp_into (encode_read_resp_bulk n off) buf = None"
proof -
  have l: "(word_of_nat (length d) :: u32) AND READ_RESP_BULK_BIT = 0"
    using assms(1) by (simp add: bulk_bit_clear unat_of_nat)
  have n: "n AND READ_RESP_BULK_BIT = 0" using assms(2) by (simp add: bulk_bit_clear)
  note nb = bulk_or_clear [OF n]
  have i: "decode_read_resp_into (encode_read_resp d) buf =
      Some (min (length d) (length buf), take (length buf) d @ drop (length d) buf)"
    using assms(1) l
    by (simp add: decode_read_resp_into_def encode_read_resp_def codec_simps take_back_end Let_def min_def)
  show ?thesis
    using l nb i
    by (simp add: is_read_resp_bulk_def decode_read_bulk_resp_def decode_read_resp_into_def
        encode_read_resp_def encode_read_resp_bulk_def codec_simps)
qed

text \<open>From \<open>2 ^ 31\<close> bytes on an inline reply carries the bulk bit.\<close>

lemma read_resp_too_long:
  assumes "2 ^ 31 \<le> length d" and "length d < 2 ^ 32"
  shows "is_read_resp_bulk (encode_read_resp d)"
proof -
  have "(word_of_nat (length d) :: u32) AND READ_RESP_BULK_BIT \<noteq> 0"
    using assms bulk_bit_clear [of "word_of_nat (length d)"] by (simp add: unat_of_nat)
  then show ?thesis by (simp add: is_read_resp_bulk_def encode_read_resp_def codec_simps)
qed

end
