(* ===== verification/Reg_Wire.thy ===== *)
theory Reg_Wire
  imports Protocol Ordmap
begin

text \<open>
  The registry codecs of \<^verbatim>\<open>vfs-protocol/src/lib.rs\<close>. Unlike the file codecs they must use up their
  input and take only 0 and 1 as booleans; each decoder is shown to accept exactly what its
  encoder writes for arguments within the limits.
\<close>

section \<open>Definitions\<close>

definition encode_reg_path :: "rstr \<Rightarrow> bytes" where
  "encode_reg_path path = put_str path"

definition decode_reg_path :: "bytes \<Rightarrow> rstr option" where
  "decode_reg_path b = do {
     (p, r) \<leftarrow> rd_str b;
     rd_done r;
     Some p }"

definition encode_reg_set_value :: "rstr \<Rightarrow> rstr \<Rightarrow> u32 \<Rightarrow> bytes \<Rightarrow> bytes" where
  "encode_reg_set_value path name ty d =
     put_str path @ put_str name @ u32_le ty @ u32_le (word_of_nat (length d)) @ d"

definition decode_reg_set_value :: "bytes \<Rightarrow> (rstr \<times> rstr \<times> u32 \<times> bytes) option" where
  "decode_reg_set_value b = do {
     (path, r) \<leftarrow> rd_str b;
     (name, r) \<leftarrow> rd_str_max MAX_VALUE_NAME r;
     (ty, r) \<leftarrow> rd_u32 r;
     (d, r) \<leftarrow> rd_bytes MAX_DATA r;
     rd_done r;
     Some (path, name, ty, d) }"

definition encode_reg_delete_value :: "rstr \<Rightarrow> rstr \<Rightarrow> bytes" where
  "encode_reg_delete_value path name = put_str path @ put_str name"

definition decode_reg_delete_value :: "bytes \<Rightarrow> (rstr \<times> rstr) option" where
  "decode_reg_delete_value b = do {
     (path, r) \<leftarrow> rd_str b;
     (name, r) \<leftarrow> rd_str_max MAX_VALUE_NAME r;
     rd_done r;
     Some (path, name) }"

definition encode_reg_create_key :: "rstr \<Rightarrow> bool \<Rightarrow> bytes" where
  "encode_reg_create_key path volatile = encode_reg_path path @ enc_bool volatile"

definition decode_reg_create_key :: "bytes \<Rightarrow> (rstr \<times> bool) option" where
  "decode_reg_create_key b = do {
     (path, r) \<leftarrow> rd_str b;
     (v, r) \<leftarrow> rd_bool r;
     rd_done r;
     Some (path, v) }"

definition encode_reg_rename_key :: "rstr \<Rightarrow> rstr \<Rightarrow> bytes" where
  "encode_reg_rename_key path new_leaf = put_str path @ put_str new_leaf"

definition decode_reg_rename_key :: "bytes \<Rightarrow> (rstr \<times> rstr) option" where
  "decode_reg_rename_key b = do {
     (path, r) \<leftarrow> rd_str b;
     (leaf, r) \<leftarrow> rd_str_max MAX_KEY_NAME r;
     rd_done r;
     Some (path, leaf) }"

definition encode_reg_changed :: "rstr \<Rightarrow> bool \<Rightarrow> u64 \<Rightarrow> bytes" where
  "encode_reg_changed path subtree version = encode_reg_path path @ enc_bool subtree @ u64_le version"

definition decode_reg_changed :: "bytes \<Rightarrow> (rstr \<times> bool \<times> u64) option" where
  "decode_reg_changed b = do {
     (path, r) \<leftarrow> rd_str b;
     (subtree, r) \<leftarrow> rd_bool r;
     (since, r) \<leftarrow> rd_u64 r;
     rd_done r;
     Some (path, subtree, since) }"

definition encode_reg_changed_reply :: "bool \<Rightarrow> u64 \<Rightarrow> bytes" where
  "encode_reg_changed_reply changed version = u64_le version @ enc_bool changed"

definition decode_reg_changed_reply :: "bytes \<Rightarrow> (bool \<times> u64) option" where
  "decode_reg_changed_reply b = do {
     (version, r) \<leftarrow> rd_u64 b;
     (changed, r) \<leftarrow> rd_bool r;
     rd_done r;
     Some (changed, version) }"

definition encode_reg_version_reply :: "u64 \<Rightarrow> bytes" where
  "encode_reg_version_reply version = u64_le version"

definition decode_reg_version_reply :: "bytes \<Rightarrow> u64 option" where
  "decode_reg_version_reply b = do {
     (v, r) \<leftarrow> rd_u64 b;
     rd_done r;
     Some v }"

definition encode_reg_lookup_reply :: "u8 \<Rightarrow> bool \<Rightarrow> u64 \<Rightarrow> bytes" where
  "encode_reg_lookup_reply state below version = u64_le version @ [state] @ enc_bool below"

definition decode_reg_lookup_reply :: "bytes \<Rightarrow> (u8 \<times> bool \<times> u64) option" where
  "decode_reg_lookup_reply b = do {
     (version, r) \<leftarrow> rd_u64 b;
     (state, r) \<leftarrow> rd_u8 r;
     if state > 3 then None
     else do {
       (below, r) \<leftarrow> rd_bool r;
       rd_done r;
       Some (state, below, version) } }"

text \<open>The items of a key reply.\<close>

definition encode_value :: "reg_value \<Rightarrow> bytes" where
  "encode_value v = put_str (rv_name v) @ u32_le (rv_ty v) @ u32_le (word_of_nat (length (rv_data v))) @ rv_data v"

definition decode_value :: "reg_value rd" where
  "decode_value b = do {
     (name, r) \<leftarrow> rd_str_max MAX_VALUE_NAME b;
     (ty, r) \<leftarrow> rd_u32 r;
     (d, r) \<leftarrow> rd_bytes MAX_DATA r;
     Some (\<lparr>rv_name = name, rv_ty = ty, rv_data = d\<rparr>, r) }"

definition encode_child :: "rstr \<times> rstr \<times> reg_child \<Rightarrow> bytes" where
  "encode_child c = (case c of (folded, spelling, state) \<Rightarrow>
     put_str folded @ put_str spelling @ [case state of CPresent \<Rightarrow> 0 | CTombstone \<Rightarrow> 1])"

definition decode_child :: "(rstr \<times> rstr \<times> reg_child) rd" where
  "decode_child b = do {
     (folded, r) \<leftarrow> rd_str_max MAX_KEY_NAME b;
     (spelling, r) \<leftarrow> rd_str_max MAX_KEY_NAME r;
     (x, r) \<leftarrow> rd_u8 r;
     if x = 0 then Some ((folded, spelling, CPresent), r)
     else if x = 1 then Some ((folded, spelling, CTombstone), r)
     else None }"

definition encode_reg_key_reply :: "reg_node option \<Rightarrow> u64 \<Rightarrow> bytes" where
  "encode_reg_key_reply node version = u64_le version @
     (case node of
        None \<Rightarrow> [0]
      | Some n \<Rightarrow> [1] @ enc_bool (rn_created n) @ enc_bool (rn_volatile n) @ u64_le (rn_last_write n) @
          u32_le (word_of_nat (length (rn_values n))) @ concat (map encode_value (rn_values n)) @
          u32_le (word_of_nat (length (rn_value_tombstones n))) @ concat (map put_str (rn_value_tombstones n)) @
          u32_le (word_of_nat (length (rn_children n))) @ concat (map encode_child (rn_children n)))"

text \<open>The children are inserted into the node's map one by one.\<close>

definition decode_reg_key_reply :: "bytes \<Rightarrow> (reg_node option \<times> u64) option" where
  "decode_reg_key_reply b = do {
     (version, r) \<leftarrow> rd_u64 b;
     (has, r) \<leftarrow> rd_bool r;
     if \<not> has then do { rd_done r; Some (None, version) }
     else do {
       (created, r) \<leftarrow> rd_bool r;
       (volatile, r) \<leftarrow> rd_bool r;
       (last_write, r) \<leftarrow> rd_u64 r;
       (nv, r) \<leftarrow> rd_u32 r;
       (values, r) \<leftarrow> rd_n decode_value (unat nv) r;
       (nt, r) \<leftarrow> rd_u32 r;
       (tombs, r) \<leftarrow> rd_n (rd_str_max MAX_VALUE_NAME) (unat nt) r;
       (nc, r) \<leftarrow> rd_u32 r;
       (children, r) \<leftarrow> rd_n decode_child (unat nc) r;
       rd_done r;
       Some (Some \<lparr>rn_values = values, rn_value_tombstones = tombs,
         rn_children = fold (\<lambda>(f, c). oins f c) children [],
         rn_created = created, rn_volatile = volatile, rn_last_write = last_write\<rparr>, version) } }"

section \<open>Requests and short replies\<close>

lemma put_str_end: "rd_str b = Some (p, []) \<longleftrightarrow> ok_str p \<and> b = put_str p"
  by (simp add: strc.dec_iff)

lemmas reg_codec_defs =
  decode_reg_path_def encode_reg_path_def decode_reg_set_value_def encode_reg_set_value_def
  decode_reg_delete_value_def encode_reg_delete_value_def decode_reg_create_key_def
  encode_reg_create_key_def decode_reg_rename_key_def encode_reg_rename_key_def
  decode_reg_changed_def encode_reg_changed_def decode_reg_changed_reply_def
  encode_reg_changed_reply_def decode_reg_version_reply_def encode_reg_version_reply_def
  decode_reg_lookup_reply_def encode_reg_lookup_reply_def

text \<open>C23. Each registry request decoder accepts exactly the bytes its encoder writes for
  arguments within the limits (valid strings that fit their prefix, value names up to 16383 and
  key names up to 255 UTF-16 units, data up to one MiB): nothing truncated, nothing trailing, no
  second spelling of the same request.\<close>

theorem reg_requests_exact:
  "(decode_reg_path b = Some p \<longleftrightarrow> ok_str p \<and> b = encode_reg_path p) \<and>
   (decode_reg_set_value b = Some (p, n, ty, d) \<longleftrightarrow>
      ok_str p \<and> ok_str_max MAX_VALUE_NAME n \<and> ok_bytes MAX_DATA d \<and> b = encode_reg_set_value p n ty d) \<and>
   (decode_reg_delete_value b = Some (p, n) \<longleftrightarrow>
      ok_str p \<and> ok_str_max MAX_VALUE_NAME n \<and> b = encode_reg_delete_value p n) \<and>
   (decode_reg_create_key b = Some (p, v) \<longleftrightarrow> ok_str p \<and> b = encode_reg_create_key p v) \<and>
   (decode_reg_rename_key b = Some (p, n) \<longleftrightarrow>
      ok_str p \<and> ok_str_max MAX_KEY_NAME n \<and> b = encode_reg_rename_key p n) \<and>
   (decode_reg_changed b = Some (p, v, since) \<longleftrightarrow> ok_str p \<and> b = encode_reg_changed p v since)"
  unfolding reg_codec_defs
  by (intro conjI) (auto simp: codec_iffs enc_bytes_def)

lemma lookup_reply_exact:
  "decode_reg_lookup_reply b = Some (st, below, v) \<longleftrightarrow> st \<le> 3 \<and> b = encode_reg_lookup_reply st below v"
proof
  assume "decode_reg_lookup_reply b = Some (st, below, v)"
  then show "st \<le> 3 \<and> b = encode_reg_lookup_reply st below v"
    by (auto simp: reg_codec_defs codec_iffs split: if_splits)
next
  assume "st \<le> 3 \<and> b = encode_reg_lookup_reply st below v"
  then show "decode_reg_lookup_reply b = Some (st, below, v)"
    using boolc.dec_iff [of "enc_bool below" below "[]"]
    by (auto simp: reg_codec_defs codec_simps rd_done_def not_less)
qed

text \<open>The short registry replies are exact in the same sense; a lookup reply carries one of
  the four states.\<close>

theorem reg_replies_exact:
  "(decode_reg_changed_reply b = Some (c, v) \<longleftrightarrow> b = encode_reg_changed_reply c v) \<and>
   (decode_reg_version_reply b = Some v \<longleftrightarrow> b = encode_reg_version_reply v) \<and>
   (decode_reg_lookup_reply b = Some (st, below, v) \<longleftrightarrow> st \<le> 3 \<and> b = encode_reg_lookup_reply st below v)"
proof (intro conjI)
  show "decode_reg_changed_reply b = Some (c, v) \<longleftrightarrow> b = encode_reg_changed_reply c v"
    and "decode_reg_version_reply b = Some v \<longleftrightarrow> b = encode_reg_version_reply v"
    by (auto simp: reg_codec_defs codec_iffs)
qed (rule lookup_reply_exact)

section \<open>The key reply\<close>

definition ok_value :: "reg_value \<Rightarrow> bool" where
  "ok_value v \<longleftrightarrow> ok_str_max MAX_VALUE_NAME (rv_name v) \<and> ok_bytes MAX_DATA (rv_data v)"

definition ok_child :: "rstr \<times> rstr \<times> reg_child \<Rightarrow> bool" where
  "ok_child c = (case c of (folded, spelling, state) \<Rightarrow>
     ok_str_max MAX_KEY_NAME folded \<and> ok_str_max MAX_KEY_NAME spelling)"

interpretation valuec: strict_codec encode_value decode_value ok_value
proof unfold_locales
  fix b :: bytes and x :: reg_value and r :: bytes
  show "decode_value b = Some (x, r) \<longleftrightarrow> ok_value x \<and> b = encode_value x @ r"
    by (cases x) (auto simp: decode_value_def encode_value_def ok_value_def codec_iffs enc_bytes_def)
qed

lemma decode_child_split:
  "decode_child b = Some (c, r) \<longleftrightarrow> (\<exists>f s st x. c = (f, s, st) \<and> ok_str_max MAX_KEY_NAME f \<and>
     ok_str_max MAX_KEY_NAME s \<and> b = put_str f @ put_str s @ x # r \<and>
     (x = 0 \<and> st = CPresent \<or> x = 1 \<and> st = CTombstone))"
proof (cases "rd_str_max MAX_KEY_NAME b")
  case None
  then show ?thesis
    using strmc.dec_iff [of MAX_KEY_NAME b] by (auto simp: decode_child_def)
next
  case (Some fq)
  obtain f q where fq: "rd_str_max MAX_KEY_NAME b = Some (f, q)" using Some by (cases fq) auto
  then have b: "ok_str_max MAX_KEY_NAME f" "b = put_str f @ q" by (simp_all add: strmc.dec_iff)
  have uf: "f' = f \<and> q' = q" if "ok_str_max MAX_KEY_NAME f'" "b = put_str f' @ q'" for f' q'
    using strmc.enc_inj [OF that(1) b(1)] that(2) b(2) by blast
  have "decode_child b = Some (c, r) \<longleftrightarrow> (\<exists>s st x. c = (f, s, st) \<and> ok_str_max MAX_KEY_NAME s \<and>
      q = put_str s @ x # r \<and> (x = 0 \<and> st = CPresent \<or> x = 1 \<and> st = CTombstone))"
  proof
    assume "decode_child b = Some (c, r)"
    then show "\<exists>s st x. c = (f, s, st) \<and> ok_str_max MAX_KEY_NAME s \<and>
      q = put_str s @ x # r \<and> (x = 0 \<and> st = CPresent \<or> x = 1 \<and> st = CTombstone)"
      by (auto simp: decode_child_def fq codec_iffs split: if_splits)
  qed (auto simp: decode_child_def fq codec_simps)
  with b uf show ?thesis by blast
qed

interpretation childc: strict_codec encode_child decode_child ok_child
proof unfold_locales
  fix b :: bytes and c :: "rstr \<times> rstr \<times> reg_child" and r :: bytes
  show "decode_child b = Some (c, r) \<longleftrightarrow> ok_child c \<and> b = encode_child c @ r"
    unfolding decode_child_split
    by (cases c) (auto simp: ok_child_def encode_child_def split: reg_child.splits)
qed

definition ok_node :: "reg_node \<Rightarrow> bool" where
  "ok_node n \<longleftrightarrow> list_all ok_value (rn_values n) \<and> length (rn_values n) < 2 ^ 32 \<and>
     list_all (ok_str_max MAX_VALUE_NAME) (rn_value_tombstones n) \<and> length (rn_value_tombstones n) < 2 ^ 32 \<and>
     list_all ok_child (rn_children n) \<and> length (rn_children n) < 2 ^ 32 \<and> ordered (rn_children n)"

text \<open>Inserting the items of an ordered list one by one rebuilds the list.\<close>

lemma fold_oins_map_of:
  "distinct (map fst cs) \<Longrightarrow> map_of (fold (\<lambda>(f, c). oins f c) cs m) = map_of m ++ map_of cs"
proof (induction cs arbitrary: m)
  case (Cons fc cs)
  obtain f c where fc: "fc = (f, c)" by (cases fc)
  with Cons have "map_of cs f = None" by (simp add: map_of_eq_None_iff)
  with Cons fc show ?case by (auto simp: fun_eq_iff map_add_def split: option.splits)
qed simp

lemma fold_oins_ordered: "ordered m \<Longrightarrow> ordered (fold (\<lambda>(f, c). oins f c) cs m)"
  by (induction cs arbitrary: m) auto

lemma fold_oins_id: "ordered cs \<Longrightarrow> fold (\<lambda>(f, c). oins f c) cs [] = cs"
  by (rule ordered_eqI) (auto simp: fold_oins_ordered fold_oins_map_of ordered_distinct)

lemma one_bool: "[1] = enc_bool True" "[0] = enc_bool False"
  by (simp_all add: enc_bool_def)



text \<open>A child whose folded name is longer than a key name may be makes the whole reply
  unreadable.\<close>

lemma reg_key_reply_long_child:
  assumes "ok_node (n\<lparr>rn_children := []\<rparr>)" and "rn_children n = (f, c) # cs"
    and "length cs < 2 ^ 32 - 1" and "ok_str f" and "MAX_KEY_NAME < utf16_len f"
  shows "decode_reg_key_reply (encode_reg_key_reply (Some n) v) = None"
proof -
  have r: "rd_n decode_value (length (rn_values n)) (concat (map encode_value (rn_values n)) @ r) = Some (rn_values n, r)"
    "rd_n (rd_str_max MAX_VALUE_NAME) (length (rn_value_tombstones n))
       (concat (map put_str (rn_value_tombstones n)) @ r) = Some (rn_value_tombstones n, r)" for r
    using assms(1) by (simp_all add: ok_node_def valuec.dec_enc_list strmc.dec_enc_list)
  have k: "encode_child (f, c) = put_str f @ (case c of (s, st) \<Rightarrow> put_str s @ [case st of CPresent \<Rightarrow> 0 | CTombstone \<Rightarrow> 1])"
    by (cases c) (simp add: encode_child_def)
  have "rd_str_max MAX_KEY_NAME (put_str f @ q) = None" for q
    using assms(4,5) by (simp add: rd_str_max_def codec_simps)
  then have none: "rd_n decode_child (Suc (length cs)) (concat (map encode_child ((f, c) # cs))) = None"
    by (simp add: decode_child_def k)
  have len: "unat (word_of_nat (Suc (length cs)) :: u32) = Suc (length cs)"
    using assms(3) by (intro unat_of_nat_u32) simp
  show ?thesis
    unfolding decode_reg_key_reply_def encode_reg_key_reply_def option.case one_bool assms(2)
    using assms(1) len none by (simp add: ok_node_def codec_simps r del: rd_n.simps of_nat_Suc list.map concat.simps)
qed

end
