(* ===== verification/Shimcfg.thy ===== *)
theory Shimcfg
  imports Wire
begin

text \<open>
  The bootstrap configuration of the injected library (\<^verbatim>\<open>vfs-protocol/src/shimcfg.rs\<close>): a magic, a
  version, the root and the static-import table. This decoder works with offsets into the whole
  buffer; it is related to the cursor of \<open>Wire\<close>. Offsets are 64 bits wide, and an addition that
  leaves them is the \<open>None\<close> of \<^verbatim>\<open>checked_add\<close>.
\<close>

record static_import =
  dll_name :: rstr
  backing_path :: rstr

record shim_config =
  sc_root :: rstr
  sc_static_imports :: "static_import list"

datatype config_error = Unversioned | Version u32 u32 | Malformed

definition CONFIG_MAGIC :: bytes where "CONFIG_MAGIC = [86, 70, 83, 67]"
definition CONFIG_VERSION :: u32 where "CONFIG_VERSION = 2"

definition encode_import :: "static_import \<Rightarrow> bytes" where
  "encode_import e =
     u32_le (word_of_nat (length (utf8 (dll_name e)))) @ utf8 (dll_name e) @
     u32_le (word_of_nat (length (utf8 (backing_path e)))) @ utf8 (backing_path e)"

definition encode_config_full :: "rstr \<Rightarrow> static_import list \<Rightarrow> bytes" where
  "encode_config_full root imports =
     CONFIG_MAGIC @ u32_le CONFIG_VERSION @
     u32_le (word_of_nat (length (utf8 root))) @ utf8 root @
     u32_le (word_of_nat (length imports)) @ concat (map encode_import imports)"

definition encode_config :: "rstr \<Rightarrow> bytes" where
  "encode_config root = encode_config_full root []"

text \<open>\<^verbatim>\<open>usize::checked_add\<close> and \<^verbatim>\<open><[u8]>::get\<close> with a range.\<close>

definition checked_add :: "nat \<Rightarrow> nat \<Rightarrow> nat option" where
  "checked_add a b = (if a + b < 2 ^ 64 then Some (a + b) else None)"

definition get_range :: "bytes \<Rightarrow> nat \<Rightarrow> nat \<Rightarrow> bytes option" where
  "get_range b s e = (if s \<le> e \<and> e \<le> length b then Some (take (e - s) (drop s b)) else None)"

definition read_u32 :: "bytes \<Rightarrow> nat \<Rightarrow> u32 option" where
  "read_u32 b off = do {
     e \<leftarrow> checked_add off 4;
     h \<leftarrow> get_range b off e;
     Some (le_u32 h) }"

definition read_field :: "bytes \<Rightarrow> nat \<Rightarrow> (rstr \<times> nat) option" where
  "read_field b off = do {
     len \<leftarrow> read_u32 b off;
     let start = off + 4;
     e \<leftarrow> checked_add start (unat len);
     h \<leftarrow> get_range b start e;
     s \<leftarrow> from_utf8 h;
     Some (s, e) }"

fun read_imports :: "bytes \<Rightarrow> nat \<Rightarrow> nat \<Rightarrow> static_import list \<Rightarrow> (static_import list \<times> nat) option" where
  "read_imports b 0 off out = Some (out, off)"
| "read_imports b (Suc n) off out = do {
     (nm, o1) \<leftarrow> read_field b off;
     (bp, o2) \<leftarrow> read_field b o1;
     read_imports b n o2 (out @ [\<lparr>dll_name = nm, backing_path = bp\<rparr>]) }"

definition decode_v2_body :: "bytes \<Rightarrow> shim_config option" where
  "decode_v2_body b = do {
     (root, off) \<leftarrow> read_field b 0;
     n \<leftarrow> read_u32 b off;
     (imports, off) \<leftarrow> read_imports b (unat n) (off + 4) [];
     if off = length b then Some \<lparr>sc_root = root, sc_static_imports = imports\<rparr> else None }"

definition decode_config :: "bytes \<Rightarrow> config_error + shim_config" where
  "decode_config b =
     (if length b < 4 then Inl Malformed
      else if take 4 b \<noteq> CONFIG_MAGIC then Inl Unversioned
      else rbind (ok_or Malformed (read_u32 b 4)) (\<lambda>found.
        if found \<noteq> CONFIG_VERSION then Inl (Version found CONFIG_VERSION)
        else ok_or Malformed (decode_v2_body (drop 8 b))))"

section \<open>Offsets and the cursor\<close>

text \<open>The offset after a read that leaves \<open>r\<close> of the buffer \<open>b\<close>.\<close>

definition at_rest :: "bytes \<Rightarrow> ('a \<times> bytes) option \<Rightarrow> ('a \<times> nat) option" where
  "at_rest b = map_option (\<lambda>(x, r). (x, length b - length r))"

lemma read_u32_eq:
  assumes "off \<le> length b" and "length b < 2 ^ 63"
  shows "read_u32 b off = map_option fst (rd_u32 (drop off b))"
  using assms
  by (auto simp: read_u32_def rd_u32_def rd_take_def checked_add_def get_range_def)

lemma read_u32_bound: "read_u32 b off = Some n \<Longrightarrow> off + 4 \<le> length b"
  by (auto simp: read_u32_def get_range_def checked_add_def bind_eq_Some_conv split: if_splits)

lemma drop_at_rest: "drop (length b - length r) (a @ r) = r" if "length b = length (a @ r)"
  using that by simp

lemma read_field_eq:
  assumes "off \<le> length b" and "length b < 2 ^ 63"
  shows "read_field b off = at_rest b (rd_str (drop off b))"
proof (cases "rd_u32 (drop off b)")
  case None
  with read_u32_eq [OF assms] show ?thesis by (simp add: read_field_def rd_str_def at_rest_def)
next
  case (Some nr)
  obtain n r where nr: "rd_u32 (drop off b) = Some (n, r)" using Some by (cases nr) auto
  then have u: "read_u32 b off = Some n" using read_u32_eq [OF assms] by simp
  have d: "drop off b = u32_le n @ r" using nr by (simp add: u32c.dec_iff)
  then have r: "r = drop (off + 4) b" by (metis append_eq_conv_conj drop_drop length_u32_le add.commute)
  have off: "off + 4 \<le> length b" using read_u32_bound [OF u] .
  show ?thesis
  proof (cases "length r < unat n")
    case True
    with u nr off assms(2) r show ?thesis
      by (simp add: read_field_def rd_str_def at_rest_def rd_take_def checked_add_def get_range_def Let_def)
  next
    case False
    then have "checked_add (off + 4) (unat n) = Some (off + 4 + unat n)"
      using off assms(2) r by (simp add: checked_add_def)
    with False u nr off r show ?thesis
      by (cases "from_utf8 (take (unat n) (drop (off + 4) b))")
        (auto simp: read_field_def rd_str_def at_rest_def rd_take_def get_range_def Let_def add.commute)
  qed
qed

lemma at_rest_rest:
  assumes "\<exists>a. drop off b = a @ r" and "off \<le> length b"
  shows "drop (length b - length r) b = r" and "length b - length r \<le> length b"
proof -
  obtain a where "drop off b = a @ r" using assms(1) by blast
  then have "b = (take off b @ a) @ r" by (metis append.assoc append_take_drop_id)
  then show "drop (length b - length r) b = r" by (metis append_eq_conv_conj length_append add_diff_cancel_right')
qed simp

lemma rd_str_rest: "rd_str b = Some (s, r) \<Longrightarrow> \<exists>a. b = a @ r"
  by (auto simp: strc.dec_iff)

section \<open>The import table\<close>

definition decode_import :: "static_import rd" where
  "decode_import b = do {
     (nm, r) \<leftarrow> rd_str b;
     (bp, r) \<leftarrow> rd_str r;
     Some (\<lparr>dll_name = nm, backing_path = bp\<rparr>, r) }"

definition ok_import :: "static_import \<Rightarrow> bool" where
  "ok_import e \<longleftrightarrow> ok_str (dll_name e) \<and> ok_str (backing_path e)"

interpretation importc: strict_codec encode_import decode_import ok_import
proof unfold_locales
  fix b :: bytes and e :: static_import and r :: bytes
  show "decode_import b = Some (e, r) \<longleftrightarrow> ok_import e \<and> b = encode_import e @ r"
    by (cases e) (auto simp: decode_import_def encode_import_def ok_import_def codec_iffs put_str_def)
qed

lemma read_imports_eq:
  assumes "off \<le> length b" and "length b < 2 ^ 63"
  shows "read_imports b n off out =
    map_option (\<lambda>(xs, o'). (out @ xs, o')) (at_rest b (rd_n decode_import n (drop off b)))"
  using assms
proof (induction n arbitrary: off out)
  case 0
  then show ?case by (simp add: at_rest_def)
next
  case (Suc n)
  show ?case
  proof (cases "rd_str (drop off b)")
    case None
    with read_field_eq [OF Suc.prems] show ?thesis by (simp add: at_rest_def decode_import_def)
  next
    case (Some p1)
    obtain nm r1 where r1: "rd_str (drop off b) = Some (nm, r1)" using Some by (cases p1) auto
    note a1 = at_rest_rest [OF rd_str_rest [OF r1] Suc.prems(1)]
    have f1: "read_field b off = Some (nm, length b - length r1)"
      using read_field_eq [OF Suc.prems] r1 by (simp add: at_rest_def)
    have f2: "read_field b (length b - length r1) = at_rest b (rd_str r1)"
      using read_field_eq [OF a1(2) Suc.prems(2)] a1(1) by simp
    show ?thesis
    proof (cases "rd_str r1")
      case None
      with f1 f2 r1 show ?thesis by (simp add: at_rest_def decode_import_def)
    next
      case (Some p2)
      obtain bp r2 where r2: "rd_str r1 = Some (bp, r2)" using Some by (cases p2) auto
      have "\<exists>a. drop (length b - length r1) b = a @ r2" using rd_str_rest [OF r2] a1(1) by simp
      note a2 = at_rest_rest [OF this a1(2)]
      have "read_imports b (Suc n) off out =
          read_imports b n (length b - length r2) (out @ [\<lparr>dll_name = nm, backing_path = bp\<rparr>])"
        using f1 f2 r2 by (simp add: at_rest_def)
      also have "\<dots> = map_option (\<lambda>(xs, o'). (out @ \<lparr>dll_name = nm, backing_path = bp\<rparr> # xs, o'))
          (at_rest b (rd_n decode_import n r2))"
        using Suc.IH [OF a2(2) Suc.prems(2)] a2(1) by simp
      also have "\<dots> = map_option (\<lambda>(xs, o'). (out @ xs, o')) (at_rest b (rd_n decode_import (Suc n) (drop off b)))"
      proof -
        have "decode_import (drop off b) = Some (\<lparr>dll_name = nm, backing_path = bp\<rparr>, r2)"
          using r1 r2 by (simp add: decode_import_def)
        then show ?thesis by (cases "rd_n decode_import n r2") (auto simp: at_rest_def)
      qed
      finally show ?thesis .
    qed
  qed
qed

section \<open>The whole configuration\<close>

definition ok_config :: "shim_config \<Rightarrow> bool" where
  "ok_config c \<longleftrightarrow> ok_str (sc_root c) \<and> list_all ok_import (sc_static_imports c) \<and>
     length (sc_static_imports c) < 2 ^ 32"

lemma decode_v2_body_cursor:
  assumes "length b < 2 ^ 63"
  shows "decode_v2_body b = do {
     (root, r) \<leftarrow> rd_str b;
     (n, r) \<leftarrow> rd_u32 r;
     (imports, r) \<leftarrow> rd_n decode_import (unat n) r;
     if r = [] then Some \<lparr>sc_root = root, sc_static_imports = imports\<rparr> else None }"
proof (cases "rd_str b")
  case None
  then show ?thesis using read_field_eq [of 0 b] assms by (simp add: decode_v2_body_def at_rest_def)
next
  case (Some p1)
  obtain root r1 where r1: "rd_str b = Some (root, r1)" using Some by (cases p1) auto
  have "\<exists>a. drop 0 b = a @ r1" using rd_str_rest [OF r1] by simp
  note a1 = at_rest_rest [OF this, simplified]
  have f1: "read_field b 0 = Some (root, length b - length r1)"
    using read_field_eq [of 0 b] r1 assms by (simp add: at_rest_def)
  have f2: "read_u32 b (length b - length r1) = map_option fst (rd_u32 r1)"
    using read_u32_eq [of "length b - length r1" b] assms a1 by simp
  show ?thesis
  proof (cases "rd_u32 r1")
    case None
    with f1 f2 r1 show ?thesis by (simp add: decode_v2_body_def)
  next
    case (Some p2)
    obtain n r2 where r2: "rd_u32 r1 = Some (n, r2)" using Some by (cases p2) auto
    then have e: "r1 = u32_le n @ r2" by (simp add: u32c.dec_iff)
    have le: "length r1 \<le> length b" using rd_str_rest [OF r1] by auto
    then have off: "length b - length r1 + 4 = length b - length r2" using e by simp
    have "\<exists>a. drop 0 b = a @ r2" using rd_str_rest [OF r1] e by (metis append.assoc drop0)
    note a2 = at_rest_rest [OF this, simplified]
    have f3: "read_imports b (unat n) (length b - length r2) [] = at_rest b (rd_n decode_import (unat n) r2)"
      using read_imports_eq [of "length b - length r2" b "unat n" "[]"] assms a2
      by (simp add: option.map_ident_strong case_prod_beta)
    have rest: "length b - length r = length b \<longleftrightarrow> r = []" if "rd_n decode_import (unat n) r2 = Some (xs, r)" for xs r
    proof -
      have "length r \<le> length b" using that le e by (auto simp: importc.dec_list_iff)
      then show ?thesis by (cases r) auto
    qed
    show ?thesis
      using f1 f2 r1 r2 f3 off rest
      by (cases "rd_n decode_import (unat n) r2") (auto simp: decode_v2_body_def at_rest_def)
  qed
qed

lemma decode_v2_body_iff:
  assumes "length b < 2 ^ 63"
  shows "decode_v2_body b = Some c \<longleftrightarrow> ok_config c \<and>
    b = put_str (sc_root c) @ u32_le (word_of_nat (length (sc_static_imports c))) @
      concat (map encode_import (sc_static_imports c))"
proof -
  have "decode_v2_body b = Some c \<longleftrightarrow> (\<exists>root n xs. ok_str root \<and> unat n = length xs \<and> list_all ok_import xs \<and>
      b = put_str root @ u32_le n @ concat (map encode_import xs) \<and> c = \<lparr>sc_root = root, sc_static_imports = xs\<rparr>)"
    (is "?L \<longleftrightarrow> ?R")
  proof
    assume ?L
    then show ?R
      unfolding decode_v2_body_cursor [OF assms]
      by (auto simp: bind_eq_Some_conv strc.dec_iff u32c.dec_iff importc.dec_list_iff split: if_splits)
  next
    assume ?R
    then obtain root n xs where "ok_str root" "unat n = length xs" "list_all ok_import xs"
      "b = put_str root @ u32_le n @ concat (map encode_import xs)" "c = \<lparr>sc_root = root, sc_static_imports = xs\<rparr>"
      by blast
    with importc.dec_enc_list [of xs "[]"] show ?L
      unfolding decode_v2_body_cursor [OF assms] by (simp add: codec_simps)
  qed
  then show ?thesis
    unfolding len_u32 ok_config_def by (cases c) auto
qed

lemma length_le_4: "4 \<le> length b \<Longrightarrow> take 4 b = m \<longleftrightarrow> (\<exists>r. b = m @ r \<and> length m = 4)"
  by (metis append_eq_conv_conj append_take_drop_id length_take min.absorb2)

text \<open>C27. The configuration decoder accepts exactly the bytes the encoder writes for a
  configuration whose strings and table fit their 32-bit prefixes. Of the rest, a buffer without
  the magic is reported as unversioned when it is long enough to hold it, one with another
  version by both versions, and everything else as malformed.\<close>

theorem decode_config_spec:
  assumes "length b < 2 ^ 63"
  shows "(decode_config b = Inr c \<longleftrightarrow>
      ok_config c \<and> b = encode_config_full (sc_root c) (sc_static_imports c)) \<and>
    (decode_config b = Inl Unversioned \<longleftrightarrow> 4 \<le> length b \<and> take 4 b \<noteq> CONFIG_MAGIC) \<and>
    (decode_config b = Inl (Version found expected) \<longleftrightarrow> expected = CONFIG_VERSION \<and>
      found \<noteq> CONFIG_VERSION \<and> (\<exists>r. b = CONFIG_MAGIC @ u32_le found @ r))"
proof (cases "4 \<le> length b \<and> take 4 b = CONFIG_MAGIC")
  case False
  have m: "b \<noteq> CONFIG_MAGIC @ r" for r
    using False by (auto simp: CONFIG_MAGIC_def)
  with False show ?thesis
    by (auto simp: decode_config_def encode_config_full_def not_le)
next
  case True
  then obtain r where b: "b = CONFIG_MAGIC @ r" using length_le_4 by blast
  have l4: "length CONFIG_MAGIC = 4" by (simp add: CONFIG_MAGIC_def)
  have u: "read_u32 b 4 = map_option fst (rd_u32 r)"
    using read_u32_eq [of 4 b] assms b l4 by simp
  show ?thesis
  proof (cases "rd_u32 r")
    case None
    then have "r \<noteq> u32_le x @ q" for x q by (metis option.discI u32c.dec_enc)
    with True None u b show ?thesis by (auto simp: decode_config_def encode_config_full_def)
  next
    case (Some p)
    obtain x q where x: "rd_u32 r = Some (x, q)" using Some by (cases p) auto
    then have r: "r = u32_le x @ q" by (simp add: u32c.dec_iff)
    have d8: "drop 8 b = q" using b r l4 by simp
    have inj: "u32_le x @ q = u32_le y @ q' \<longleftrightarrow> x = y \<and> q = q'" for y q'
      using u32c.enc_inj [of x q y q'] by auto
    have "length q < 2 ^ 63" using assms d8 by (metis diff_le_self le_less_trans length_drop)
    note body = decode_v2_body_iff [OF this]
    have dc: "decode_config b = (if x \<noteq> CONFIG_VERSION then Inl (Version x CONFIG_VERSION)
        else ok_or Malformed (decode_v2_body q))"
      using True u x d8 by (simp add: decode_config_def ok_or_def)
    have eb: "b = encode_config_full root xs \<longleftrightarrow> x = CONFIG_VERSION \<and>
        q = put_str root @ u32_le (word_of_nat (length xs)) @ concat (map encode_import xs)" for root xs
      unfolding b r by (simp add: encode_config_full_def put_str_def inj)
    have ev: "(\<exists>q'. b = CONFIG_MAGIC @ u32_le found @ q') \<longleftrightarrow> x = found"
      unfolding b r by (auto simp: inj)
    show ?thesis
      using True body [of c] unfolding dc eb ev
      by (cases "decode_v2_body q") (auto simp: ok_or_def)
  qed
qed

theorem decode_config_spec_witness:
  "decode_config (encode_config_full [67] [\<lparr>dll_name = [100], backing_path = [98]\<rparr>]) =
     Inr \<lparr>sc_root = [67], sc_static_imports = [\<lparr>dll_name = [100], backing_path = [98]\<rparr>]\<rparr>"
proof -
  let ?c = "\<lparr>sc_root = [67], sc_static_imports = [\<lparr>dll_name = [100], backing_path = [98]\<rparr>]\<rparr>"
  have ok: "ok_config ?c"
    by (simp add: ok_config_def ok_import_def ok_str_def valid_char_def utf8_char_def)
  have "length (encode_config_full [67] [\<lparr>dll_name = [100], backing_path = [98]\<rparr>]) < 2 ^ 63"
    by (simp add: encode_config_full_def encode_import_def CONFIG_MAGIC_def utf8_char_def)
  from decode_config_spec [OF this, of ?c] ok show ?thesis by simp
qed

end
