(* ===== verification/Source_Blob.thy ===== *)
theory Source_Blob
  imports Ustring
begin

text \<open>
  The tagged encoding of a file node's source (\<^verbatim>\<open>vfs-core/src/source.rs\<close>): a raw disk path, or a
  window into a stored archive entry marked by a leading NUL.
\<close>

definition ZIP_TAG :: u8 where "ZIP_TAG = 0"

datatype source = Disk bytes | ZipWindow u64 bytes

definition encode_zip_window :: "u64 \<Rightarrow> rstr \<Rightarrow> bytes" where
  "encode_zip_window offset container = ZIP_TAG # u64_le offset @ utf8 container"

definition decode_source :: "bytes \<Rightarrow> source" where
  "decode_source blob =
     (if blob \<noteq> [] \<and> hd blob = ZIP_TAG \<and> 9 \<le> length blob
      then ZipWindow (le_u64 (take 8 (drop 1 blob))) (drop 9 blob)
      else Disk blob)"

text \<open>A zip window decodes to the offset and container it was made from, and a blob decodes
  to a window exactly when it is such an encoding byte for byte: everything else, a short or
  empty blob and any disk path without a leading NUL, stays the disk path it is.\<close>

theorem source_roundtrip:
  "decode_source (encode_zip_window off c) = ZipWindow off (utf8 c) \<and>
   (decode_source blob = ZipWindow off w \<longleftrightarrow> blob = ZIP_TAG # u64_le off @ w) \<and>
   (decode_source blob = Disk p \<longleftrightarrow> blob = p \<and> (blob = [] \<or> hd blob \<noteq> ZIP_TAG \<or> length blob < 9))"
proof (intro conjI)
  show "decode_source (encode_zip_window off c) = ZipWindow off (utf8 c)"
    by (simp add: decode_source_def encode_zip_window_def)
  show "decode_source blob = ZipWindow off w \<longleftrightarrow> blob = ZIP_TAG # u64_le off @ w"
  proof
    assume "decode_source blob = ZipWindow off w"
    then have z: "blob \<noteq> []" "hd blob = ZIP_TAG" "9 \<le> length blob"
      "le_u64 (take 8 (drop 1 blob)) = off" "drop 9 blob = w"
      by (auto simp: decode_source_def split: if_splits)
    then obtain r where r: "blob = ZIP_TAG # r" by (cases blob) auto
    with z have "u64_le off = take 8 r" "w = drop 8 r" by (auto simp: u64_le_le_u64)
    with r show "blob = ZIP_TAG # u64_le off @ w" by simp
  qed (simp add: decode_source_def)
  show "decode_source blob = Disk p \<longleftrightarrow> blob = p \<and> (blob = [] \<or> hd blob \<noteq> ZIP_TAG \<or> length blob < 9)"
    by (auto simp: decode_source_def)
qed

theorem source_roundtrip_witness:
  "decode_source (encode_zip_window 7 [99]) = ZipWindow 7 (utf8 [99]) \<and>
   decode_source [1, 0] = Disk [1, 0]"
proof -
  have "hd [1, 0] \<noteq> ZIP_TAG" by (simp add: ZIP_TAG_def)
  then show ?thesis
    using source_roundtrip [of 7 "[99]" "[1, 0]" "[]" "[1, 0]"] by simp
qed

end
