(* ===== verification/Reg_Path.thy ===== *)
theory Reg_Path
  imports Reg_Types Vpath
begin

text \<open>
  Registry key paths (\<^verbatim>\<open>vfs-registry/src/path.rs\<close>): the canonical form under \<open>\Registry\<close>, the user's
  SID replaced by a symbol and back, and taking paths apart. A path that passes the overlay's
  \<^verbatim>\<open>valid_path\<close> is a list of names each led by a backslash (\<open>mkpath\<close>).
\<close>

section \<open>Definitions\<close>

definition CURRENT_USER :: rstr where "CURRENT_USER = lit ''<CurrentUser>''"
definition CLASSES :: rstr where "CLASSES = lit ''_Classes''"

datatype reg_path_error = NotRegistry | RBadComponent

definition sid_to_symbol :: "rstr \<Rightarrow> rstr option \<Rightarrow> rstr" where
  "sid_to_symbol part user_sid = (case user_sid of
     Some sid \<Rightarrow>
       (let f = cfold part; fs = cfold sid in
        if f = fs then CURRENT_USER
        else if f = fs @ cfold CLASSES then CURRENT_USER @ CLASSES
        else part)
   | None \<Rightarrow> part)"

fun canonical_loop :: "rstr option \<Rightarrow> nat \<Rightarrow> bool \<Rightarrow> rstr \<Rightarrow> rstr list \<Rightarrow> rstr" where
  "canonical_loop user_sid i user_hive out [] = out"
| "canonical_loop user_sid i user_hive out (part # parts) =
     (let out = out @ [backslash] in
      if i = 0 then
        (let f = cfold part in
         canonical_loop user_sid (i + 1) (f = lit ''user'')
           (out @ (if f = lit ''machine'' then lit ''Machine''
                   else if f = lit ''user'' then lit ''User'' else part)) parts)
      else if i = 1 \<and> user_hive then
        canonical_loop user_sid (i + 1) user_hive (out @ sid_to_symbol part user_sid) parts
      else canonical_loop user_sid (i + 1) user_hive (out @ part) parts)"

definition reg_canonical :: "rstr \<Rightarrow> rstr option \<Rightarrow> reg_path_error + rstr" where
  "reg_canonical nt_path user_sid =
     (case filter (\<lambda>p. p \<noteq> []) (split_on ((=) backslash) nt_path) of
        p # parts \<Rightarrow>
          (if prefix [backslash] nt_path \<and> cfold p = lit ''registry''
           then Inr (canonical_loop user_sid 0 False (backslash # lit ''Registry'') parts)
           else Inl NotRegistry)
      | [] \<Rightarrow> Inl NotRegistry)"

definition to_nt_part :: "rstr option \<Rightarrow> bool \<Rightarrow> nat \<Rightarrow> rstr \<Rightarrow> rstr" where
  "to_nt_part user_sid user_hive i part =
     (if i = 1 \<and> cfold part = lit ''registry'' then lit ''REGISTRY''
      else if i = 2 \<and> cfold part = lit ''machine'' then lit ''MACHINE''
      else if i = 2 \<and> cfold part = lit ''user'' then lit ''USER''
      else (case user_sid of
        Some sid \<Rightarrow>
          (if i = 3 \<and> user_hive \<and> part = CURRENT_USER then sid
           else if i = 3 \<and> user_hive \<and> part = CURRENT_USER @ CLASSES then sid @ CLASSES
           else part)
      | None \<Rightarrow> part))"

fun to_nt_loop :: "rstr option \<Rightarrow> bool \<Rightarrow> nat \<Rightarrow> rstr list \<Rightarrow> rstr" where
  "to_nt_loop user_sid user_hive i [] = []"
| "to_nt_loop user_sid user_hive i (part # parts) =
     (if i > 0 then [backslash] else []) @ to_nt_part user_sid user_hive i part @
     to_nt_loop user_sid user_hive (i + 1) parts"

definition to_nt :: "rstr \<Rightarrow> rstr option \<Rightarrow> rstr" where
  "to_nt p user_sid =
     (let parts = split_on ((=) backslash) p;
          user_hive = (2 < length parts \<and> cfold (parts ! 2) = lit ''user'') in
      to_nt_loop user_sid user_hive 0 parts)"

definition parent :: "rstr \<Rightarrow> rstr option" where
  "parent p = (case rsplit_once backslash p of
     None \<Rightarrow> None | Some (a, b) \<Rightarrow> (if a = [] then None else Some a))"

definition leaf :: "rstr \<Rightarrow> rstr" where
  "leaf p = last (split_on ((=) backslash) p)"

definition join_path :: "rstr \<Rightarrow> rstr \<Rightarrow> reg_path_error + rstr" where
  "join_path base rel =
     (if list_ex (\<lambda>p. p = [] \<or> p = dot \<or> p = dotdot) (split_on ((=) backslash) rel)
      then Inl RBadComponent else Inr (base @ [backslash] @ rel))"

definition is_virtualised :: "rstr \<Rightarrow> bool" where
  "is_virtualised p =
     (let f = cfold p in
      list_ex (\<lambda>h. f = h \<or> prefix (h @ [backslash]) f)
        [backslash # lit ''registry'' @ backslash # lit ''machine'',
         backslash # lit ''registry'' @ backslash # lit ''user''])"

definition valid_path :: "rstr \<Rightarrow> bool" where
  "valid_path p =
     (case split_on ((=) backslash) p of
        a # r # rest \<Rightarrow> a = [] \<and> cfold r = lit ''registry'' \<and> list_all (\<lambda>c. c \<noteq> []) rest
      | _ \<Rightarrow> False)"

section \<open>Paths as lists of names\<close>

definition mkpath :: "rstr list \<Rightarrow> rstr" where
  "mkpath cs = concat (map (\<lambda>c. backslash # c) cs)"

definition name_ok :: "rstr \<Rightarrow> bool" where
  "name_ok c \<longleftrightarrow> c \<noteq> [] \<and> backslash \<notin> set c"

definition pcomps :: "rstr \<Rightarrow> rstr list" where
  "pcomps p = tl (split_on ((=) backslash) p)"

lemma mkpath_simps [simp]:
  "mkpath [] = []" "mkpath (c # cs) = backslash # c @ mkpath cs" "mkpath (cs @ ds) = mkpath cs @ mkpath ds"
  by (simp_all add: mkpath_def)

lemma split_no_sep: "y \<notin> set w \<Longrightarrow> split_on ((=) y) w = [w]"
  by (rule split_on_no_sep) auto

lemma split_mkpath:
  assumes "\<forall>c\<in>set cs. backslash \<notin> set c"
  shows "split_on ((=) backslash) (w @ mkpath cs) = (split_on ((=) backslash) w) @ cs"
  using assms
proof (induction cs arbitrary: w rule: rev_induct)
  case (snoc c cs)
  have "split_on ((=) backslash) (w @ mkpath (cs @ [c])) = split_on ((=) backslash) ((w @ mkpath cs) @ backslash # c)"
    by simp
  also have "\<dots> = split_on ((=) backslash) (w @ mkpath cs) @ split_on ((=) backslash) c"
    by (rule split_on_append_sep) simp
  also have "\<dots> = split_on ((=) backslash) w @ cs @ [c]"
  proof -
    have cs: "\<forall>c\<in>set cs. backslash \<notin> set c" and c: "backslash \<notin> set c" using snoc.prems by auto
    show ?thesis unfolding snoc.IH [OF cs] split_no_sep [OF c] by (rule append_assoc)
  qed
  finally show ?case by (simp only:)
qed simp

lemma split_mkpath0: "\<forall>c\<in>set cs. backslash \<notin> set c \<Longrightarrow> split_on ((=) backslash) (mkpath cs) = [] # cs"
  using split_mkpath [of cs "[]"] by simp

lemma pcomps_mkpath [simp]: "\<forall>c\<in>set cs. backslash \<notin> set c \<Longrightarrow> pcomps (mkpath cs) = cs"
  by (simp add: pcomps_def split_mkpath0)

lemma mkpath_inj:
  "\<forall>c\<in>set cs. backslash \<notin> set c \<Longrightarrow> \<forall>c\<in>set ds. backslash \<notin> set c \<Longrightarrow> mkpath cs = mkpath ds \<longleftrightarrow> cs = ds"
  by (metis pcomps_mkpath)

lemma mkpath_join: "cs \<noteq> [] \<Longrightarrow> mkpath cs = backslash # join_with backslash cs"
proof (induction cs)
  case (Cons c cs)
  then show ?case by (cases cs) auto
qed simp

lemma cfold_mkpath [simp]: "cfold (mkpath cs) = mkpath (map cfold cs)"
  by (induction cs) (auto simp: fixed_char_self)

lemma name_ok_cfold [simp]: "name_ok (cfold c) \<longleftrightarrow> name_ok c"
  by (simp add: name_ok_def fixed_char_in_cfold)

lemma name_ok_no_sep: "list_all name_ok cs \<Longrightarrow> \<forall>c\<in>set cs. backslash \<notin> set c"
  by (auto simp: name_ok_def list_all_iff)

text \<open>A valid path is made of good names, the first of which folds to \<open>registry\<close>.\<close>

definition reg_comps :: "rstr list \<Rightarrow> bool" where
  "reg_comps cs \<longleftrightarrow> cs \<noteq> [] \<and> list_all name_ok cs \<and> cfold (hd cs) = lit ''registry''"

lemma valid_path_iff: "valid_path p \<longleftrightarrow> (\<exists>cs. reg_comps cs \<and> p = mkpath cs)"
proof
  assume v: "valid_path p"
  then obtain r rest where s: "split_on ((=) backslash) p = [] # r # rest"
    and r: "cfold r = lit ''registry''" and rest: "list_all (\<lambda>c. c \<noteq> []) rest"
    by (auto simp: valid_path_def split: list.splits)
  have "p = join_with backslash ([] # r # rest)"
    using join_split [of backslash p] s by simp
  then have p: "p = mkpath (r # rest)" by (simp add: mkpath_join del: mkpath_simps)
  have ns: "backslash \<notin> set c" if "c \<in> set (r # rest)" for c
  proof -
    have "c \<in> set (split_on ((=) backslash) p)" using that s by simp
    then show ?thesis using split_on_pieces [of c "(=) backslash" p backslash] by blast
  qed
  have "r \<noteq> []" using r by (auto simp: lit_def)
  then have "reg_comps (r # rest)"
    using r rest ns by (auto simp: reg_comps_def name_ok_def list_all_iff)
  with p show "\<exists>cs. reg_comps cs \<and> p = mkpath cs" by blast
next
  assume "\<exists>cs. reg_comps cs \<and> p = mkpath cs"
  then obtain cs where cs: "reg_comps cs" and p: "p = mkpath cs" by blast
  have "\<forall>c\<in>set cs. backslash \<notin> set c" using cs name_ok_no_sep unfolding reg_comps_def by blast
  with p have s: "split_on ((=) backslash) p = [] # cs" by (simp add: split_mkpath0)
  obtain r rest where "cs = r # rest" using cs by (cases cs) (auto simp: reg_comps_def)
  with cs s show "valid_path p" by (auto simp: valid_path_def reg_comps_def name_ok_def list_all_iff)
qed

lemma reg_comps_cfold [simp]: "reg_comps (map cfold cs) \<longleftrightarrow> reg_comps cs"
proof (cases cs)
  case (Cons c ds)
  show ?thesis unfolding Cons by (simp add: reg_comps_def list_all_iff)
qed (simp add: reg_comps_def)

lemma reg_comps_names: "reg_comps cs \<Longrightarrow> \<forall>c\<in>set cs. backslash \<notin> set c"
  unfolding reg_comps_def using name_ok_no_sep by blast

lemma parent_mkpath:
  assumes "backslash \<notin> set c"
  shows "parent (mkpath (cs @ [c])) = (if cs = [] then None else Some (mkpath cs))"
proof -
  have "rsplit_once backslash (mkpath cs @ backslash # c) = Some (mkpath cs, c)"
    using assms by (simp add: rsplit_once_Some)
  moreover have "mkpath cs = [] \<longleftrightarrow> cs = []" by (cases cs) auto
  ultimately show ?thesis by (simp add: parent_def)
qed

lemma leaf_mkpath:
  assumes "backslash \<notin> set c"
  shows "leaf (w @ backslash # c) = c"
  using assms by (simp add: leaf_def split_on_append_sep split_no_sep)

lemma parent_shorter: "parent p = Some q \<Longrightarrow> length q < length p"
  by (auto simp: parent_def rsplit_once_Some split: option.splits if_splits)

lemma parent_cfold: "parent (cfold p) = map_option cfold (parent p)"
proof (cases "rsplit_once backslash p")
  case None
  then have "rsplit_once backslash (cfold p) = None" by (simp add: fixed_char_in_cfold)
  with None show ?thesis by (simp add: parent_def del: rsplit_once_None)
next
  case (Some ab)
  obtain a b where ab: "rsplit_once backslash p = Some (a, b)" using Some by (cases ab) auto
  then have "p = a @ backslash # b" "backslash \<notin> set b" by (simp_all add: rsplit_once_Some)
  then have "rsplit_once backslash (cfold p) = Some (cfold a, cfold b)"
    by (simp add: rsplit_once_Some fixed_char_in_cfold fixed_char_self)
  with ab show ?thesis by (simp add: parent_def)
qed

text \<open>Strictly below, as the range queries of the overlay ask it.\<close>

lemma below_iff:
  assumes "\<forall>c\<in>set cs. backslash \<notin> set c" and "\<forall>c\<in>set ds. backslash \<notin> set c"
  shows "prefix (mkpath cs @ [backslash]) (mkpath ds) \<longleftrightarrow> strict_prefix cs ds"
proof
  assume "prefix (mkpath cs @ [backslash]) (mkpath ds)"
  then obtain w where w: "mkpath ds = mkpath cs @ backslash # w" by (auto simp: prefix_def)
  have "[] # ds = split_on ((=) backslash) (mkpath ds)" using assms(2) by (simp add: split_mkpath0)
  also have "\<dots> = split_on ((=) backslash) (mkpath cs) @ split_on ((=) backslash) w"
    unfolding w by (rule split_on_append_sep) simp
  also have "\<dots> = ([] # cs) @ split_on ((=) backslash) w" using assms(1) by (simp add: split_mkpath0)
  finally have "ds = cs @ split_on ((=) backslash) w" by simp
  then show "strict_prefix cs ds" by (auto simp: strict_prefix_def)
next
  assume "strict_prefix cs ds"
  then obtain es where "ds = cs @ es" "es \<noteq> []" by (auto simp: strict_prefix_def prefix_def)
  then obtain c fs where "ds = cs @ c # fs" by (cases es) auto
  then show "prefix (mkpath cs @ [backslash]) (mkpath ds)" by simp
qed

section \<open>The canonical form\<close>

definition hive_name :: "rstr \<Rightarrow> rstr" where
  "hive_name h = (if cfold h = lit ''machine'' then lit ''Machine''
     else if cfold h = lit ''user'' then lit ''User'' else h)"

fun canon_parts :: "rstr option \<Rightarrow> rstr list \<Rightarrow> rstr list" where
  "canon_parts sid [] = []"
| "canon_parts sid [h] = [hive_name h]"
| "canon_parts sid (h # u # qs) =
     hive_name h # (if cfold h = lit ''user'' then sid_to_symbol u sid else u) # qs"

lemma canonical_loop_tail: "1 < i \<Longrightarrow> canonical_loop sid i uh out ps = out @ mkpath ps"
  by (induction sid i uh out ps rule: canonical_loop.induct) (auto simp: Let_def)

lemma canonical_loop_eq: "canonical_loop sid 0 False out ps = out @ mkpath (canon_parts sid ps)"
  by (induction sid ps rule: canon_parts.induct)
    (auto simp: Let_def canonical_loop_tail hive_name_def)

lemma lit_folds [simp]:
  "cfold (lit ''registry'') = lit ''registry''" "cfold (lit ''Registry'') = lit ''registry''"
  "cfold (lit ''REGISTRY'') = lit ''registry''"
  "cfold (lit ''machine'') = lit ''machine''" "cfold (lit ''Machine'') = lit ''machine''"
  "cfold (lit ''MACHINE'') = lit ''machine''"
  "cfold (lit ''user'') = lit ''user''" "cfold (lit ''User'') = lit ''user''" "cfold (lit ''USER'') = lit ''user''"
  by (simp_all add: lit_def to_lowercase_ascii to_ascii_lowercase_def)

lemma lit_names [simp]:
  "name_ok (lit ''Registry'')" "name_ok (lit ''REGISTRY'')" "name_ok (lit ''Machine'')"
  "name_ok (lit ''MACHINE'')" "name_ok (lit ''User'')" "name_ok (lit ''USER'')"
  "name_ok CURRENT_USER" "name_ok (CURRENT_USER @ CLASSES)"
  "lit ''machine'' \<noteq> lit ''user''" "lit ''user'' \<noteq> lit ''machine''"
  by (simp_all add: lit_def name_ok_def CURRENT_USER_def CLASSES_def)

lemma hive_name_props [simp]:
  "cfold (hive_name h) = cfold h" "name_ok h \<Longrightarrow> name_ok (hive_name h)" "hive_name (hive_name h) = hive_name h"
  by (auto simp: hive_name_def)

lemma sid_to_symbol_ok [simp]: "name_ok u \<Longrightarrow> name_ok (sid_to_symbol u sid)"
  by (auto simp: sid_to_symbol_def Let_def split: option.splits)

lemma reg_canonical_eq:
  "reg_canonical raw sid =
     (case filter (\<lambda>p. p \<noteq> []) (split_on ((=) backslash) raw) of
        p # parts \<Rightarrow> (if prefix [backslash] raw \<and> cfold p = lit ''registry''
          then Inr (mkpath (lit ''Registry'' # canon_parts sid parts)) else Inl NotRegistry)
      | [] \<Rightarrow> Inl NotRegistry)"
  by (auto simp: reg_canonical_def canonical_loop_eq split: list.split)

lemma canon_parts_ok: "list_all name_ok ps \<Longrightarrow> list_all name_ok (canon_parts sid ps)"
  by (induction sid ps rule: canon_parts.induct) auto

lemma filter_split_names: "list_all name_ok (filter (\<lambda>p. p \<noteq> []) (split_on ((=) backslash) raw))"
  by (auto simp: list_all_iff name_ok_def dest: split_on_pieces)

lemma reg_canonical_mkpath:
  assumes "reg_comps (r # ps)"
  shows "reg_canonical (mkpath (r # ps)) sid = Inr (mkpath (lit ''Registry'' # canon_parts sid ps))"
proof -
  have "split_on ((=) backslash) (mkpath (r # ps)) = [] # r # ps"
    by (rule split_mkpath0 [OF reg_comps_names [OF assms]])
  moreover have "filter (\<lambda>p. p \<noteq> []) ([] # r # ps) = r # ps"
    using assms by (auto simp: reg_comps_def name_ok_def list_all_iff filter_id_conv)
  ultimately show ?thesis
    using assms unfolding reg_canonical_eq by (simp add: reg_comps_def del: split_on.simps filter.simps)
qed

text \<open>A SID is usable when it is a name and not itself the symbol of the classes hive.\<close>

definition sid_ok :: "rstr option \<Rightarrow> bool" where
  "sid_ok sid = (case sid of None \<Rightarrow> True
     | Some s \<Rightarrow> name_ok s \<and> cfold s \<noteq> cfold (CURRENT_USER @ CLASSES))"

lemma symbol_not_classes: "cfold CURRENT_USER \<noteq> w @ cfold CLASSES"
proof
  assume "cfold CURRENT_USER = w @ cfold CLASSES"
  then have "last (cfold CURRENT_USER) = last (cfold CLASSES)"
    by (simp add: CLASSES_def lit_def to_lowercase_ascii to_ascii_lowercase_def)
  then show False by (simp add: CURRENT_USER_def CLASSES_def lit_def to_lowercase_ascii to_ascii_lowercase_def)
qed

lemma sid_to_symbol_idem: "sid_ok sid \<Longrightarrow> sid_to_symbol (sid_to_symbol u sid) sid = sid_to_symbol u sid"
  using symbol_not_classes
  by (auto simp: sid_to_symbol_def sid_ok_def Let_def split: option.splits)

lemma canon_parts_idem: "sid_ok sid \<Longrightarrow> canon_parts sid (canon_parts sid ps) = canon_parts sid ps"
  by (induction sid ps rule: canon_parts.induct) (auto simp: sid_to_symbol_idem)

subsection \<open>Back to native names\<close>

lemma to_nt_loop_tail: "3 < i \<Longrightarrow> to_nt_loop sid uh i ps = mkpath ps"
  by (induction sid uh i ps rule: to_nt_loop.induct) (auto simp: to_nt_part_def split: option.splits)

definition nt_hive :: "rstr \<Rightarrow> rstr" where
  "nt_hive h = (if cfold h = lit ''machine'' then lit ''MACHINE''
     else if cfold h = lit ''user'' then lit ''USER'' else h)"

definition nt_user :: "rstr option \<Rightarrow> rstr \<Rightarrow> rstr" where
  "nt_user sid u = (case sid of None \<Rightarrow> u
     | Some s \<Rightarrow> (if u = CURRENT_USER then s else if u = CURRENT_USER @ CLASSES then s @ CLASSES else u))"

fun nt_parts :: "rstr option \<Rightarrow> rstr list \<Rightarrow> rstr list" where
  "nt_parts sid [] = []"
| "nt_parts sid [h] = [nt_hive h]"
| "nt_parts sid (h # u # qs) = nt_hive h # (if cfold h = lit ''user'' then nt_user sid u else u) # qs"

lemma to_nt_mkpath:
  assumes "reg_comps (r # ps)"
  shows "to_nt (mkpath (r # ps)) sid = mkpath (lit ''REGISTRY'' # nt_parts sid ps)"
proof -
  have s: "split_on ((=) backslash) (mkpath (r # ps)) = [] # r # ps"
    by (rule split_mkpath0 [OF reg_comps_names [OF assms]])
  have r: "cfold r = lit ''registry''" using assms by (simp add: reg_comps_def)
  show ?thesis
  proof (cases "(sid, ps)" rule: nt_parts.cases)
    case (1 sid')
    with s r show ?thesis
      by (simp add: to_nt_def to_nt_part_def Let_def del: mkpath_simps split_on.simps split: option.splits)
        (simp add: mkpath_def)
  next
    case (2 sid' h)
    with s r show ?thesis
      by (simp add: to_nt_def to_nt_part_def Let_def nt_hive_def del: mkpath_simps split_on.simps split: option.splits)
        (simp add: mkpath_def)
  next
    case (3 sid' h u qs)
    have "to_nt (mkpath (r # ps)) sid = to_nt_loop sid (cfold h = lit ''user'') 0 ([] # r # h # u # qs)"
      using s 3 by (simp add: to_nt_def Let_def del: mkpath_simps split_on.simps to_nt_loop.simps)
    also have "\<dots> = mkpath (lit ''REGISTRY'' # nt_parts sid ps)"
      using r 3 by (simp add: to_nt_part_def to_nt_loop_tail nt_hive_def nt_user_def split: option.splits)
    finally show ?thesis .
  qed
qed

lemma nt_hive_props [simp]:
  "cfold (nt_hive h) = cfold h" "name_ok h \<Longrightarrow> name_ok (nt_hive h)" "hive_name (nt_hive h) = hive_name h"
  by (auto simp: nt_hive_def hive_name_def)

lemma nt_user_ok: "name_ok u \<Longrightarrow> sid_ok sid \<Longrightarrow> name_ok (nt_user sid u)"
proof -
  have "backslash \<notin> set CLASSES" by (simp add: CLASSES_def lit_def)
  then show "name_ok u \<Longrightarrow> sid_ok sid \<Longrightarrow> name_ok (nt_user sid u)"
    by (auto simp: nt_user_def sid_ok_def name_ok_def split: option.splits)
qed

lemma nt_parts_ok: "list_all name_ok ps \<Longrightarrow> sid_ok sid \<Longrightarrow> list_all name_ok (nt_parts sid ps)"
  by (induction sid ps rule: nt_parts.induct) (auto simp: nt_user_ok)

lemma sid_to_symbol_nt_user:
  "sid_to_symbol (nt_user sid (sid_to_symbol u sid)) sid = sid_to_symbol u sid" if "sid_ok sid"
proof (cases sid)
  case (Some s)
  have "CLASSES \<noteq> []" by (simp add: CLASSES_def lit_def)
  then have "cfold s \<noteq> cfold s @ cfold CLASSES" by simp
  then show ?thesis
    using sid_to_symbol_idem [OF that, of u] Some that
    by (auto simp: nt_user_def sid_to_symbol_def Let_def)
qed (simp add: nt_user_def sid_to_symbol_def)

lemma canon_nt_canon:
  "sid_ok sid \<Longrightarrow> canon_parts sid (nt_parts sid (canon_parts sid ps)) = canon_parts sid ps"
  by (induction sid ps rule: canon_parts.induct) (auto simp: sid_to_symbol_nt_user)

text \<open>C28. Canonicalising an NT key path gives a valid overlay path and is idempotent, and the
  native name made from a canonical path leads back to it: the user's SID and the symbol that
  stands for it are exchanged without loss.\<close>

theorem reg_canonical_roundtrip:
  assumes "sid_ok sid" and "reg_canonical raw sid = Inr p"
  shows "valid_path p \<and> reg_canonical p sid = Inr p \<and> reg_canonical (to_nt p sid) sid = Inr p"
proof -
  obtain r ps where f: "filter (\<lambda>p. p \<noteq> []) (split_on ((=) backslash) raw) = r # ps"
    and p: "p = mkpath (lit ''Registry'' # canon_parts sid ps)"
    using assms(2) by (auto simp: reg_canonical_eq split: list.splits if_splits)
  have "list_all name_ok ps" using filter_split_names [of raw] f by simp
  then have rc: "reg_comps (lit ''Registry'' # canon_parts sid ps)"
    by (simp add: reg_comps_def canon_parts_ok)
  then have v: "valid_path p" unfolding valid_path_iff p by blast
  have i: "reg_canonical p sid = Inr p"
    using reg_canonical_mkpath [OF rc] canon_parts_idem [OF assms(1)] p by simp
  have "reg_comps (lit ''REGISTRY'' # nt_parts sid (canon_parts sid ps))"
    using rc assms(1) by (simp add: reg_comps_def nt_parts_ok)
  from reg_canonical_mkpath [OF this, of sid] to_nt_mkpath [OF rc, of sid]
  have "reg_canonical (to_nt p sid) sid = Inr p"
    using canon_nt_canon [OF assms(1)] p by (simp del: mkpath_simps)
  with v i show ?thesis by blast
qed

theorem reg_canonical_roundtrip_witness:
  "reg_canonical (to_nt (mkpath [lit ''Registry'', lit ''User'', CURRENT_USER]) (Some (lit ''S-1'')))
     (Some (lit ''S-1'')) = Inr (mkpath [lit ''Registry'', lit ''User'', CURRENT_USER])"
proof -
  have ok: "sid_ok (Some (lit ''S-1''))"
    by (simp add: sid_ok_def name_ok_def lit_def CURRENT_USER_def CLASSES_def to_lowercase_ascii to_ascii_lowercase_def)
  have "reg_comps [lit ''REGISTRY'', lit ''user'', lit ''s-1'']"
    by (simp add: reg_comps_def name_ok_def) (simp add: lit_def)
  from reg_canonical_mkpath [OF this, of "Some (lit ''S-1'')"]
  have "reg_canonical (mkpath [lit ''REGISTRY'', lit ''user'', lit ''s-1'']) (Some (lit ''S-1'')) =
      Inr (mkpath [lit ''Registry'', lit ''User'', CURRENT_USER])"
    by (simp add: hive_name_def sid_to_symbol_def Let_def)
      (simp add: lit_def to_lowercase_ascii to_ascii_lowercase_def CLASSES_def)
  from reg_canonical_roundtrip [OF ok this] show ?thesis by blast
qed

end
