(* ===== verification/Reg_Overlay.thy ===== *)
theory Reg_Overlay
  imports Reg_Path Ordmap "HOL-Library.Monad_Syntax"
begin

text \<open>
  The registry overlay of \<^verbatim>\<open>vfs-registry/src/overlay.rs\<close>: nodes keyed by folded path, tombstones,
  deletion records and the change counters behind \<^verbatim>\<open>changed_since\<close>. An operation that may panic
  (\<^verbatim>\<open>expect\<close>, indexing, slicing a string) returns \<open>None\<close> there; that none of them does is a
  theorem of \<open>Reg_Invariant\<close>. Versions are 64-bit words.
\<close>

section \<open>State\<close>

record reg_entry =
  re_path :: rstr
  re_node :: reg_node
  re_changed :: u64
  re_subtree :: u64

record overlay =
  ov_entries :: "(rstr \<times> reg_entry) list"
  ov_tombs :: "(rstr \<times> u64) list"
  ov_deleted_at :: "(rstr \<times> u64) list"
  ov_deleted_floor :: u64
  ov_version :: u64

definition overlay_new :: overlay where
  "overlay_new = \<lparr>ov_entries = [], ov_tombs = [], ov_deleted_at = [], ov_deleted_floor = 0, ov_version = 0\<rparr>"

definition set_version :: "u64 \<Rightarrow> overlay \<Rightarrow> overlay" where
  "set_version version ov = ov\<lparr>ov_version := version\<rparr>"

section \<open>Checks\<close>

definition check_path :: "rstr \<Rightarrow> reg_error + unit" where
  "check_path p = (if valid_path p then Inr () else Inl InvalidPath)"

definition check_key_name :: "rstr \<Rightarrow> reg_error + unit" where
  "check_key_name p =
     (if list_ex (\<lambda>c. MAX_KEY_NAME < utf16_len c) (drop 1 (split_on ((=) backslash) p))
      then Inl NameTooLong else Inr ())"

definition check_depth :: "rstr \<Rightarrow> nat \<Rightarrow> reg_error + unit" where
  "check_depth p mx = (if mx < length (split_on ((=) backslash) p) - 2 then Inl TooDeep else Inr ())"

definition check_value_name :: "rstr \<Rightarrow> reg_error + unit" where
  "check_value_name name = (if MAX_VALUE_NAME < utf16_len name then Inl NameTooLong else Inr ())"

definition check_data :: "bytes \<Rightarrow> reg_error + unit" where
  "check_data d = (if MAX_DATA < length d then Inl DataTooLarge else Inr ())"

section \<open>Range queries\<close>

definition child_prefix :: "rstr \<Rightarrow> rstr" where
  "child_prefix folded = folded @ [backslash]"

text \<open>\<^verbatim>\<open>range(pre..)\<close> of a map in key order, and the run at its front that starts with the prefix.\<close>

definition range_from :: "rstr \<Rightarrow> (rstr \<times> 'v) list \<Rightarrow> (rstr \<times> 'v) list" where
  "range_from pre m = dropWhile (\<lambda>kv. fst kv < pre) m"

definition range_under :: "rstr \<Rightarrow> (rstr \<times> 'v) list \<Rightarrow> (rstr \<times> 'v) list" where
  "range_under pre m = takeWhile (\<lambda>kv. prefix pre (fst kv)) (range_from pre m)"

definition next_under :: "rstr \<Rightarrow> (rstr \<times> 'v) list \<Rightarrow> bool" where
  "next_under pre m = (case range_from pre m of [] \<Rightarrow> False | kv # r \<Rightarrow> prefix pre (fst kv))"

definition any_below :: "overlay \<Rightarrow> rstr \<Rightarrow> bool" where
  "any_below ov folded =
     (let pre = child_prefix folded in next_under pre (ov_entries ov) \<or> next_under pre (ov_tombs ov))"

function is_tombstoned :: "overlay \<Rightarrow> rstr \<Rightarrow> bool" where
  "is_tombstoned ov cur =
     (if map_of (ov_tombs ov) cur \<noteq> None then True
      else (case parent cur of Some p \<Rightarrow> is_tombstoned ov p | None \<Rightarrow> False))"
  by pat_completeness auto

termination is_tombstoned
  by (relation "measure (\<lambda>(ov, cur). length cur)") (auto dest: parent_shorter)

declare is_tombstoned.simps [simp del]

definition ov_lookup :: "overlay \<Rightarrow> rstr \<Rightarrow> reg_lookup \<times> bool" where
  "ov_lookup ov path =
     (if \<not> valid_path path then (LAbsent, False)
      else (let f = cfold path in
        case map_of (ov_entries ov) f of
          Some e \<Rightarrow> (LPresent (rn_created (re_node e)), any_below ov f)
        | None \<Rightarrow> (if is_tombstoned ov f then (LTombstoned, False) else (LAbsent, any_below ov f))))"

definition ov_node :: "overlay \<Rightarrow> rstr \<Rightarrow> reg_node option" where
  "ov_node ov path = map_option re_node (map_of (ov_entries ov) (cfold path))"

definition ov_walk :: "overlay \<Rightarrow> (rstr \<times> reg_node) list" where
  "ov_walk ov = map (\<lambda>(k, e). (re_path e, re_node e)) (ov_entries ov)"

section \<open>Internal steps\<close>

definition set_entry :: "rstr \<Rightarrow> reg_entry \<Rightarrow> overlay \<Rightarrow> overlay" where
  "set_entry k e ov = ov\<lparr>ov_entries := oins k e (ov_entries ov)\<rparr>"

text \<open>\<^verbatim>\<open>get_mut(k).expect(..)\<close> followed by an update in place.\<close>

definition upd_entry :: "rstr \<Rightarrow> (reg_entry \<Rightarrow> reg_entry) \<Rightarrow> overlay \<Rightarrow> overlay option" where
  "upd_entry k f ov = (case map_of (ov_entries ov) k of
     Some e \<Rightarrow> Some (set_entry k (f e) ov) | None \<Rightarrow> None)"

definition newest :: "(rstr \<times> u64) list \<Rightarrow> u64" where
  "newest m = foldr max (map snd m) 0"

definition tomb :: "rstr \<Rightarrow> u64 \<Rightarrow> overlay \<Rightarrow> overlay" where
  "tomb folded v ov =
     (let hw = (case map_of (ov_deleted_at ov) folded of Some t \<Rightarrow> t | None \<Rightarrow> 0);
          da = oins folded (max hw v) (ov_deleted_at ov);
          ov = ov\<lparr>ov_tombs := oins folded v (ov_tombs ov)\<rparr> in
      if MAX_DELETED_AT < length da
      then ov\<lparr>ov_deleted_floor := max (ov_deleted_floor ov) (newest da), ov_deleted_at := []\<rparr>
      else ov\<lparr>ov_deleted_at := da\<rparr>)"

definition bump :: "overlay \<Rightarrow> overlay \<times> u64" where
  "bump ov = (ov\<lparr>ov_version := ov_version ov + 1\<rparr>, ov_version ov + 1)"

definition touch :: "rstr \<Rightarrow> u64 \<Rightarrow> overlay \<Rightarrow> overlay" where
  "touch k v ov = (case map_of (ov_entries ov) k of
     Some e \<Rightarrow> set_entry k (e\<lparr>re_subtree := v\<rparr>) ov | None \<Rightarrow> ov)"

function touch_ancestors :: "rstr \<Rightarrow> u64 \<Rightarrow> overlay \<Rightarrow> overlay" where
  "touch_ancestors path v ov =
     (case parent path of None \<Rightarrow> ov | Some p \<Rightarrow> touch_ancestors p v (touch (cfold p) v ov))"
  by pat_completeness auto

termination touch_ancestors
  by (relation "measure (\<lambda>(path, v, ov). length path)") (auto dest: parent_shorter)

declare touch_ancestors.simps [simp del]

definition mark :: "rstr \<Rightarrow> u64 \<Rightarrow> overlay \<Rightarrow> overlay" where
  "mark path v ov = touch_ancestors path v
     (case map_of (ov_entries ov) (cfold path) of
        Some e \<Rightarrow> set_entry (cfold path) (e\<lparr>re_changed := v\<rparr>) ov | None \<Rightarrow> ov)"

definition subtree_keys :: "overlay \<Rightarrow> rstr \<Rightarrow> rstr list" where
  "subtree_keys ov folded =
     (if map_of (ov_entries ov) folded \<noteq> None then [folded] else []) @
     map fst (range_under (child_prefix folded) (ov_entries ov))"

definition remove_keys :: "rstr list \<Rightarrow> (rstr \<times> 'v) list \<Rightarrow> (rstr \<times> 'v) list" where
  "remove_keys ks m = fold odel ks m"

definition remove_subtree :: "rstr \<Rightarrow> overlay \<Rightarrow> overlay" where
  "remove_subtree folded ov = ov\<lparr>
     ov_entries := remove_keys (subtree_keys ov folded) (ov_entries ov),
     ov_tombs := odel folded
       (remove_keys (map fst (range_under (child_prefix folded) (ov_tombs ov))) (ov_tombs ov))\<rparr>"

text \<open>A new node on the way to a path: its parent's child list is updated with it.\<close>

definition add_child_entry :: "rstr option \<Rightarrow> rstr \<Rightarrow> u64 \<Rightarrow> u64 \<Rightarrow> overlay \<Rightarrow> overlay option" where
  "add_child_entry parent_key cp v now ov = (case parent_key of
     None \<Rightarrow> Some ov
   | Some pk \<Rightarrow> upd_entry pk (\<lambda>pe. pe\<lparr>
       re_node := (re_node pe)\<lparr>
         rn_children := oins (cfold cp) (cp, CPresent) (rn_children (re_node pe)),
         rn_last_write := now\<rparr>,
       re_changed := v\<rparr>) ov)"

definition child_tombstoned :: "reg_entry \<Rightarrow> rstr \<Rightarrow> bool" where
  "child_tombstoned pe name = (case map_of (rn_children (re_node pe)) name of
     Some (s, CTombstone) \<Rightarrow> True | _ \<Rightarrow> False)"

text \<open>The loop of \<^verbatim>\<open>ensure_chain\<close>; \<open>self.entries[pk]\<close> panics when the parent is missing.\<close>

fun chain_loop ::
  "bool \<Rightarrow> u64 \<Rightarrow> u64 \<Rightarrow> rstr \<Rightarrow> rstr option \<Rightarrow> rstr list \<Rightarrow> overlay \<Rightarrow> overlay option" where
  "chain_loop real v now stored parent_key [] ov = Some ov"
| "chain_loop real v now stored parent_key (cp # rest) ov =
     (let stored = stored @ [backslash] @ cp; key = cfold stored in
      case map_of (ov_entries ov) key of
        Some e \<Rightarrow> chain_loop real v now (re_path e) (Some key) rest ov
      | None \<Rightarrow> do {
          let was_tomb = (map_of (ov_tombs ov) key \<noteq> None);
          let ov = ov\<lparr>ov_tombs := odel key (ov_tombs ov)\<rparr>;
          (revived, parent_created) \<leftarrow> (case parent_key of
             None \<Rightarrow> Some (was_tomb, False)
           | Some pk \<Rightarrow> (case map_of (ov_entries ov) pk of
               None \<Rightarrow> None
             | Some pe \<Rightarrow> Some (was_tomb \<or> child_tombstoned pe (cfold cp), rn_created (re_node pe))));
          let created = (revived \<or> parent_created \<or> (rest = [] \<and> \<not> real));
          let ov = set_entry key \<lparr>re_path = stored,
            re_node = default_node\<lparr>rn_created := created, rn_last_write := now\<rparr>,
            re_changed = v, re_subtree = 0\<rparr> ov;
          ov \<leftarrow> add_child_entry parent_key cp v now ov;
          chain_loop real v now stored (Some key) rest ov })"

definition ensure_chain :: "rstr \<Rightarrow> bool \<Rightarrow> u64 \<Rightarrow> u64 \<Rightarrow> overlay \<Rightarrow> overlay option" where
  "ensure_chain path real v now ov = chain_loop real v now [] None (drop 1 (split_on ((=) backslash) path)) ov"

section \<open>Operations\<close>

text \<open>\<open>None\<close> is a panic, \<open>Some (Inl e)\<close> an error with the overlay unchanged.\<close>

type_synonym reg_result = "(reg_error + (overlay \<times> u64)) option"

definition guarded :: "reg_error + unit \<Rightarrow> reg_result \<Rightarrow> reg_result" where
  "guarded c r = (case c of Inl e \<Rightarrow> Some (Inl e) | Inr _ \<Rightarrow> r)"

fun put_value :: "rstr \<Rightarrow> rstr \<Rightarrow> u32 \<Rightarrow> bytes \<Rightarrow> reg_value list \<Rightarrow> reg_value list" where
  "put_value fname name ty d [] = [\<lparr>rv_name = name, rv_ty = ty, rv_data = d\<rparr>]"
| "put_value fname name ty d (x # xs) =
     (if cfold (rv_name x) = fname then x\<lparr>rv_ty := ty, rv_data := d\<rparr> # xs
      else x # put_value fname name ty d xs)"

definition set_value :: "rstr \<Rightarrow> rstr \<Rightarrow> u32 \<Rightarrow> bytes \<Rightarrow> u64 \<Rightarrow> overlay \<Rightarrow> reg_result" where
  "set_value path name ty d now ov =
     guarded (check_path path) (guarded (check_key_name path) (guarded (check_depth path MAX_WRITE_DEPTH)
      (guarded (check_value_name name) (guarded (check_data d)
       (let (ov, v) = bump ov in do {
          ov \<leftarrow> ensure_chain path True v now ov;
          let fname = cfold name;
          ov \<leftarrow> upd_entry (cfold path) (\<lambda>e. e\<lparr>re_node := (re_node e)\<lparr>
            rn_value_tombstones := filter (\<lambda>t. t \<noteq> fname) (rn_value_tombstones (re_node e)),
            rn_values := put_value fname name ty d (rn_values (re_node e)),
            rn_last_write := now\<rparr>\<rparr>) ov;
          Some (Inr (mark path v ov, v)) })))))"

definition delete_value :: "rstr \<Rightarrow> rstr \<Rightarrow> u64 \<Rightarrow> overlay \<Rightarrow> reg_result" where
  "delete_value path name now ov =
     guarded (check_path path) (guarded (check_key_name path) (guarded (check_value_name name)
      (if fst (ov_lookup ov path) = LTombstoned then Some (Inl RNotFound)
       else (let (ov, v) = bump ov in do {
          ov \<leftarrow> ensure_chain path True v now ov;
          let fname = cfold name;
          ov \<leftarrow> upd_entry (cfold path) (\<lambda>e. e\<lparr>re_node := (re_node e)\<lparr>
            rn_values := filter (\<lambda>x. cfold (rv_name x) \<noteq> fname) (rn_values (re_node e)),
            rn_value_tombstones :=
              (if fname \<in> set (rn_value_tombstones (re_node e)) then rn_value_tombstones (re_node e)
               else rn_value_tombstones (re_node e) @ [fname]),
            rn_last_write := now\<rparr>\<rparr>) ov;
          Some (Inr (mark path v ov, v)) }))))"

definition create_key :: "rstr \<Rightarrow> bool \<Rightarrow> bool \<Rightarrow> u64 \<Rightarrow> overlay \<Rightarrow> reg_result" where
  "create_key path volatile real_exists now ov =
     guarded (check_path path) (guarded (check_key_name path) (guarded (check_depth path MAX_WRITE_DEPTH)
      (if map_of (ov_entries ov) (cfold path) \<noteq> None then Some (Inl AlreadyExists)
       else (let (ov, v) = bump ov in do {
          ov \<leftarrow> ensure_chain path real_exists v now ov;
          ov \<leftarrow> upd_entry (cfold path) (\<lambda>e. e\<lparr>re_node := (re_node e)\<lparr>rn_volatile := volatile\<rparr>\<rparr>) ov;
          Some (Inr (mark path v ov, v)) }))))"

definition delete_key :: "rstr \<Rightarrow> u64 \<Rightarrow> overlay \<Rightarrow> reg_result" where
  "delete_key path now ov =
     guarded (check_path path)
      (case parent path of
         None \<Rightarrow> Some (Inl InvalidPath)
       | Some par \<Rightarrow>
          (if fst (ov_lookup ov path) = LTombstoned then Some (Inl RNotFound)
           else (let (ov, v) = bump ov in do {
             ov \<leftarrow> ensure_chain par True v now ov;
             let f = cfold path;
             let ov = remove_subtree f ov;
             let ov = tomb f v ov;
             ov \<leftarrow> upd_entry (cfold par) (\<lambda>pe. pe\<lparr>re_node := (re_node pe)\<lparr>
               rn_children := oins (cfold (leaf path)) (leaf path, CTombstone) (rn_children (re_node pe)),
               rn_last_write := now\<rparr>, re_changed := v\<rparr>) ov;
             Some (Inr (touch_ancestors par v ov, v)) })))"

text \<open>\<^verbatim>\<open>&s[n..]\<close>: the offset is in bytes and must fall between two characters.\<close>

fun slice_from :: "nat \<Rightarrow> rstr \<Rightarrow> rstr option" where
  "slice_from n [] = (if n = 0 then Some [] else None)"
| "slice_from n (c # s) =
     (if n = 0 then Some (c # s)
      else if length (utf8_char c) \<le> n then slice_from (n - length (utf8_char c)) s
      else None)"

fun take_entries :: "rstr list \<Rightarrow> overlay \<Rightarrow> (reg_entry list \<times> overlay) option" where
  "take_entries [] ov = Some ([], ov)"
| "take_entries (k # ks) ov = (case map_of (ov_entries ov) k of
     None \<Rightarrow> None
   | Some e \<Rightarrow> map_option (\<lambda>(es, ov). (e # es, ov)) (take_entries ks (ov\<lparr>ov_entries := odel k (ov_entries ov)\<rparr>)))"

fun put_moved :: "rstr \<Rightarrow> rstr \<Rightarrow> rstr \<Rightarrow> rstr \<Rightarrow> u64 \<Rightarrow> reg_entry list \<Rightarrow> overlay \<Rightarrow> overlay option" where
  "put_moved old_stored old_f new_path new_f v [] ov = Some ov"
| "put_moved old_stored old_f new_path new_f v (e # es) ov = do {
     suffix \<leftarrow> slice_from (length (utf8 old_stored)) (re_path e);
     tail \<leftarrow> slice_from (length (utf8 old_f)) (cfold (old_stored @ suffix));
     put_moved old_stored old_f new_path new_f v es
       (set_entry (new_f @ tail) \<lparr>re_path = new_path @ suffix, re_node = (re_node e)\<lparr>rn_created := True\<rparr>,
          re_changed = v, re_subtree = v\<rparr> ov) }"

fun put_moved_tombs :: "rstr \<Rightarrow> rstr \<Rightarrow> u64 \<Rightarrow> rstr list \<Rightarrow> overlay \<Rightarrow> overlay option" where
  "put_moved_tombs old_f new_f v [] ov = Some ov"
| "put_moved_tombs old_f new_f v (k # ks) ov = do {
     tail \<leftarrow> slice_from (length (utf8 old_f)) k;
     put_moved_tombs old_f new_f v ks (tomb (new_f @ tail) v ov) }"

text \<open>The part of \<^verbatim>\<open>rename_key\<close> after its checks.\<close>

definition rename_move :: "rstr \<Rightarrow> rstr \<Rightarrow> rstr \<Rightarrow> rstr \<Rightarrow> rstr \<Rightarrow> rstr \<Rightarrow> u64 \<Rightarrow> overlay \<Rightarrow> reg_result" where
  "rename_move path par new_leaf old_stored new_path new_f now ov =
     (let old_f = cfold path; case_only = (new_f = old_f); (ov, v) = bump ov;
          moved_keys = subtree_keys ov old_f;
          moved_tombs = map fst (range_under (child_prefix old_f) (ov_tombs ov)) in do {
        (moved, ov) \<leftarrow> take_entries moved_keys ov;
        let ov = remove_subtree old_f ov;
        let ov = ov\<lparr>ov_tombs := odel new_f (ov_tombs ov)\<rparr>;
        ov \<leftarrow> put_moved old_stored old_f new_path new_f v moved ov;
        ov \<leftarrow> put_moved_tombs old_f new_f v moved_tombs ov;
        ov \<leftarrow> upd_entry new_f (\<lambda>e. e\<lparr>re_node := (re_node e)\<lparr>rn_last_write := now\<rparr>\<rparr>) ov;
        ov \<leftarrow> upd_entry (cfold par) (\<lambda>pe. if case_only then pe else pe\<lparr>re_node := (re_node pe)\<lparr>
          rn_children := oins (cfold (leaf path)) (leaf path, CTombstone) (rn_children (re_node pe))\<rparr>\<rparr>) ov;
        let ov = (if case_only then ov else tomb old_f v ov);
        ov \<leftarrow> upd_entry (cfold par) (\<lambda>pe. pe\<lparr>re_node := (re_node pe)\<lparr>
          rn_children := oins (cfold new_leaf) (new_leaf, CPresent) (rn_children (re_node pe)),
          rn_last_write := now\<rparr>, re_changed := v\<rparr>) ov;
        Some (Inr (touch_ancestors par v ov, v)) })"

definition rename_key :: "rstr \<Rightarrow> rstr \<Rightarrow> u64 \<Rightarrow> overlay \<Rightarrow> reg_result" where
  "rename_key path new_leaf now ov =
     guarded (check_path path)
      (if new_leaf = [] \<or> backslash \<in> set new_leaf then Some (Inl InvalidPath)
       else if MAX_KEY_NAME < utf16_len new_leaf then Some (Inl NameTooLong)
       else (case parent path of
         None \<Rightarrow> Some (Inl InvalidPath)
       | Some par \<Rightarrow>
          (case map_of (ov_entries ov) (cfold path) of
             None \<Rightarrow> Some (Inl RNotFound)
           | Some root \<Rightarrow> do {
               parent_stored \<leftarrow> parent (re_path root);
               let new_path = parent_stored @ [backslash] @ new_leaf;
               let new_f = cfold new_path;
               if new_f \<noteq> cfold path \<and> map_of (ov_entries ov) new_f \<noteq> None then Some (Inl AlreadyExists)
               else rename_move path par new_leaf (re_path root) new_path new_f now ov })))"

definition insert_node :: "rstr \<Rightarrow> reg_node \<Rightarrow> u64 \<Rightarrow> overlay \<Rightarrow> reg_error + overlay" where
  "insert_node path node changed ov =
     rbind (check_path path) (\<lambda>_. rbind (check_depth path MAX_DECODE_DEPTH) (\<lambda>_.
       (let f = cfold path;
            ov = fold (\<lambda>(cf, s, st) ov. if st = CTombstone then tomb (f @ [backslash] @ cf) changed ov else ov)
              (rn_children node) ov;
            ov = ov\<lparr>ov_tombs := odel f (ov_tombs ov)\<rparr> in
        Inr (set_entry f \<lparr>re_path = path, re_node = node, re_changed = changed, re_subtree = changed\<rparr> ov))))"

function deleted_since :: "overlay \<Rightarrow> u64 \<Rightarrow> rstr \<Rightarrow> bool" where
  "deleted_since ov version cur =
     (if (case map_of (ov_deleted_at ov) cur of Some t \<Rightarrow> version < t | None \<Rightarrow> False) then True
      else (case parent cur of Some p \<Rightarrow> deleted_since ov version p | None \<Rightarrow> version < ov_deleted_floor ov))"
  by pat_completeness auto

termination deleted_since
  by (relation "measure (\<lambda>(ov, version, cur). length cur)") (auto dest: parent_shorter)

declare deleted_since.simps [simp del]

definition changed_since :: "overlay \<Rightarrow> rstr \<Rightarrow> bool \<Rightarrow> u64 \<Rightarrow> bool" where
  "changed_since ov path subtree version =
     (let f = cfold path in
      case map_of (ov_entries ov) f of
        Some e \<Rightarrow> version < re_changed e \<or> (subtree \<and> version < re_subtree e)
      | None \<Rightarrow> deleted_since ov version f)"

end
