(* ===== verification/Reg_Tree.thy ===== *)
theory Reg_Tree
  imports Reg_Overlay
begin

text \<open>
  The overlay read as a tree over lists of folded names: \<open>ent\<close>, \<open>tmb\<close> and \<open>del\<close> are the three maps
  of the overlay, and each internal step of \<open>Reg_Overlay\<close> is a function update of them. The
  invariant \<open>tree_ok\<close> says that a key's child list describes exactly the entries and the
  tombstones one level below it.
\<close>

section \<open>Range queries\<close>

lemma prefix_le: "prefix p x \<Longrightarrow> (p :: nat list) \<le> x"
  by (induction p arbitrary: x) (auto simp: prefix_def)

lemma prefix_convex: "(p :: nat list) \<le> x \<Longrightarrow> x \<le> p @ s \<Longrightarrow> prefix p x"
proof (induction p arbitrary: x)
  case (Cons a p)
  then show ?case by (cases x) auto
qed simp

lemma takeWhile_filter_ordered:
  "ordered m \<Longrightarrow> \<forall>k\<in>fst ` set m. pre \<le> k \<Longrightarrow>
     takeWhile (\<lambda>kv. prefix pre (fst kv)) m = filter (\<lambda>kv. prefix (pre :: rstr) (fst kv)) m"
proof (induction m)
  case (Cons kv m)
  obtain k v where kv: "kv = (k, v)" by (cases kv)
  have m: "ordered m" "\<forall>k'\<in>fst ` set m. k < k'" using Cons.prems(1) by (simp_all add: kv ordered_Cons)
  have "\<not> prefix pre k'" if "\<not> prefix pre k" "k' \<in> fst ` set m" for k'
  proof
    assume "prefix pre k'"
    then obtain s where "k' = pre @ s" by (auto simp: prefix_def)
    moreover have "k < k'" "pre \<le> k" using that m Cons.prems(2) by (auto simp: kv)
    ultimately show False using prefix_convex [of pre k s] that(1) less_imp_le [of k "pre @ s"] by blast
  qed
  then show ?case using Cons.IH [OF m(1)] Cons.prems(2) by (auto simp: kv filter_empty_conv)
qed simp

lemma range_from_filter:
  "ordered m \<Longrightarrow> range_from pre m = filter (\<lambda>kv. pre \<le> fst kv) m"
proof (induction m)
  case (Cons kv m)
  obtain k v where kv: "kv = (k, v)" by (cases kv)
  have m: "ordered m" "\<forall>k'\<in>fst ` set m. k < k'" using Cons.prems by (simp_all add: kv ordered_Cons)
  have "filter (\<lambda>kv. pre \<le> fst kv) m = m" if "pre \<le> k"
    using that m(2) by (auto simp: filter_id_conv)
  then show ?case using Cons.IH [OF m(1)] by (auto simp: kv range_from_def)
qed (simp add: range_from_def)

lemma ordered_filter: "ordered m \<Longrightarrow> ordered (filter P m)"
  by (induction m) (auto simp: ordered_Cons)

lemma range_under_filter:
  assumes "ordered m"
  shows "range_under pre m = filter (\<lambda>kv. prefix pre (fst kv)) m"
proof -
  have "range_under pre m = takeWhile (\<lambda>kv. prefix pre (fst kv)) (filter (\<lambda>kv. pre \<le> fst kv) m)"
    by (simp add: range_under_def range_from_filter [OF assms])
  also have "\<dots> = filter (\<lambda>kv. prefix pre (fst kv)) (filter (\<lambda>kv. pre \<le> fst kv) m)"
    using assms by (intro takeWhile_filter_ordered) (auto intro: ordered_filter)
  also have "\<dots> = filter (\<lambda>kv. prefix pre (fst kv)) m"
    by (auto intro!: filter_cong dest: prefix_le)
  finally show ?thesis .
qed

lemma next_under_iff:
  assumes "ordered m"
  shows "next_under pre m \<longleftrightarrow> (\<exists>k\<in>fst ` set m. prefix pre k)"
proof -
  have "next_under pre m \<longleftrightarrow> range_under pre m \<noteq> []"
    by (auto simp: next_under_def range_under_def split: list.splits)
  also have "\<dots> \<longleftrightarrow> (\<exists>k\<in>fst ` set m. prefix pre k)"
    by (auto simp: range_under_filter [OF assms] filter_empty_conv)
  finally show ?thesis .
qed

lemma map_of_remove_keys [simp]: "map_of (remove_keys ks m) k = (if k \<in> set ks then None else map_of m k)"
  by (induction ks arbitrary: m) (auto simp: remove_keys_def)

lemma ordered_remove_keys [simp]: "ordered m \<Longrightarrow> ordered (remove_keys ks m)"
  by (induction ks arbitrary: m) (auto simp: remove_keys_def)

lemma keys_remove_keys [simp]: "fst ` set (remove_keys ks m) = fst ` set m - set ks"
  by (induction ks arbitrary: m) (auto simp: remove_keys_def)

section \<open>Keys as lists of names\<close>

definition folded :: "rstr list \<Rightarrow> bool" where
  "folded cs \<longleftrightarrow> reg_comps cs \<and> map cfold cs = cs"

definition keyed :: "(rstr \<times> 'v) list \<Rightarrow> bool" where
  "keyed m \<longleftrightarrow> (\<forall>k\<in>fst ` set m. \<exists>cs. folded cs \<and> k = mkpath cs)"

definition at :: "(rstr \<times> 'v) list \<Rightarrow> rstr list \<Rightarrow> 'v option" where
  "at m cs = (if folded cs then map_of m (mkpath cs) else None)"

lemma folded_names: "folded cs \<Longrightarrow> \<forall>c\<in>set cs. backslash \<notin> set c"
  unfolding folded_def using reg_comps_names by blast

lemma folded_inj: "folded cs \<Longrightarrow> folded ds \<Longrightarrow> mkpath cs = mkpath ds \<longleftrightarrow> cs = ds"
  by (simp add: folded_names mkpath_inj)

lemma folded_Nil [simp]: "\<not> folded []"
  by (simp add: folded_def reg_comps_def)

lemma folded_map [simp]: "folded (map cfold cs) \<longleftrightarrow> reg_comps cs"
  by (simp add: folded_def comp_def)

lemma folded_snoc: "folded (cs @ [c]) \<longleftrightarrow> (if cs = [] then c = lit ''registry'' else folded cs \<and> name_ok c \<and> cfold c = c)"
  by (auto simp: folded_def reg_comps_def name_ok_def) (auto simp: lit_def)

lemma folded_prefix: "folded (cs @ ds) \<Longrightarrow> cs \<noteq> [] \<Longrightarrow> folded cs"
  by (auto simp: folded_def reg_comps_def)

lemma at_Nil [simp]: "at m [] = None"
  by (simp add: at_def)

lemma at_Some_folded: "at m cs = Some x \<Longrightarrow> folded cs"
  by (simp add: at_def split: if_splits)

lemma at_oins: "folded cs \<Longrightarrow> at (oins (mkpath cs) x m) = (at m)(cs \<mapsto> x)"
  by (auto simp: at_def fun_eq_iff folded_inj)

lemma at_odel: "folded cs \<Longrightarrow> at (odel (mkpath cs) m) = (at m)(cs := None)"
  by (auto simp: at_def fun_eq_iff folded_inj)

lemma map_of_at: "folded cs \<Longrightarrow> map_of m (mkpath cs) = at m cs"
  by (simp add: at_def)

lemma keyed_oins: "folded cs \<Longrightarrow> keyed m \<Longrightarrow> keyed (oins (mkpath cs) x m)"
  by (auto simp: keyed_def)

lemma keyed_odel: "keyed m \<Longrightarrow> keyed (odel k m)"
  by (auto simp: keyed_def)

lemma keyed_remove_keys: "keyed m \<Longrightarrow> keyed (remove_keys ks m)"
  by (auto simp: keyed_def)

lemma keyed_at: "keyed m \<Longrightarrow> map_of m k = Some x \<Longrightarrow> \<exists>cs. folded cs \<and> k = mkpath cs \<and> at m cs = Some x"
proof -
  assume m: "keyed m" and k: "map_of m k = Some x"
  have "k \<in> fst ` set m" using map_of_SomeD [OF k] by force
  then obtain cs where "folded cs" "k = mkpath cs" using m unfolding keyed_def by blast
  with k show ?thesis by (auto simp: at_def)
qed

lemma below_folded:
  "folded cs \<Longrightarrow> folded ds \<Longrightarrow> prefix (child_prefix (mkpath cs)) (mkpath ds) \<longleftrightarrow> strict_prefix cs ds"
  unfolding child_prefix_def by (rule below_iff [OF folded_names folded_names])

lemma at_remove_keys:
  assumes "\<And>ds. folded ds \<Longrightarrow> mkpath ds \<in> set ks \<Longrightarrow> P ds"
    and "\<And>ds. P ds \<Longrightarrow> at m ds \<noteq> None \<Longrightarrow> mkpath ds \<in> set ks"
  shows "at (remove_keys ks m) ds = (if P ds then None else at m ds)"
  using assms(1) [of ds] assms(2) [of ds] by (cases "map_of m (mkpath ds)") (auto simp: at_def)

lemma next_under_at:
  assumes "ordered m" "keyed m" "folded cs"
  shows "next_under (child_prefix (mkpath cs)) m \<longleftrightarrow> (\<exists>ds. strict_prefix cs ds \<and> at m ds \<noteq> None)"
proof
  assume "next_under (child_prefix (mkpath cs)) m"
  then obtain k where k: "k \<in> fst ` set m" "prefix (child_prefix (mkpath cs)) k"
    using next_under_iff [OF assms(1)] by blast
  obtain x where x: "map_of m k = Some x" using k(1) by (metis map_of_eq_None_iff option.exhaust)
  from keyed_at [OF assms(2) x] obtain ds where "folded ds" "k = mkpath ds" "at m ds = Some x" by blast
  then show "\<exists>ds. strict_prefix cs ds \<and> at m ds \<noteq> None"
    using k(2) below_folded [OF assms(3), of ds] by auto
next
  assume "\<exists>ds. strict_prefix cs ds \<and> at m ds \<noteq> None"
  then obtain ds x where ds: "strict_prefix cs ds" "at m ds = Some x" by blast
  have f: "folded ds" using ds(2) by (rule at_Some_folded)
  then have "map_of m (mkpath ds) = Some x" using ds(2) by (simp add: at_def)
  from map_of_SomeD [OF this] have "mkpath ds \<in> fst ` set m" by force
  then show "next_under (child_prefix (mkpath cs)) m"
    using below_folded [OF assms(3) f] ds(1) next_under_iff [OF assms(1)] by blast
qed

lemma range_under_keys:
  assumes "ordered m" "folded cs" "folded ds"
  shows "mkpath ds \<in> set (map fst (range_under (child_prefix (mkpath cs)) m)) \<longleftrightarrow>
    strict_prefix cs ds \<and> at m ds \<noteq> None"
proof -
  have "mkpath ds \<in> fst ` set m \<longleftrightarrow> at m ds \<noteq> None"
    using assms(3) by (simp add: at_def map_of_eq_None_iff)
  then show ?thesis
    using below_folded [OF assms(2,3)] by (auto simp: range_under_filter [OF assms(1)])
qed

end
