(* ===== verification/Reg_Invariant.thy ===== *)
theory Reg_Invariant
  imports Reg_Tree
begin

text \<open>
  The overlay's invariant and its preservation. Every operation keeps it, and under it no
  \<^verbatim>\<open>expect\<close>, index or slice of the overlay panics.
\<close>

named_theorems ov_simps \<open>the maps of an overlay after an internal step\<close>

section \<open>The three maps\<close>

definition ent :: "overlay \<Rightarrow> rstr list \<Rightarrow> reg_entry option" where
  "ent ov = at (ov_entries ov)"

definition tmb :: "overlay \<Rightarrow> rstr list \<Rightarrow> u64 option" where
  "tmb ov = at (ov_tombs ov)"

definition maps_ok :: "overlay \<Rightarrow> bool" where
  "maps_ok ov \<longleftrightarrow> ordered (ov_entries ov) \<and> ordered (ov_tombs ov) \<and> ordered (ov_deleted_at ov) \<and>
     keyed (ov_entries ov) \<and> keyed (ov_tombs ov) \<and> keyed (ov_deleted_at ov)"

lemma ent_folded: "ent ov cs = Some e \<Longrightarrow> folded cs"
  by (simp add: ent_def at_Some_folded)

lemma tmb_folded: "tmb ov cs = Some v \<Longrightarrow> folded cs"
  by (simp add: tmb_def at_Some_folded)

lemma ent_Nil [simp]: "ent ov [] = None" "tmb ov [] = None"
  by (simp_all add: ent_def tmb_def)

lemma entries_ent: "folded cs \<Longrightarrow> map_of (ov_entries ov) (mkpath cs) = ent ov cs"
  by (simp add: ent_def map_of_at)

lemma tombs_tmb: "folded cs \<Longrightarrow> map_of (ov_tombs ov) (mkpath cs) = tmb ov cs"
  by (simp add: tmb_def map_of_at)

lemma ent_set_entry [ov_simps]:
  "folded cs \<Longrightarrow> ent (set_entry (mkpath cs) e ov) = (ent ov)(cs \<mapsto> e)"
  "tmb (set_entry k e ov) = tmb ov"
  by (simp_all add: ent_def tmb_def set_entry_def at_oins)

lemma set_entry_frame [ov_simps]:
  "ov_deleted_at (set_entry k e ov) = ov_deleted_at ov"
  "ov_deleted_floor (set_entry k e ov) = ov_deleted_floor ov"
  "ov_version (set_entry k e ov) = ov_version ov" "ov_tombs (set_entry k e ov) = ov_tombs ov"
  by (simp_all add: set_entry_def)

lemma maps_ok_set_entry [ov_simps]:
  "folded cs \<Longrightarrow> maps_ok ov \<Longrightarrow> maps_ok (set_entry (mkpath cs) e ov)"
  by (simp add: maps_ok_def set_entry_def keyed_oins)

lemma del_tomb_steps [ov_simps]:
  "ent (ov\<lparr>ov_tombs := t\<rparr>) = ent ov" "tmb (ov\<lparr>ov_tombs := t\<rparr>) = at t"
  "ent (ov\<lparr>ov_version := v\<rparr>) = ent ov" "tmb (ov\<lparr>ov_version := v\<rparr>) = tmb ov"
  "maps_ok (ov\<lparr>ov_version := v\<rparr>) = maps_ok ov"
  by (simp_all add: ent_def tmb_def maps_ok_def)

lemma at_odel_tombs [ov_simps]: "folded cs \<Longrightarrow> at (odel (mkpath cs) (ov_tombs ov)) = (tmb ov)(cs := None)"
  by (simp add: tmb_def at_odel)

lemma maps_ok_odel [ov_simps]: "maps_ok ov \<Longrightarrow> maps_ok (ov\<lparr>ov_tombs := odel k (ov_tombs ov)\<rparr>)"
  by (simp add: maps_ok_def keyed_odel)

lemma upd_entry_eq:
  "folded cs \<Longrightarrow> upd_entry (mkpath cs) f ov =
     (case ent ov cs of None \<Rightarrow> None | Some e \<Rightarrow> Some (set_entry (mkpath cs) (f e) ov))"
  by (simp add: upd_entry_def entries_ent)

lemma tomb_frame [ov_simps]:
  "ent (tomb k v ov) = ent ov" "ov_version (tomb k v ov) = ov_version ov"
  "ov_entries (tomb k v ov) = ov_entries ov" "ov_tombs (tomb k v ov) = oins k v (ov_tombs ov)"
  by (simp_all add: tomb_def Let_def ent_def)

lemma tmb_tomb [ov_simps]: "folded cs \<Longrightarrow> tmb (tomb (mkpath cs) v ov) = (tmb ov)(cs \<mapsto> v)"
  by (simp add: tmb_def ov_simps at_oins)

lemma maps_ok_tomb [ov_simps]: "folded cs \<Longrightarrow> maps_ok ov \<Longrightarrow> maps_ok (tomb (mkpath cs) v ov)"
  by (simp add: maps_ok_def tomb_def Let_def keyed_oins) (simp add: keyed_def)

lemma ent_touch:
  assumes "folded cs"
  shows "ent (touch (mkpath cs) v ov) = (ent ov)(cs := map_option (re_subtree_update (\<lambda>_. v)) (ent ov cs))"
    and "tmb (touch (mkpath cs) v ov) = tmb ov"
    and "maps_ok ov \<Longrightarrow> maps_ok (touch (mkpath cs) v ov)"
    and "ov_deleted_at (touch (mkpath cs) v ov) = ov_deleted_at ov"
    and "ov_deleted_floor (touch (mkpath cs) v ov) = ov_deleted_floor ov"
    and "ov_version (touch (mkpath cs) v ov) = ov_version ov"
  using assms by (auto simp: touch_def entries_ent ov_simps fun_eq_iff split: option.splits)

lemma parent_comps:
  "reg_comps (cs @ [c]) \<Longrightarrow> parent (mkpath (cs @ [c])) = (if cs = [] then None else Some (mkpath cs))"
  using reg_comps_names [of "cs @ [c]"] by (intro parent_mkpath) simp

lemma touch_ancestors_spec:
  assumes "reg_comps cs"
  shows "ent (touch_ancestors (mkpath cs) v ov) = (\<lambda>ds. if strict_prefix ds (map cfold cs)
        then map_option (re_subtree_update (\<lambda>_. v)) (ent ov ds) else ent ov ds)"
    and "tmb (touch_ancestors (mkpath cs) v ov) = tmb ov"
    and "maps_ok ov \<Longrightarrow> maps_ok (touch_ancestors (mkpath cs) v ov)"
    and "ov_deleted_at (touch_ancestors (mkpath cs) v ov) = ov_deleted_at ov"
    and "ov_deleted_floor (touch_ancestors (mkpath cs) v ov) = ov_deleted_floor ov"
    and "ov_version (touch_ancestors (mkpath cs) v ov) = ov_version ov"
proof -
  have "ent (touch_ancestors (mkpath cs) v ov) = (\<lambda>ds. if strict_prefix ds (map cfold cs)
        then map_option (re_subtree_update (\<lambda>_. v)) (ent ov ds) else ent ov ds) \<and>
    tmb (touch_ancestors (mkpath cs) v ov) = tmb ov \<and>
    (maps_ok ov \<longrightarrow> maps_ok (touch_ancestors (mkpath cs) v ov)) \<and>
    ov_deleted_at (touch_ancestors (mkpath cs) v ov) = ov_deleted_at ov \<and>
    ov_deleted_floor (touch_ancestors (mkpath cs) v ov) = ov_deleted_floor ov \<and>
    ov_version (touch_ancestors (mkpath cs) v ov) = ov_version ov" (is "?P cs ov")
    using assms
  proof (induction cs arbitrary: ov rule: rev_induct)
    case (snoc c cs)
    show ?case
    proof (cases "cs = []")
      case True
      have par: "parent (mkpath (cs @ [c])) = None"
        unfolding parent_comps [OF snoc.prems] using True by (rule if_P)
      have "touch_ancestors (mkpath (cs @ [c])) v ov = ov"
        by (subst touch_ancestors.simps) (simp only: par option.case)
      moreover have "strict_prefix ds (map cfold (cs @ [c])) \<longleftrightarrow> ds = []" for ds
        by (auto simp: True strict_prefix_def prefix_Cons)
      ultimately show ?thesis by (auto simp: fun_eq_iff)
    next
      case False
      have rc: "reg_comps cs" using snoc.prems False by (simp add: reg_comps_def)
      have f: "folded (map cfold cs)" using rc by simp
      have par: "parent (mkpath (cs @ [c])) = Some (mkpath cs)"
        unfolding parent_comps [OF snoc.prems] using False by (rule if_not_P)
      have t: "touch_ancestors (mkpath (cs @ [c])) v ov =
          touch_ancestors (mkpath cs) v (touch (mkpath (map cfold cs)) v ov)"
        by (subst touch_ancestors.simps) (simp only: par option.case cfold_mkpath)
      have "strict_prefix ds (map cfold (cs @ [c])) \<longleftrightarrow> ds = map cfold cs \<or> strict_prefix ds (map cfold cs)" for ds
        by (auto simp: strict_prefix_def prefix_snoc)
      with snoc.IH [OF rc, of "touch (mkpath (map cfold cs)) v ov"] ent_touch [OF f, where v = v and ov = ov]
      show ?thesis unfolding t by (auto simp: fun_eq_iff)
    qed
  qed (simp add: reg_comps_def)
  then show "ent (touch_ancestors (mkpath cs) v ov) = (\<lambda>ds. if strict_prefix ds (map cfold cs)
        then map_option (re_subtree_update (\<lambda>_. v)) (ent ov ds) else ent ov ds)"
    "tmb (touch_ancestors (mkpath cs) v ov) = tmb ov"
    "maps_ok ov \<Longrightarrow> maps_ok (touch_ancestors (mkpath cs) v ov)"
    "ov_deleted_at (touch_ancestors (mkpath cs) v ov) = ov_deleted_at ov"
    "ov_deleted_floor (touch_ancestors (mkpath cs) v ov) = ov_deleted_floor ov"
    "ov_version (touch_ancestors (mkpath cs) v ov) = ov_version ov" by simp_all
qed

lemma subtree_keys_iff:
  assumes "maps_ok ov" "folded cs" "folded ds"
  shows "mkpath ds \<in> set (subtree_keys ov (mkpath cs)) \<longleftrightarrow> prefix cs ds \<and> ent ov ds \<noteq> None"
proof -
  have "mkpath ds \<in> set (if ent ov cs \<noteq> None then [mkpath cs] else []) \<longleftrightarrow> ds = cs \<and> ent ov ds \<noteq> None"
    using folded_inj [OF assms(3,2)] by auto
  moreover have "mkpath ds \<in> set (map fst (range_under (child_prefix (mkpath cs)) (ov_entries ov))) \<longleftrightarrow>
      strict_prefix cs ds \<and> ent ov ds \<noteq> None"
    unfolding ent_def using assms(1) by (intro range_under_keys [OF _ assms(2,3)]) (simp add: maps_ok_def)
  ultimately show ?thesis
    unfolding subtree_keys_def entries_ent [OF assms(2)] set_append Un_iff strict_prefix_def by blast
qed

lemma remove_subtree_spec:
  assumes "maps_ok ov" "folded cs"
  shows "ent (remove_subtree (mkpath cs) ov) = (\<lambda>ds. if prefix cs ds then None else ent ov ds)"
    and "tmb (remove_subtree (mkpath cs) ov) = (\<lambda>ds. if prefix cs ds then None else tmb ov ds)"
    and "maps_ok (remove_subtree (mkpath cs) ov)"
proof -
  show "ent (remove_subtree (mkpath cs) ov) = (\<lambda>ds. if prefix cs ds then None else ent ov ds)"
  proof
    fix ds
    have "at (remove_keys (subtree_keys ov (mkpath cs)) (ov_entries ov)) ds =
        (if prefix cs ds then None else at (ov_entries ov) ds)"
      using subtree_keys_iff [OF assms]
      by (intro at_remove_keys) (auto simp: ent_def dest: at_Some_folded)
    then show "ent (remove_subtree (mkpath cs) ov) ds = (if prefix cs ds then None else ent ov ds)"
      by (simp add: ent_def remove_subtree_def)
  qed
  show "tmb (remove_subtree (mkpath cs) ov) = (\<lambda>ds. if prefix cs ds then None else tmb ov ds)"
  proof
    fix ds
    have o: "ordered (ov_tombs ov)" using assms(1) by (simp add: maps_ok_def)
    have "at (remove_keys (map fst (range_under (child_prefix (mkpath cs)) (ov_tombs ov))) (ov_tombs ov)) ds =
        (if strict_prefix cs ds then None else at (ov_tombs ov) ds)"
      using range_under_keys [OF o assms(2)] by (intro at_remove_keys) (auto dest: at_Some_folded)
    then show "tmb (remove_subtree (mkpath cs) ov) ds = (if prefix cs ds then None else tmb ov ds)"
      by (auto simp: tmb_def remove_subtree_def at_odel [OF assms(2)] strict_prefix_def)
  qed
  show "maps_ok (remove_subtree (mkpath cs) ov)"
    using assms(1) by (simp add: maps_ok_def remove_subtree_def keyed_odel keyed_remove_keys)
qed

lemma remove_subtree_frame [ov_simps]:
  "ov_deleted_at (remove_subtree k ov) = ov_deleted_at ov"
  "ov_deleted_floor (remove_subtree k ov) = ov_deleted_floor ov"
  "ov_version (remove_subtree k ov) = ov_version ov"
  by (simp_all add: remove_subtree_def)

section \<open>The invariant\<close>

text \<open>What an entry's child list says of the name \<open>c\<close>, given the entry and the tombstone one level
  below under that name.\<close>

definition kid_ok :: "reg_entry \<Rightarrow> rstr \<Rightarrow> reg_entry option \<Rightarrow> u64 option \<Rightarrow> bool" where
  "kid_ok e c x t =
     (let k = map_of (rn_children (re_node e)) c in
      case x of
        Some e' \<Rightarrow> \<exists>s. k = Some (s, CPresent) \<and> cfold s = c \<and> re_path e' = re_path e @ backslash # s
      | None \<Rightarrow> (case t of
          Some _ \<Rightarrow> \<exists>s. k = Some (s, CTombstone) \<and> cfold s = c
        | None \<Rightarrow> k = None))"

definition entry_ok :: "rstr list \<Rightarrow> reg_entry \<Rightarrow> bool" where
  "entry_ok cs e \<longleftrightarrow> (\<exists>ds. re_path e = mkpath ds \<and> map cfold ds = cs) \<and> ordered (rn_children (re_node e))"

definition closed_tree :: "(rstr list \<Rightarrow> reg_entry option) \<Rightarrow> (rstr list \<Rightarrow> u64 option) \<Rightarrow> bool" where
  "closed_tree E T \<longleftrightarrow>
     (\<forall>cs c. cs \<noteq> [] \<and> E (cs @ [c]) \<noteq> None \<longrightarrow> E cs \<noteq> None) \<and>
     (\<forall>cs c. T (cs @ [c]) \<noteq> None \<longrightarrow> E cs \<noteq> None) \<and>
     (\<forall>cs. E cs \<noteq> None \<longrightarrow> T cs = None)"

definition tree_ok :: "(rstr list \<Rightarrow> reg_entry option) \<Rightarrow> (rstr list \<Rightarrow> u64 option) \<Rightarrow> bool" where
  "tree_ok E T \<longleftrightarrow> closed_tree E T \<and>
     (\<forall>cs e. E cs = Some e \<longrightarrow> entry_ok cs e \<and> (\<forall>c. kid_ok e c (E (cs @ [c])) (T (cs @ [c]))))"

definition ov_inv :: "overlay \<Rightarrow> bool" where
  "ov_inv ov \<longleftrightarrow> maps_ok ov \<and> tree_ok (ent ov) (tmb ov)"

lemma tree_okI:
  assumes "\<And>cs c e. cs \<noteq> [] \<Longrightarrow> E (cs @ [c]) = Some e \<Longrightarrow> E cs \<noteq> None"
    and "\<And>cs c v. T (cs @ [c]) = Some v \<Longrightarrow> E cs \<noteq> None"
    and "\<And>cs e. E cs = Some e \<Longrightarrow> T cs = None"
    and "\<And>cs e. E cs = Some e \<Longrightarrow> entry_ok cs e"
    and "\<And>cs e c. E cs = Some e \<Longrightarrow> kid_ok e c (E (cs @ [c])) (T (cs @ [c]))"
  shows "tree_ok E T"
  unfolding tree_ok_def closed_tree_def using assms by (metis option.exhaust)

lemma tree_okD:
  assumes "tree_ok E T"
  shows "cs \<noteq> [] \<Longrightarrow> E (cs @ [c]) = Some e \<Longrightarrow> \<exists>pe. E cs = Some pe"
    and "T (cs @ [c]) = Some v \<Longrightarrow> \<exists>pe. E cs = Some pe"
    and "E cs = Some e \<Longrightarrow> T cs = None" and "E cs = Some e \<Longrightarrow> entry_ok cs e"
    and "E cs = Some e \<Longrightarrow> kid_ok e c (E (cs @ [c])) (T (cs @ [c]))"
    and "closed_tree E T"
  using assms unfolding tree_ok_def closed_tree_def by (metis option.distinct(1) option.exhaust)+

lemma closed_below:
  assumes "closed_tree E T" and "E cs = None" and "cs \<noteq> []" and "ds \<noteq> []"
  shows "E (cs @ ds) = None \<and> T (cs @ ds) = None"
  using assms(4)
proof (induction ds rule: rev_induct)
  case (snoc d ds)
  have "E (cs @ ds) = None" using snoc.IH assms(2) by (cases "ds = []") auto
  moreover have "cs @ ds \<noteq> []" using assms(3) by simp
  ultimately show ?case using assms(1) unfolding closed_tree_def by (metis append_assoc)
qed simp

lemma kid_ok_cong:
  "map_option re_path x = map_option re_path x' \<Longrightarrow> re_path e = re_path e' \<Longrightarrow>
   map_of (rn_children (re_node e)) c = map_of (rn_children (re_node e')) c \<Longrightarrow>
   t = None \<longleftrightarrow> t' = None \<Longrightarrow> kid_ok e c x t \<longleftrightarrow> kid_ok e' c x' t'"
  by (auto simp: kid_ok_def Let_def split: option.splits)

definition shape :: "reg_entry \<Rightarrow> rstr \<times> (rstr \<times> rstr \<times> reg_child) list" where
  "shape e = (re_path e, rn_children (re_node e))"

lemma map_shape_path: "map_option shape x = map_option shape y \<Longrightarrow> map_option re_path x = map_option re_path y"
  by (cases x; cases y) (auto simp: shape_def)

lemma tree_ok_shape:
  assumes "\<And>cs. map_option shape (E' cs) = map_option shape (E cs)" and "tree_ok E T"
  shows "tree_ok E' T"
proof -
  have n: "E' cs = None \<longleftrightarrow> E cs = None" for cs using assms(1) [of cs] by (cases "E' cs"; cases "E cs") auto
  have "entry_ok cs e' \<and> (\<forall>c. kid_ok e' c (E' (cs @ [c])) (T (cs @ [c])))" if e': "E' cs = Some e'" for cs e'
  proof -
    obtain e where e: "E cs = Some e" "shape e' = shape e" using assms(1) [of cs] e' by (cases "E cs") auto
    then have "entry_ok cs e" "\<forall>c. kid_ok e c (E (cs @ [c])) (T (cs @ [c]))"
      using assms(2) by (auto simp: tree_ok_def)
    moreover have "kid_ok e' c (E' (cs @ [c])) (T (cs @ [c])) \<longleftrightarrow> kid_ok e c (E (cs @ [c])) (T (cs @ [c]))" for c
      using e(2) by (intro kid_ok_cong map_shape_path assms(1)) (auto simp: shape_def)
    moreover have "entry_ok cs e' \<longleftrightarrow> entry_ok cs e" using e(2) by (simp add: entry_ok_def shape_def)
    ultimately show ?thesis by blast
  qed
  moreover have "closed_tree E' T \<longleftrightarrow> closed_tree E T" by (simp add: closed_tree_def n)
  ultimately show ?thesis using assms(2) unfolding tree_ok_def by blast
qed

lemma tree_ok_upd:
  assumes "tree_ok E T" and "E cs = Some e" and "shape e' = shape e"
  shows "tree_ok (E(cs \<mapsto> e')) T"
  by (rule tree_ok_shape [OF _ assms(1)]) (use assms(2,3) in auto)

text \<open>A new key below an existing one (or the root): the parent's list gains it and a tombstone of
  that name goes.\<close>

definition with_child :: "rstr \<Rightarrow> rstr \<Rightarrow> reg_child \<Rightarrow> reg_entry \<Rightarrow> reg_entry \<Rightarrow> bool" where
  "with_child c s st pe pe' \<longleftrightarrow> re_path pe' = re_path pe \<and> cfold s = c \<and>
     rn_children (re_node pe') = oins c (s, st) (rn_children (re_node pe))"

lemma with_childD:
  "with_child c s st pe pe' \<Longrightarrow> map_of (rn_children (re_node pe')) = (map_of (rn_children (re_node pe)))(c \<mapsto> (s, st))"
  "with_child c s st pe pe' \<Longrightarrow> re_path pe' = re_path pe" "with_child c s st pe pe' \<Longrightarrow> cfold s = c"
  "with_child c s st pe pe' \<Longrightarrow> entry_ok cs pe \<Longrightarrow> entry_ok cs pe'"
  by (auto simp: with_child_def entry_ok_def)

lemma tree_ok_add_root:
  assumes t: "tree_ok E T" and "E [r] = None" and "E [] = None"
    and "entry_ok [r] e'" and "rn_children (re_node e') = []"
  shows "tree_ok (E([r] \<mapsto> e')) (T([r] := None))"
proof (rule tree_okI)
  have none: "E ([r] @ [c]) = None" "T ([r] @ [c]) = None" for c
    using closed_below [OF tree_okD(6) [OF t] assms(2), of "[c]"] by auto
  fix cs c
  show "(E([r] \<mapsto> e')) cs \<noteq> None" if "cs \<noteq> []" "(E([r] \<mapsto> e')) (cs @ [c]) = Some e" for e
    using that tree_okD(1) [OF t that(1), of c e] by (auto split: if_splits)
  show "(E([r] \<mapsto> e')) cs \<noteq> None" if "(T([r] := None)) (cs @ [c]) = Some v" for v
    using that tree_okD(2) [OF t, of cs c v] by (auto split: if_splits)
  fix e assume e: "(E([r] \<mapsto> e')) cs = Some e"
  show "(T([r] := None)) cs = None" "entry_ok cs e"
    using e tree_okD(3,4) [OF t, of cs e] assms(4) by (auto split: if_splits)
  show "kid_ok e c ((E([r] \<mapsto> e')) (cs @ [c])) ((T([r] := None)) (cs @ [c]))"
  proof (cases "cs = [r]")
    case True
    then show ?thesis using e none [of c] assms(5) by (simp add: kid_ok_def)
  next
    case False
    then have "E cs = Some e" using e by simp
    moreover have "cs \<noteq> []" using \<open>E cs = Some e\<close> assms(3) by auto
    ultimately show ?thesis using tree_okD(5) [OF t, of cs e c] by simp
  qed
qed

lemma tree_ok_add_child:
  assumes t: "tree_ok E T" and pe: "E ps = Some pe" and ps: "ps \<noteq> []" and n: "E (ps @ [c]) = None"
    and w: "with_child c s CPresent pe pe'"
    and p: "re_path e' = re_path pe @ backslash # s" and k: "rn_children (re_node e') = []"
  shows "tree_ok (E(ps @ [c] \<mapsto> e', ps \<mapsto> pe')) (T(ps @ [c] := None))" (is "tree_ok ?E ?T")
proof (rule tree_okI)
  have none: "E ((ps @ [c]) @ [d]) = None" "T ((ps @ [c]) @ [d]) = None" for d
    using closed_below [OF tree_okD(6) [OF t] n, of "[d]"] by auto
  have path: "map_option re_path (?E ds) = map_option re_path (E ds)" if "ds \<noteq> ps @ [c]" for ds
    using that pe with_childD(2) [OF w] by simp
  fix cs d
  have up: "?E cs \<noteq> None" if "E cs \<noteq> None" using that by simp
  show "?E cs \<noteq> None" if "cs \<noteq> []" "?E (cs @ [d]) = Some e" for e
    using that tree_okD(1) [OF t that(1), of d] pe up by (auto split: if_splits)
  show "?E cs \<noteq> None" if "?T (cs @ [d]) = Some v" for v
    using that tree_okD(2) [OF t, of cs d v] up by (auto split: if_splits)
  fix e assume e: "?E cs = Some e"
  show "?T cs = None"
    using e pe tree_okD(3) [OF t, of cs] by (auto split: if_splits)
  have "entry_ok (ps @ [c]) e'"
    using tree_okD(4) [OF t pe] p k with_childD(3) [OF w]
    by (auto simp: entry_ok_def) (metis list.simps(8,9) map_append mkpath_simps(1,2,3) append_Nil2)
  then show "entry_ok cs e"
    using e pe tree_okD(4) [OF t, of cs] with_childD(4) [OF w] by (auto split: if_splits)
  consider "cs = ps @ [c]" | "cs = ps" "d = c" | "cs = ps" "d \<noteq> c" | "cs \<noteq> ps" "cs \<noteq> ps @ [c]" by blast
  then show "kid_ok e d (?E (cs @ [d])) (?T (cs @ [d]))"
  proof cases
    case 1
    then show ?thesis using e none [of d] k by (simp add: kid_ok_def)
  next
    case 2
    then show ?thesis using e with_childD [OF w] p by (simp add: kid_ok_def)
  next
    case 3
    have "kid_ok e d (?E (cs @ [d])) (?T (cs @ [d])) \<longleftrightarrow> kid_ok pe d (E (ps @ [d])) (T (ps @ [d]))"
      using 3 e with_childD [OF w] path [of "ps @ [d]"] by (intro kid_ok_cong) auto
    then show ?thesis using tree_okD(5) [OF t pe] by blast
  next
    case 4
    have "kid_ok e d (?E (cs @ [d])) (?T (cs @ [d])) \<longleftrightarrow> kid_ok e d (E (cs @ [d])) (T (cs @ [d]))"
      using 4 path [of "cs @ [d]"] by (intro kid_ok_cong) auto
    then show ?thesis using tree_okD(5) [OF t, of cs e d] 4 e by simp
  qed
qed

text \<open>A subtree is dropped and its name tombstoned.\<close>

definition cut :: "rstr list \<Rightarrow> (rstr list \<Rightarrow> 'v option) \<Rightarrow> rstr list \<Rightarrow> 'v option" where
  "cut cs m = (\<lambda>ds. if prefix cs ds then None else m ds)"

lemma cut_simps [simp]:
  "cut cs m (cs @ ds) = None" "cut cs m cs = None" "\<not> prefix cs ds \<Longrightarrow> cut cs m ds = m ds"
  by (simp_all add: cut_def)

lemma cut_Some: "cut cs m ds = Some x \<longleftrightarrow> \<not> prefix cs ds \<and> m ds = Some x"
  by (auto simp: cut_def)

lemma not_prefix_parent [simp]: "\<not> prefix (ps @ [c]) ps"
  by (auto dest: prefix_length_le)

lemma tree_ok_cut:
  assumes t: "tree_ok E T" and pe: "E ps = Some pe" and w: "with_child c s CTombstone pe pe'"
  shows "tree_ok ((cut (ps @ [c]) E)(ps \<mapsto> pe')) ((cut (ps @ [c]) T)(ps @ [c] \<mapsto> v))" (is "tree_ok ?E ?T")
proof (rule tree_okI)
  have path: "map_option re_path (?E ds) = map_option re_path (E ds)" if "\<not> prefix (ps @ [c]) ds" for ds
    using that pe with_childD(2) [OF w] by simp
  fix cs d
  have up: "?E cs \<noteq> None" if "E cs \<noteq> None" "\<not> prefix (ps @ [c]) (cs @ [d])"
    using that by (auto simp: cut_def)
  show "?E cs \<noteq> None" if "cs \<noteq> []" "?E (cs @ [d]) = Some e" for e
    using that tree_okD(1) [OF t that(1), of d] pe up by (auto simp: cut_Some split: if_splits)
  show "?E cs \<noteq> None" if "?T (cs @ [d]) = Some u" for u
    using that tree_okD(2) [OF t, of cs d] up by (auto simp: cut_Some split: if_splits)
  fix e assume e: "?E cs = Some e"
  show "?T cs = None"
    using e pe tree_okD(3) [OF t, of cs] by (auto simp: cut_Some cut_def split: if_splits)
  show "entry_ok cs e"
    using e pe tree_okD(4) [OF t, of cs] with_childD(4) [OF w] by (auto simp: cut_Some split: if_splits)
  consider "cs = ps" "d = c" | "cs = ps" "d \<noteq> c" | "cs \<noteq> ps" "\<not> prefix (ps @ [c]) (cs @ [d])"
    using e by (cases "cs = ps") (auto simp: cut_Some)
  then show "kid_ok e d (?E (cs @ [d])) (?T (cs @ [d]))"
  proof cases
    case 1
    then show ?thesis using e with_childD [OF w] by (simp add: kid_ok_def)
  next
    case 2
    have "kid_ok e d (?E (cs @ [d])) (?T (cs @ [d])) \<longleftrightarrow> kid_ok pe d (E (ps @ [d])) (T (ps @ [d]))"
      using 2 e with_childD [OF w] path [of "ps @ [d]"] by (intro kid_ok_cong) auto
    then show ?thesis using tree_okD(5) [OF t pe] by blast
  next
    case 3
    have "kid_ok e d (?E (cs @ [d])) (?T (cs @ [d])) \<longleftrightarrow> kid_ok e d (E (cs @ [d])) (T (cs @ [d]))"
      using 3 path [of "cs @ [d]"] by (intro kid_ok_cong) auto
    then show ?thesis using tree_okD(5) [OF t, of cs e d] 3 e by (simp add: cut_Some)
  qed
qed

section \<open>Making the chain of keys\<close>

text \<open>What \<^verbatim>\<open>ensure_chain\<close> does to an entry that was there, and what a new one looks like.\<close>

definition kept :: "u64 \<Rightarrow> reg_entry \<Rightarrow> reg_entry \<Rightarrow> bool" where
  "kept v e e' \<longleftrightarrow> re_path e' = re_path e \<and> re_subtree e' = re_subtree e \<and>
     rn_values (re_node e') = rn_values (re_node e) \<and>
     rn_value_tombstones (re_node e') = rn_value_tombstones (re_node e) \<and>
     rn_created (re_node e') = rn_created (re_node e) \<and> rn_volatile (re_node e') = rn_volatile (re_node e) \<and>
     (re_node e' = re_node e \<and> re_changed e' = re_changed e \<or> re_changed e' = v)"

definition fresh :: "u64 \<Rightarrow> reg_entry \<Rightarrow> bool" where
  "fresh v e \<longleftrightarrow> rn_values (re_node e) = [] \<and> rn_value_tombstones (re_node e) = [] \<and>
     \<not> rn_volatile (re_node e) \<and> re_changed e = v \<and> re_subtree e = 0"

definition created_at :: "overlay \<Rightarrow> rstr list \<Rightarrow> bool" where
  "created_at ov cs = (case ent ov cs of Some e \<Rightarrow> rn_created (re_node e) | None \<Rightarrow> False)"

definition chain_rel :: "(rstr list \<Rightarrow> bool) \<Rightarrow> u64 \<Rightarrow> rstr list \<Rightarrow> overlay \<Rightarrow> overlay \<Rightarrow> bool" where
  "chain_rel N v t ov ov' \<longleftrightarrow>
     ent ov' t \<noteq> None \<and>
     (\<forall>ds. \<not> prefix ds t \<longrightarrow> ent ov' ds = ent ov ds) \<and>
     (\<forall>ds. tmb ov' ds = (if prefix ds t then None else tmb ov ds)) \<and>
     (\<forall>ds e. ent ov ds = Some e \<longrightarrow> (\<exists>e'. ent ov' ds = Some e' \<and> kept v e e')) \<and>
     (\<forall>ds e'. ent ov ds = None \<and> ent ov' ds = Some e' \<longrightarrow> fresh v e' \<and>
        (rn_created (re_node e') \<longleftrightarrow> tmb ov ds \<noteq> None \<or> created_at ov' (butlast ds) \<or> N ds)) \<and>
     ov_deleted_at ov' = ov_deleted_at ov \<and> ov_deleted_floor ov' = ov_deleted_floor ov \<and>
     ov_version ov' = ov_version ov"

lemma chain_relD:
  assumes "chain_rel N v t ov ov'"
  shows "ent ov' t \<noteq> None" and "\<not> prefix ds t \<Longrightarrow> ent ov' ds = ent ov ds"
    and "tmb ov' ds = (if prefix ds t then None else tmb ov ds)"
    and "ent ov ds = Some e \<Longrightarrow> \<exists>e'. ent ov' ds = Some e' \<and> kept v e e'"
    and "ent ov ds = None \<Longrightarrow> ent ov' ds = Some e' \<Longrightarrow> fresh v e'"
    and "ent ov ds = None \<Longrightarrow> ent ov' ds = Some e' \<Longrightarrow>
      rn_created (re_node e') \<longleftrightarrow> tmb ov ds \<noteq> None \<or> created_at ov' (butlast ds) \<or> N ds"
    and "ov_deleted_at ov' = ov_deleted_at ov" and "ov_deleted_floor ov' = ov_deleted_floor ov"
    and "ov_version ov' = ov_version ov"
  using assms unfolding chain_rel_def by blast+

lemma kept_trans: "kept v a b \<Longrightarrow> kept v b c \<Longrightarrow> kept v a c"
  by (auto simp: kept_def)

lemma fresh_kept: "fresh v a \<Longrightarrow> kept v a b \<Longrightarrow> fresh v b"
  by (auto simp: fresh_def kept_def)

lemma kept_refl [simp]: "kept v e e"
  by (simp add: kept_def)

lemma created_at_kept: "chain_rel N v t ov ov' \<Longrightarrow> ent ov ds \<noteq> None \<Longrightarrow> created_at ov' ds = created_at ov ds"
  by (auto simp: created_at_def kept_def dest: chain_relD(4))

lemma ent_prefix:
  assumes "ov_inv ov" and "ent ov t = Some e" and "prefix ds t" and "ds \<noteq> []"
  shows "\<exists>d. ent ov ds = Some d \<and> tmb ov ds = None"
proof -
  have t: "tree_ok (ent ov) (tmb ov)" using assms(1) by (simp add: ov_inv_def)
  obtain xs where xs: "t = ds @ xs" using assms(3) by (auto simp: prefix_def)
  have "ent ov ds \<noteq> None"
  proof
    assume n: "ent ov ds = None"
    then have "xs \<noteq> []" using assms(2) xs by auto
    with closed_below [OF tree_okD(6) [OF t] n assms(4)] assms(2) xs show False by auto
  qed
  then obtain d where "ent ov ds = Some d" by blast
  with tree_okD(3) [OF t] show ?thesis by blast
qed

lemma chain_rel_refl:
  assumes "ov_inv ov" and "ent ov t = Some e"
  shows "chain_rel N v t ov ov"
proof -
  have "tmb ov ds = None" if "prefix ds t" for ds
    using ent_prefix [OF assms that] by (cases "ds = []") auto
  then show ?thesis using assms(2) by (auto simp: chain_rel_def)
qed

lemma chain_rel_trans:
  assumes i: "ov_inv ov1" and r: "chain_rel N v t ov ov1" and r': "chain_rel N v (t @ xs) ov1 ov2"
  shows "chain_rel N v (t @ xs) ov ov2"
proof -
  have pre: "ent ov1 ds \<noteq> None" if "prefix ds t" "ds \<noteq> []" for ds
    using ent_prefix [OF i _ that] chain_relD(1) [OF r] by auto
  have "\<exists>e2. ent ov2 ds = Some e2 \<and> kept v e e2" if "ent ov ds = Some e" for ds e
    using chain_relD(4) [OF r that] chain_relD(4) [OF r'] kept_trans by blast
  moreover have "fresh v e2 \<and> (rn_created (re_node e2) \<longleftrightarrow>
      tmb ov ds \<noteq> None \<or> created_at ov2 (butlast ds) \<or> N ds)"
    if n: "ent ov ds = None" and e2: "ent ov2 ds = Some e2" for ds e2
  proof (cases "ent ov1 ds")
    case None
    then have "\<not> prefix ds t" using pre [of ds] e2 by (cases "ds = []") auto
    then have "tmb ov1 ds = tmb ov ds" by (simp add: chain_relD(3) [OF r])
    then show ?thesis using chain_relD(5,6) [OF r' None e2] by simp
  next
    case (Some e1)
    obtain e2' where k: "ent ov2 ds = Some e2'" "kept v e1 e2'" using chain_relD(4) [OF r' Some] by blast
    then have "kept v e1 e2" using e2 by simp
    moreover have "created_at ov2 (butlast ds) = created_at ov1 (butlast ds)"
    proof (cases "butlast ds = []")
      case False
      have "\<exists>d. ent ov1 (butlast ds) = Some d \<and> tmb ov1 (butlast ds) = None"
        using ent_prefix [OF i Some _ False] by (simp add: prefixeq_butlast)
      then show ?thesis using created_at_kept [OF r'] by auto
    qed (simp add: created_at_def)
    ultimately show ?thesis
      using chain_relD(5,6) [OF r n Some] fresh_kept by (auto simp: kept_def)
  qed
  moreover have ext: "prefix ds t \<Longrightarrow> prefix ds (t @ xs)" for ds by auto
  have "ent ov2 ds = ent ov ds" if "\<not> prefix ds (t @ xs)" for ds
    using that ext [of ds] chain_relD(2) [OF r, of ds] chain_relD(2) [OF r', of ds] by metis
  moreover have "tmb ov2 ds = (if prefix ds (t @ xs) then None else tmb ov ds)" for ds
    using ext by (simp add: chain_relD(3) [OF r] chain_relD(3) [OF r'])
  ultimately show ?thesis
    using chain_relD(7,8,9) [OF r] chain_relD(1,7,8,9) [OF r'] unfolding chain_rel_def
    by (intro conjI allI impI) (blast | simp)+
qed

definition new_entry :: "rstr \<Rightarrow> bool \<Rightarrow> u64 \<Rightarrow> u64 \<Rightarrow> reg_entry" where
  "new_entry stored created v now = \<lparr>re_path = stored,
     re_node = default_node\<lparr>rn_created := created, rn_last_write := now\<rparr>, re_changed = v, re_subtree = 0\<rparr>"

definition gain_child :: "rstr \<Rightarrow> u64 \<Rightarrow> u64 \<Rightarrow> reg_entry \<Rightarrow> reg_entry" where
  "gain_child cp v now pe = pe\<lparr>re_node := (re_node pe)\<lparr>
     rn_children := oins (cfold cp) (cp, CPresent) (rn_children (re_node pe)), rn_last_write := now\<rparr>,
     re_changed := v\<rparr>"

lemma new_entry_simps [simp]:
  "re_path (new_entry s cr v now) = s" "rn_children (re_node (new_entry s cr v now)) = []"
  "fresh v (new_entry s cr v now)" "rn_created (re_node (new_entry s cr v now)) = cr"
  by (simp_all add: new_entry_def default_node_def fresh_def)

lemma gain_child_simps [simp]:
  "with_child (cfold cp) cp CPresent pe (gain_child cp v now pe)" "kept v pe (gain_child cp v now pe)"
  by (simp_all add: gain_child_def with_child_def kept_def)

text \<open>One missing key below a present one.\<close>

definition grow :: "rstr list \<Rightarrow> rstr \<Rightarrow> bool \<Rightarrow> u64 \<Rightarrow> u64 \<Rightarrow> reg_entry \<Rightarrow> overlay \<Rightarrow> overlay" where
  "grow ps cp created v now pe ov =
     set_entry (mkpath ps) (gain_child cp v now pe)
       (set_entry (mkpath (ps @ [cfold cp])) (new_entry (re_path pe @ backslash # cp) created v now)
          (ov\<lparr>ov_tombs := odel (mkpath (ps @ [cfold cp])) (ov_tombs ov)\<rparr>))"

lemma grow_rel:
  assumes i: "ov_inv ov" and pe: "ent ov ps = Some pe" and c: "name_ok cp" and n: "ent ov (ps @ [cfold cp]) = None"
    and cr: "created \<longleftrightarrow> tmb ov (ps @ [cfold cp]) \<noteq> None \<or> rn_created (re_node pe) \<or> N (ps @ [cfold cp])"
  shows "ov_inv (grow ps cp created v now pe ov)"
    and "chain_rel N v (ps @ [cfold cp]) ov (grow ps cp created v now pe ov)"
    and "ent (grow ps cp created v now pe ov) (ps @ [cfold cp]) =
      Some (new_entry (re_path pe @ backslash # cp) created v now)"
proof -
  let ?c = "cfold cp" and ?ov = "grow ps cp created v now pe ov"
  let ?e = "new_entry (re_path pe @ backslash # cp) created v now"
  have t: "tree_ok (ent ov) (tmb ov)" and m: "maps_ok ov" using i by (simp_all add: ov_inv_def)
  have ps: "folded ps" by (rule ent_folded [OF pe])
  then have ne: "ps \<noteq> []" by auto
  have f: "folded (ps @ [?c])" using ps c ne by (simp add: folded_snoc)
  have E: "ent ?ov = (ent ov)(ps @ [?c] \<mapsto> ?e, ps \<mapsto> gain_child cp v now pe)"
    by (simp only: grow_def ov_simps ps f)
  have T: "tmb ?ov = (tmb ov)(ps @ [?c] := None)" by (simp only: grow_def ov_simps f)
  have "maps_ok ?ov" using m by (simp only: grow_def ov_simps ps f)
  moreover have "tree_ok (ent ?ov) (tmb ?ov)"
    unfolding E T using n by (intro tree_ok_add_child [OF t pe ne]) simp_all
  ultimately show "ov_inv ?ov" by (simp add: ov_inv_def)
  have pre: "tmb ov ds = None" if "prefix ds ps" for ds
    using ent_prefix [OF i pe that] by (cases "ds = []") auto
  show "ent ?ov (ps @ [?c]) = Some ?e" by (simp add: E)
  have cp: "created_at ?ov ps = rn_created (re_node pe)" by (simp add: created_at_def E gain_child_def)
  show "chain_rel N v (ps @ [?c]) ov ?ov"
    unfolding chain_rel_def
  proof (intro conjI allI impI)
    show "ent ?ov (ps @ [?c]) \<noteq> None" by (simp add: E)
    fix ds
    show "ent ?ov ds = ent ov ds" if "\<not> prefix ds (ps @ [?c])" using that by (auto simp: E)
    show "tmb ?ov ds = (if prefix ds (ps @ [?c]) then None else tmb ov ds)" using pre [of ds] by (auto simp: T)
    show "\<exists>e'. ent ?ov ds = Some e' \<and> kept v e e'" if "ent ov ds = Some e" for e
      using that pe n by (auto simp: E)
    fix e' assume a: "ent ov ds = None \<and> ent ?ov ds = Some e'"
    then have ds: "ds = ps @ [?c]" and e': "e' = ?e" using pe by (auto simp: E split: if_splits)
    show "fresh v e'" by (simp add: e')
    show "rn_created (re_node e') \<longleftrightarrow> tmb ov ds \<noteq> None \<or> created_at ?ov (butlast ds) \<or> N ds"
      using cr cp by (simp add: ds e')
  qed (simp_all add: grow_def ov_simps)
qed

lemma child_tombstoned_tmb:
  assumes "ov_inv ov" "ent ov ps = Some pe" "ent ov (ps @ [c]) = None"
  shows "child_tombstoned pe c \<longleftrightarrow> tmb ov (ps @ [c]) \<noteq> None"
  using tree_okD(5) [of "ent ov" "tmb ov" ps pe c] assms
  by (auto simp: ov_inv_def kid_ok_def child_tombstoned_def Let_def split: option.splits)

lemma entry_path: "ov_inv ov \<Longrightarrow> ent ov ps = Some pe \<Longrightarrow> \<exists>ds. re_path pe = mkpath ds \<and> map cfold ds = ps"
  using tree_okD(4) [of "ent ov" "tmb ov" ps pe] by (auto simp: ov_inv_def entry_ok_def)

lemma chain_key:
  assumes "ov_inv ov" and "ent ov ps = Some pe"
  shows "cfold (re_path pe @ [backslash] @ cp) = mkpath (ps @ [cfold cp])"
proof -
  obtain ds where ds: "re_path pe = mkpath ds" "map cfold ds = ps" using entry_path [OF assms] by blast
  have "re_path pe @ [backslash] @ cp = mkpath (ds @ [cp])" by (simp add: ds)
  then show ?thesis using ds(2) by (simp only: cfold_mkpath map_append list.map)
qed

lemma chain_loop_miss:
  assumes i: "ov_inv ov" and pe: "ent ov ps = Some pe" and c: "name_ok cp" and n: "ent ov (ps @ [cfold cp]) = None"
  shows "chain_loop real v now (re_path pe) (Some (mkpath ps)) (cp # rest) ov =
    chain_loop real v now (re_path pe @ backslash # cp) (Some (mkpath (ps @ [cfold cp]))) rest
      (grow ps cp (tmb ov (ps @ [cfold cp]) \<noteq> None \<or> rn_created (re_node pe) \<or> (rest = [] \<and> \<not> real)) v now pe ov)"
proof -
  let ?c = "cfold cp"
  have ps: "folded ps" by (rule ent_folded [OF pe])
  then have f: "folded (ps @ [?c])" using c by (auto simp: folded_snoc)
  have key: "cfold (re_path pe @ [backslash] @ cp) = mkpath (ps @ [?c])" by (rule chain_key [OF i pe])
  let ?ov1 = "ov\<lparr>ov_tombs := odel (mkpath (ps @ [?c])) (ov_tombs ov)\<rparr>"
  have e1: "map_of (ov_entries ?ov1) (mkpath ps) = Some pe" using entries_ent [OF ps, of ov] pe by simp
  have miss: "map_of (ov_entries ov) (mkpath (ps @ [?c])) = None" using entries_ent [OF f, of ov] n by simp
  have tm: "map_of (ov_tombs ov) (mkpath (ps @ [?c])) = tmb ov (ps @ [?c])" by (rule tombs_tmb [OF f])
  have up: "add_child_entry (Some (mkpath ps)) cp v now (set_entry (mkpath (ps @ [?c])) e ?ov1) =
      Some (set_entry (mkpath ps) (gain_child cp v now pe) (set_entry (mkpath (ps @ [?c])) e ?ov1))" for e
    using pe unfolding add_child_entry_def option.case upd_entry_eq [OF ps]
    by (simp add: ov_simps f gain_child_def del: mkpath_simps)
  show ?thesis
    unfolding chain_loop.simps Let_def key miss tm option.case e1
    using child_tombstoned_tmb [OF i pe n]
    by (simp add: up grow_def new_entry_def del: mkpath_simps)
qed

lemma chain_loop_hit:
  assumes i: "ov_inv ov" and pe: "ent ov ps = Some pe" and e: "ent ov (ps @ [cfold cp]) = Some e"
  shows "chain_loop real v now (re_path pe) (Some (mkpath ps)) (cp # rest) ov =
    chain_loop real v now (re_path e) (Some (mkpath (ps @ [cfold cp]))) rest ov"
proof -
  have hit: "map_of (ov_entries ov) (mkpath (ps @ [cfold cp])) = Some e"
    using entries_ent [OF ent_folded [OF e], of ov] e by simp
  show ?thesis unfolding chain_loop.simps Let_def chain_key [OF i pe] hit option.case by (rule refl)
qed

lemma chain_loop_spec:
  assumes "ov_inv ov" and "ent ov ps = Some pe" and "list_all name_ok rest"
    and "\<And>ds. N ds \<longleftrightarrow> ds = ps @ map cfold rest \<and> \<not> real"
  shows "\<exists>ov'. chain_loop real v now (re_path pe) (Some (mkpath ps)) rest ov = Some ov' \<and>
    ov_inv ov' \<and> chain_rel N v (ps @ map cfold rest) ov ov'"
  using assms
proof (induction rest arbitrary: ov ps pe)
  case Nil
  then show ?case using chain_rel_refl [OF Nil.prems(1,2)] by simp
next
  case (Cons cp rest)
  note i = Cons.prems(1) and pe = Cons.prems(2)
  let ?t = "ps @ [cfold cp]"
  have c: "name_ok cp" and rest: "list_all name_ok rest" using Cons.prems(3) by simp_all
  have N: "N ds \<longleftrightarrow> ds = ?t @ map cfold rest \<and> \<not> real" for ds using Cons.prems(4) by simp
  have step: "\<exists>ov1 e1. chain_loop real v now (re_path pe) (Some (mkpath ps)) (cp # rest) ov =
      chain_loop real v now (re_path e1) (Some (mkpath ?t)) rest ov1 \<and>
      ov_inv ov1 \<and> ent ov1 ?t = Some e1 \<and> chain_rel N v ?t ov ov1"
  proof (cases "ent ov ?t")
    case (Some e)
    then show ?thesis using chain_loop_hit [OF i pe Some] i chain_rel_refl [OF i Some] by blast
  next
    case None
    let ?cr = "tmb ov ?t \<noteq> None \<or> rn_created (re_node pe) \<or> (rest = [] \<and> \<not> real)"
    have "?cr \<longleftrightarrow> tmb ov ?t \<noteq> None \<or> rn_created (re_node pe) \<or> N ?t" using N by auto
    from grow_rel [where N = N, OF i pe c None this] chain_loop_miss [OF i pe c None, of real v now rest]
    show ?thesis by (metis new_entry_simps(1))
  qed
  then obtain ov1 e1 where l: "chain_loop real v now (re_path pe) (Some (mkpath ps)) (cp # rest) ov =
      chain_loop real v now (re_path e1) (Some (mkpath ?t)) rest ov1"
    and i1: "ov_inv ov1" and e1: "ent ov1 ?t = Some e1" and r: "chain_rel N v ?t ov ov1" by blast
  obtain ov2 where "chain_loop real v now (re_path e1) (Some (mkpath ?t)) rest ov1 = Some ov2"
    "ov_inv ov2" "chain_rel N v (?t @ map cfold rest) ov1 ov2"
    using Cons.IH [OF i1 e1 rest N] by blast
  then show ?case using l chain_rel_trans [OF i1 r] by auto
qed

lemma split_comps: "reg_comps cs \<Longrightarrow> drop 1 (split_on ((=) backslash) (mkpath cs)) = cs"
  by (simp only: split_mkpath0 [OF reg_comps_names]) simp

lemma root_rel:
  assumes i: "ov_inv ov" and n: "ent ov [r] = None" and f: "folded [r]" and p: "cfold s = r"
    and ov1: "ov1 = set_entry (mkpath [r]) (new_entry (mkpath [s]) (N [r]) v now)
      (ov\<lparr>ov_tombs := odel (mkpath [r]) (ov_tombs ov)\<rparr>)"
  shows "ov_inv ov1 \<and> chain_rel N v [r] ov ov1 \<and> ent ov1 [r] = Some (new_entry (mkpath [s]) (N [r]) v now)"
proof -
  let ?e = "new_entry (mkpath [s]) (N [r]) v now"
  have t: "tree_ok (ent ov) (tmb ov)" and m: "maps_ok ov" using i by (simp_all add: ov_inv_def)
  have E: "ent ov1 = (ent ov)([r] \<mapsto> ?e)" by (simp only: ov1 ov_simps f)
  have T: "tmb ov1 = (tmb ov)([r] := None)" by (simp only: ov1 ov_simps f)
  have tn: "tmb ov [r] = None" using tree_okD(2) [OF t, of "[]" r] by (cases "tmb ov [r]") auto
  have "maps_ok ov1" using m by (simp only: ov1 ov_simps f)
  moreover have "entry_ok [r] ?e" using p by (auto simp: entry_ok_def intro: exI [of _ "[s]"])
  then have "tree_ok (ent ov1) (tmb ov1)"
    unfolding E T using n by (intro tree_ok_add_root [OF t]) simp_all
  ultimately have "ov_inv ov1" by (simp add: ov_inv_def)
  moreover have "chain_rel N v [r] ov ov1"
    using n tn by (auto simp: chain_rel_def E T created_at_def prefix_Cons fun_upd_def)
      (auto simp: ov1 ov_simps)
  ultimately show ?thesis by (simp add: E)
qed

lemma ensure_chain_spec:
  assumes i: "ov_inv ov" and cs: "reg_comps cs"
  shows "\<exists>ov'. ensure_chain (mkpath cs) real v now ov = Some ov' \<and> ov_inv ov' \<and>
    chain_rel (\<lambda>ds. ds = map cfold cs \<and> \<not> real) v (map cfold cs) ov ov'"
proof -
  let ?N = "\<lambda>ds. ds = map cfold cs \<and> \<not> real"
  obtain s rest where c: "cs = s # rest" using cs by (cases cs) (auto simp: reg_comps_def)
  have rest: "list_all name_ok rest" using cs by (simp add: c reg_comps_def)
  let ?r = "cfold s"
  have "reg_comps [s]" using cs by (simp add: c reg_comps_def)
  then have f: "folded [?r]" using folded_map [of "[s]"] by simp
  have key: "cfold ([] @ [backslash] @ s) = mkpath [?r]" using cfold_mkpath [of "[s]"] by simp
  have "\<exists>ov1 e1. ensure_chain (mkpath cs) real v now ov =
      chain_loop real v now (re_path e1) (Some (mkpath [?r])) rest ov1 \<and>
      ov_inv ov1 \<and> ent ov1 [?r] = Some e1 \<and> chain_rel ?N v [?r] ov ov1"
  proof (cases "ent ov [?r]")
    case (Some e)
    have hit: "map_of (ov_entries ov) (mkpath [?r]) = Some e" using entries_ent [OF f, of ov] Some by simp
    have "ensure_chain (mkpath cs) real v now ov = chain_loop real v now (re_path e) (Some (mkpath [?r])) rest ov"
      unfolding ensure_chain_def split_comps [OF cs] unfolding c chain_loop.simps Let_def key hit option.case
      by (rule refl)
    then show ?thesis using Some i chain_rel_refl [OF i Some] by blast
  next
    case None
    have miss: "map_of (ov_entries ov) (mkpath [?r]) = None" using entries_ent [OF f, of ov] None by simp
    have tn: "map_of (ov_tombs ov) (mkpath [?r]) = None"
      using tree_okD(2) [of "ent ov" "tmb ov" "[]" ?r] i tombs_tmb [OF f, of ov]
      by (cases "tmb ov [?r]") (auto simp: ov_inv_def)
    have N: "?N [?r] \<longleftrightarrow> rest = [] \<and> \<not> real" by (auto simp: c)
    let ?ov1 = "set_entry (mkpath [?r]) (new_entry (mkpath [s]) (?N [?r]) v now)
      (ov\<lparr>ov_tombs := odel (mkpath [?r]) (ov_tombs ov)\<rparr>)"
    have "ensure_chain (mkpath cs) real v now ov =
        chain_loop real v now (mkpath [s]) (Some (mkpath [?r])) rest ?ov1"
      unfolding ensure_chain_def split_comps [OF cs] N unfolding c chain_loop.simps Let_def key miss tn option.case
      by (simp add: add_child_entry_def new_entry_def)
    then show ?thesis using root_rel [OF i None f refl refl, of ?N v now] by (metis new_entry_simps(1))
  qed
  then obtain ov1 e1 where l: "ensure_chain (mkpath cs) real v now ov =
      chain_loop real v now (re_path e1) (Some (mkpath [?r])) rest ov1"
    and i1: "ov_inv ov1" and e1: "ent ov1 [?r] = Some e1" and r: "chain_rel ?N v [?r] ov ov1" by blast
  have N: "?N ds \<longleftrightarrow> ds = [?r] @ map cfold rest \<and> \<not> real" for ds by (simp add: c)
  obtain ov2 where "chain_loop real v now (re_path e1) (Some (mkpath [?r])) rest ov1 = Some ov2"
    "ov_inv ov2" "chain_rel ?N v ([?r] @ map cfold rest) ov1 ov2"
    using chain_loop_spec [OF i1 e1 rest N] by blast
  then show ?thesis using l chain_rel_trans [OF i1 r] by (auto simp: c)
qed

end
