(* ===== verification/Reg_Ops.thy ===== *)
theory Reg_Ops
  imports Reg_Invariant
begin

text \<open>
  The write operations of the overlay under its invariant: what each does to the entries and the
  tombstones, that none panics, and that every change is recorded for \<^verbatim>\<open>changed_since\<close> (\<open>tracked\<close>).
\<close>

section \<open>Deletion marks\<close>

definition delmark :: "overlay \<Rightarrow> u64 \<Rightarrow> rstr list \<Rightarrow> bool" where
  "delmark ov w qs \<longleftrightarrow> w < ov_deleted_floor ov \<or> (\<exists>t. at (ov_deleted_at ov) qs = Some t \<and> w < t)"

lemma delmark_cong:
  "ov_deleted_at ov' = ov_deleted_at ov \<Longrightarrow> ov_deleted_floor ov' = ov_deleted_floor ov \<Longrightarrow> delmark ov' = delmark ov"
  by (simp add: delmark_def fun_eq_iff)

lemma newest_ge: "(k, t) \<in> set m \<Longrightarrow> t \<le> newest m"
  by (induction m) (auto simp: newest_def max.coboundedI2)

lemma newest_less: "w < newest m \<longleftrightarrow> (\<exists>t \<in> snd ` set m. w < t)"
  by (induction m) (auto simp: newest_def less_max_iff_disj)

text \<open>A tombstone's mark is at least its version, marks are never lost, and no mark exceeds what was
  there and the new version. This holds also when the table overflows into the floor.\<close>

lemma delmark_tomb:
  assumes f: "folded cs" and m: "maps_ok ov"
  shows "w < v \<Longrightarrow> delmark (tomb (mkpath cs) v ov) w cs"
    and "delmark ov w qs \<Longrightarrow> delmark (tomb (mkpath cs) v ov) w qs"
    and "delmark (tomb (mkpath cs) v ov) w qs \<Longrightarrow> w < v \<or> (\<exists>qs. delmark ov w qs)"
proof -
  define hw where "hw = (case at (ov_deleted_at ov) cs of Some t \<Rightarrow> t | None \<Rightarrow> 0)"
  define da where "da = oins (mkpath cs) (max hw v) (ov_deleted_at ov)"
  have da: "at da = (at (ov_deleted_at ov))(cs \<mapsto> max hw v)" by (simp add: da_def at_oins [OF f])
  have o: "ordered da" using m by (simp add: da_def maps_ok_def)
  have k: "keyed da" using m f by (simp add: da_def maps_ok_def keyed_oins)
  have up: "t \<le> newest da" if "at da qs = Some t" for qs t
    using that by (auto simp: at_def dest: map_of_SomeD newest_ge split: if_splits)
  have low: "\<exists>qs. at da qs = Some t" if "t \<in> snd ` set da" for t
  proof -
    obtain kk where "(kk, t) \<in> set da" using \<open>t \<in> snd ` set da\<close> by force
    then have "map_of da kk = Some t" using o by (simp add: in_set_map_of)
    then show ?thesis using keyed_at [OF k] by blast
  qed
  have h: "(case map_of (ov_deleted_at ov) (mkpath cs) of Some t \<Rightarrow> t | None \<Rightarrow> 0) = hw"
    by (simp add: hw_def map_of_at [OF f])
  have t: "tomb (mkpath cs) v ov = (let ov = ov\<lparr>ov_tombs := oins (mkpath cs) v (ov_tombs ov)\<rparr> in
      if MAX_DELETED_AT < length da
      then ov\<lparr>ov_deleted_floor := max (ov_deleted_floor ov) (newest da), ov_deleted_at := []\<rparr>
      else ov\<lparr>ov_deleted_at := da\<rparr>)"
    unfolding tomb_def Let_def h da_def by (rule refl)
  define new where "new w qs \<longleftrightarrow> w < ov_deleted_floor ov \<or> (\<exists>t. at da qs = Some t \<and> w < t)" for w qs
  have case_big: "delmark (tomb (mkpath cs) v ov) w qs \<longleftrightarrow> w < ov_deleted_floor ov \<or> w < newest da"
    if "MAX_DELETED_AT < length da" for w qs
    using that by (simp add: t Let_def delmark_def less_max_iff_disj at_def)
  have case_small: "delmark (tomb (mkpath cs) v ov) w qs \<longleftrightarrow> new w qs"
    if "\<not> MAX_DELETED_AT < length da" for w qs
    using that by (simp add: t Let_def delmark_def new_def)
  have ge: "delmark (tomb (mkpath cs) v ov) w qs" if "new w qs" for w qs
    using that up case_big case_small unfolding new_def by (meson less_le_trans)
  show "delmark (tomb (mkpath cs) v ov) w cs" if "w < v"
    using that by (intro ge) (simp add: new_def da less_max_iff_disj)
  show "delmark (tomb (mkpath cs) v ov) w qs" if "delmark ov w qs"
    using that by (intro ge) (auto simp: new_def da hw_def delmark_def less_max_iff_disj)
  assume a: "delmark (tomb (mkpath cs) v ov) w qs"
  have "\<exists>qs. new w qs"
  proof (cases "MAX_DELETED_AT < length da")
    case True
    with a case_big newest_less [of w da] low show ?thesis unfolding new_def by blast
  qed (use a case_small in blast)
  then obtain rs where r: "new w rs" by blast
  show "w < v \<or> (\<exists>qs. delmark ov w qs)"
  proof (cases "rs = cs")
    case True
    then show ?thesis using r
      by (cases "at (ov_deleted_at ov) cs") (auto simp: new_def da hw_def delmark_def less_max_iff_disj)
  next
    case False
    then show ?thesis using r by (auto simp: new_def da delmark_def)
  qed
qed

lemma deleted_since_iff:
  assumes "folded cs"
  shows "deleted_since ov w (mkpath cs) \<longleftrightarrow> (\<exists>qs. qs \<noteq> [] \<and> prefix qs cs \<and> delmark ov w qs)"
  using assms
proof (induction cs rule: rev_induct)
  case (snoc c cs)
  have rc: "reg_comps (cs @ [c])" using snoc.prems by (simp add: folded_def)
  have m: "map_of (ov_deleted_at ov) (mkpath (cs @ [c])) = at (ov_deleted_at ov) (cs @ [c])"
    by (rule map_of_at [OF snoc.prems])
  let ?own = "case at (ov_deleted_at ov) (cs @ [c]) of Some t \<Rightarrow> w < t | None \<Rightarrow> False"
  have d: "delmark ov w (cs @ [c]) \<longleftrightarrow> ?own \<or> w < ov_deleted_floor ov"
    by (cases "at (ov_deleted_at ov) (cs @ [c])") (auto simp: delmark_def)
  show ?case
  proof (cases "cs = []")
    case True
    have par: "parent (mkpath (cs @ [c])) = None" unfolding parent_comps [OF rc] using True by (rule if_P)
    have "deleted_since ov w (mkpath (cs @ [c])) \<longleftrightarrow> delmark ov w (cs @ [c])"
      unfolding d by (subst deleted_since.simps) (simp only: m par option.case, simp)
    moreover have pq: "(qs \<noteq> [] \<and> prefix qs (cs @ [c])) = (qs = cs @ [c])" for qs
      unfolding prefix_snoc True by auto
    have "(\<exists>qs. (qs \<noteq> [] \<and> prefix qs (cs @ [c])) \<and> delmark ov w qs) = delmark ov w (cs @ [c])"
      by (simp only: pq) simp
    ultimately show ?thesis by (simp only: conj_assoc)
  next
    case False
    have par: "parent (mkpath (cs @ [c])) = Some (mkpath cs)"
      unfolding parent_comps [OF rc] using False by (rule if_not_P)
    have f: "folded cs" by (rule folded_prefix [OF snoc.prems False])
    have "deleted_since ov w (mkpath (cs @ [c])) \<longleftrightarrow>
        ?own \<or> deleted_since ov w (mkpath cs)"
      by (subst deleted_since.simps) (simp only: m par option.case, simp)
    also have "\<dots> \<longleftrightarrow> delmark ov w (cs @ [c]) \<or> (\<exists>qs. qs \<noteq> [] \<and> prefix qs cs \<and> delmark ov w qs)"
    proof -
      have "\<exists>qs. qs \<noteq> [] \<and> prefix qs cs \<and> delmark ov w qs" if "w < ov_deleted_floor ov"
        using False that by (intro exI [of _ cs]) (simp add: delmark_def)
      then show ?thesis unfolding snoc.IH [OF f] d by blast
    qed
    also have "\<dots> \<longleftrightarrow> (\<exists>qs. qs \<noteq> [] \<and> prefix qs (cs @ [c]) \<and> delmark ov w qs)"
      unfolding prefix_snoc by blast
    finally show ?thesis .
  qed
qed simp

section \<open>Change tracking of one operation\<close>

definition node_at :: "overlay \<Rightarrow> rstr list \<Rightarrow> reg_node option" where
  "node_at ov cs = map_option re_node (ent ov cs)"

definition tracked :: "u64 \<Rightarrow> overlay \<Rightarrow> overlay \<Rightarrow> bool" where
  "tracked v ov ov' \<longleftrightarrow> ov_version ov' = v \<and>
     (\<forall>ds e e'. ent ov ds = Some e \<and> ent ov' ds = Some e' \<longrightarrow>
        (re_changed e' = v \<or> re_changed e' = re_changed e \<and> re_node e' = re_node e) \<and>
        (re_subtree e' = v \<or> re_subtree e' = re_subtree e)) \<and>
     (\<forall>ds e'. ent ov ds = None \<and> ent ov' ds = Some e' \<longrightarrow>
        re_changed e' = v \<and> (re_subtree e' = v \<or> re_subtree e' = 0)) \<and>
     (\<forall>ds e. ent ov ds = Some e \<and> ent ov' ds = None \<longrightarrow>
        (\<exists>qs. qs \<noteq> [] \<and> prefix qs ds \<and> (\<forall>w<v. delmark ov' w qs))) \<and>
     (\<forall>ps ds pe. strict_prefix ps ds \<and> node_at ov' ds \<noteq> node_at ov ds \<and> ent ov' ps = Some pe \<longrightarrow>
        re_changed pe = v \<or> re_subtree pe = v) \<and>
     (\<forall>ds. tmb ov ds = None \<and> tmb ov' ds \<noteq> None \<longrightarrow> (\<forall>w<v. delmark ov' w ds)) \<and>
     (\<forall>w ds. delmark ov w ds \<longrightarrow> delmark ov' w ds) \<and>
     (\<forall>w ds. delmark ov' w ds \<longrightarrow> w < v \<or> (\<exists>qs. delmark ov w qs))"

lemma trackedD:
  assumes "tracked v ov ov'"
  shows "ov_version ov' = v"
    and "ent ov ds = Some e \<Longrightarrow> ent ov' ds = Some e' \<Longrightarrow>
      re_changed e' = v \<or> re_changed e' = re_changed e \<and> re_node e' = re_node e"
    and "ent ov ds = Some e \<Longrightarrow> ent ov' ds = Some e' \<Longrightarrow> re_subtree e' = v \<or> re_subtree e' = re_subtree e"
    and "ent ov ds = None \<Longrightarrow> ent ov' ds = Some e' \<Longrightarrow> re_changed e' = v \<and> (re_subtree e' = v \<or> re_subtree e' = 0)"
    and "ent ov ds = Some e \<Longrightarrow> ent ov' ds = None \<Longrightarrow> \<exists>qs. qs \<noteq> [] \<and> prefix qs ds \<and> (\<forall>w<v. delmark ov' w qs)"
    and "strict_prefix ps ds \<Longrightarrow> node_at ov' ds \<noteq> node_at ov ds \<Longrightarrow> ent ov' ps = Some pe \<Longrightarrow>
      re_changed pe = v \<or> re_subtree pe = v"
    and "tmb ov ds = None \<Longrightarrow> tmb ov' ds \<noteq> None \<Longrightarrow> w < v \<Longrightarrow> delmark ov' w ds"
    and "delmark ov w ds \<Longrightarrow> delmark ov' w ds"
    and "delmark ov' w ds \<Longrightarrow> w < v \<or> (\<exists>qs. delmark ov w qs)"
  using assms unfolding tracked_def by blast+

lemma trackedI:
  assumes "ov_version ov' = v"
    and "\<And>ds e e'. ent ov ds = Some e \<Longrightarrow> ent ov' ds = Some e' \<Longrightarrow>
      (re_changed e' = v \<or> re_changed e' = re_changed e \<and> re_node e' = re_node e) \<and>
      (re_subtree e' = v \<or> re_subtree e' = re_subtree e)"
    and "\<And>ds e'. ent ov ds = None \<Longrightarrow> ent ov' ds = Some e' \<Longrightarrow> re_changed e' = v \<and> (re_subtree e' = v \<or> re_subtree e' = 0)"
    and "\<And>ds e. ent ov ds = Some e \<Longrightarrow> ent ov' ds = None \<Longrightarrow> \<exists>qs. qs \<noteq> [] \<and> prefix qs ds \<and> (\<forall>w<v. delmark ov' w qs)"
    and "\<And>ps ds pe. strict_prefix ps ds \<Longrightarrow> node_at ov' ds \<noteq> node_at ov ds \<Longrightarrow> ent ov' ps = Some pe \<Longrightarrow>
      re_changed pe = v \<or> re_subtree pe = v"
    and "\<And>ds w. tmb ov ds = None \<Longrightarrow> tmb ov' ds \<noteq> None \<Longrightarrow> w < v \<Longrightarrow> delmark ov' w ds"
    and "\<And>w ds. delmark ov w ds \<Longrightarrow> delmark ov' w ds"
    and "\<And>w ds. delmark ov' w ds \<Longrightarrow> w < v \<or> (\<exists>qs. delmark ov w qs)"
  shows "tracked v ov ov'"
  unfolding tracked_def using assms by (intro conjI allI impI) blast+

section \<open>Writes at a key\<close>

definition write_at :: "bool \<Rightarrow> (reg_entry \<Rightarrow> reg_entry) \<Rightarrow> rstr \<Rightarrow> u64 \<Rightarrow> overlay \<Rightarrow> reg_result" where
  "write_at real f path now ov =
     (let (ov, v) = bump ov in do {
        ov \<leftarrow> ensure_chain path real v now ov;
        ov \<leftarrow> upd_entry (cfold path) f ov;
        Some (Inr (mark path v ov, v)) })"

definition light :: "(reg_entry \<Rightarrow> reg_entry) \<Rightarrow> bool" where
  "light f \<longleftrightarrow> (\<forall>e. shape (f e) = shape e \<and> re_changed (f e) = re_changed e \<and> re_subtree (f e) = re_subtree e)"

lemma shape_updates [simp]:
  "shape (e\<lparr>re_subtree := v\<rparr>) = shape e" "shape (e\<lparr>re_changed := v\<rparr>) = shape e"
  by (simp_all add: shape_def)

lemma mark_spec:
  assumes cs: "reg_comps cs" and e: "ent ov (map cfold cs) = Some e" and i: "ov_inv ov"
  shows "ent (mark (mkpath cs) v ov) = (\<lambda>ds. if strict_prefix ds (map cfold cs)
      then map_option (re_subtree_update (\<lambda>_. v)) (ent ov ds)
      else if ds = map cfold cs then Some (e\<lparr>re_changed := v\<rparr>) else ent ov ds)"
    and "tmb (mark (mkpath cs) v ov) = tmb ov" and "ov_inv (mark (mkpath cs) v ov)"
    and "ov_deleted_at (mark (mkpath cs) v ov) = ov_deleted_at ov"
    and "ov_deleted_floor (mark (mkpath cs) v ov) = ov_deleted_floor ov"
    and "ov_version (mark (mkpath cs) v ov) = ov_version ov"
proof -
  let ?t = "map cfold cs"
  have f: "folded ?t" using cs by simp
  have m: "map_of (ov_entries ov) (mkpath ?t) = Some e" using entries_ent [OF f, of ov] e by simp
  let ?ov = "set_entry (mkpath ?t) (e\<lparr>re_changed := v\<rparr>) ov"
  have mk: "mark (mkpath cs) v ov = touch_ancestors (mkpath cs) v ?ov"
    unfolding mark_def cfold_mkpath m option.case by (rule refl)
  note ta = touch_ancestors_spec [OF cs, where v = v and ov = ?ov]
  show E: "ent (mark (mkpath cs) v ov) = (\<lambda>ds. if strict_prefix ds ?t
      then map_option (re_subtree_update (\<lambda>_. v)) (ent ov ds)
      else if ds = ?t then Some (e\<lparr>re_changed := v\<rparr>) else ent ov ds)"
    unfolding mk ta(1) ent_set_entry(1) [OF f] by (auto simp: fun_eq_iff)
  show T: "tmb (mark (mkpath cs) v ov) = tmb ov" unfolding mk ta(2) ent_set_entry(2) by (rule refl)
  have "map_option shape (ent (mark (mkpath cs) v ov) ds) = map_option shape (ent ov ds)" for ds
    using e by (auto simp: E option.map_comp comp_def)
  then have "tree_ok (ent (mark (mkpath cs) v ov)) (tmb ov)"
    using i unfolding ov_inv_def by (blast intro: tree_ok_shape)
  moreover have "maps_ok (mark (mkpath cs) v ov)"
    unfolding mk using i f by (intro ta(3) ov_simps) (simp_all add: ov_inv_def)
  ultimately show "ov_inv (mark (mkpath cs) v ov)" by (simp add: ov_inv_def T)
  show "ov_deleted_at (mark (mkpath cs) v ov) = ov_deleted_at ov"
    "ov_deleted_floor (mark (mkpath cs) v ov) = ov_deleted_floor ov"
    "ov_version (mark (mkpath cs) v ov) = ov_version ov"
    unfolding mk ta(4-6) by (simp_all add: ov_simps)
qed

lemma bump_inv: "ov_inv (ov\<lparr>ov_version := v\<rparr>) \<longleftrightarrow> ov_inv ov"
  by (simp add: ov_inv_def ov_simps)

lemma write_at_spec:
  assumes i: "ov_inv ov" and cs: "reg_comps cs" and f: "light f"
    and t: "t = map cfold cs" and v: "v = ov_version ov + 1"
  shows "\<exists>ov1 e1 ov'. write_at real f (mkpath cs) now ov = Some (Inr (ov', v)) \<and> ov_inv ov' \<and>
    ov_inv ov1 \<and> chain_rel (\<lambda>ds. ds = t \<and> \<not> real) v t (ov\<lparr>ov_version := v\<rparr>) ov1 \<and> ent ov1 t = Some e1 \<and>
    ent ov' = (\<lambda>ds. if strict_prefix ds t then map_option (re_subtree_update (\<lambda>_. v)) (ent ov1 ds)
      else if ds = t then Some ((f e1)\<lparr>re_changed := v\<rparr>) else ent ov ds) \<and>
    tmb ov' = tmb ov1 \<and> delmark ov' = delmark ov \<and> ov_version ov' = v"
proof -
  let ?ov0 = "ov\<lparr>ov_version := v\<rparr>"
  have fo: "folded t" using cs by (simp add: t)
  obtain ov1 where c: "ensure_chain (mkpath cs) real v now ?ov0 = Some ov1" and i1: "ov_inv ov1"
    and r: "chain_rel (\<lambda>ds. ds = t \<and> \<not> real) v t ?ov0 ov1"
    using ensure_chain_spec [of ?ov0 cs real v now] i cs unfolding bump_inv t by blast
  obtain e1 where e1: "ent ov1 t = Some e1" using chain_relD(1) [OF r] by blast
  let ?ov2 = "set_entry (mkpath t) (f e1) ov1"
  have u: "upd_entry (cfold (mkpath cs)) f ov1 = Some ?ov2"
    unfolding cfold_mkpath t [symmetric] upd_entry_eq [OF fo] e1 by simp
  have E2: "ent ?ov2 = (ent ov1)(t \<mapsto> f e1)" by (rule ent_set_entry(1) [OF fo])
  have sh: "shape (f e1) = shape e1" using f by (simp add: light_def)
  have i2: "ov_inv ?ov2"
    using i1 fo tree_ok_upd [of "ent ov1" "tmb ov1" t e1 "f e1"] e1 sh by (simp add: ov_inv_def ov_simps)
  have e2: "ent ?ov2 (map cfold cs) = Some (f e1)" unfolding t [symmetric] E2 by simp
  note mk = mark_spec [OF cs e2 i2, where v = v]
  have w: "write_at real f (mkpath cs) now ov = Some (Inr (mark (mkpath cs) v ?ov2, v))"
    unfolding write_at_def bump_def Let_def prod.case v [symmetric] c by (simp only: u bind_simps Option.bind.simps)
  have out: "ent ov1 ds = ent ov ds" if "\<not> strict_prefix ds t" "ds \<noteq> t" for ds
    using chain_relD(2) [OF r, of ds] that by (simp add: strict_prefix_def ov_simps)
  have "ent (mark (mkpath cs) v ?ov2) = (\<lambda>ds. if strict_prefix ds t
      then map_option (re_subtree_update (\<lambda>_. v)) (ent ov1 ds)
      else if ds = t then Some ((f e1)\<lparr>re_changed := v\<rparr>) else ent ov ds)"
    unfolding mk(1) E2 t [symmetric] using out by (auto simp: fun_eq_iff)
  moreover have "delmark (mark (mkpath cs) v ?ov2) = delmark ov"
    using mk(4,5) chain_relD(7,8) [OF r] by (intro delmark_cong) (simp_all add: ov_simps)
  moreover have "ov_version (mark (mkpath cs) v ?ov2) = v" using mk(6) chain_relD(9) [OF r] by (simp add: ov_simps)
  moreover have "tmb (mark (mkpath cs) v ?ov2) = tmb ov1" unfolding mk(2) by (simp add: ov_simps)
  ultimately show ?thesis using w mk(3) r e1 i1 by blast
qed

text \<open>The entries after a write, one at a time.\<close>

lemma write_at_entry:
  assumes r: "chain_rel N v t ov0 ov1" and e1: "ent ov1 t = Some e1" and l: "light f" and o: "ent ov0 = ent ov"
    and E: "ent ov' = (\<lambda>ds. if strict_prefix ds t then map_option (re_subtree_update (\<lambda>_. v)) (ent ov1 ds)
      else if ds = t then Some ((f e1)\<lparr>re_changed := v\<rparr>) else ent ov ds)"
  shows "ent ov ds = Some e \<Longrightarrow> \<exists>e'. ent ov' ds = Some e' \<and> re_path e' = re_path e \<and>
      (re_changed e' = v \<or> re_changed e' = re_changed e \<and> re_node e' = re_node e) \<and>
      (re_subtree e' = v \<or> re_subtree e' = re_subtree e)"
    and "ent ov ds = None \<Longrightarrow> ent ov' ds = Some e' \<Longrightarrow> re_changed e' = v \<and> (re_subtree e' = v \<or> re_subtree e' = 0)"
    and "strict_prefix ds t \<Longrightarrow> ent ov' ds = Some e' \<Longrightarrow> re_subtree e' = v"
    and "\<not> prefix ds t \<Longrightarrow> ent ov' ds = ent ov ds"
proof -
  have f: "re_path (f x) = re_path x" "re_subtree (f x) = re_subtree x" for x
    using l by (simp_all add: light_def shape_def)
  show "\<exists>e'. ent ov' ds = Some e' \<and> re_path e' = re_path e \<and>
      (re_changed e' = v \<or> re_changed e' = re_changed e \<and> re_node e' = re_node e) \<and>
      (re_subtree e' = v \<or> re_subtree e' = re_subtree e)" if e: "ent ov ds = Some e"
  proof -
    obtain k where k: "ent ov1 ds = Some k" "kept v e k" using chain_relD(4) [OF r, of ds e] e o by auto
    show ?thesis
    proof (cases "ds = t")
      case True
      then show ?thesis using k e1 by (auto simp: E f kept_def)
    next
      case False
      then show ?thesis using k e by (auto simp: E kept_def)
    qed
  qed
  show "re_changed e' = v \<and> (re_subtree e' = v \<or> re_subtree e' = 0)"
    if n: "ent ov ds = None" and e': "ent ov' ds = Some e'"
  proof -
    have p: "prefix ds t" using n e' by (auto simp: E strict_prefix_def split: if_splits)
    then obtain k where k: "ent ov1 ds = Some k"
      using e' e1 by (cases "ds = t") (auto simp: E strict_prefix_def)
    then have "fresh v k" using chain_relD(5) [OF r _ k] n o by simp
    then show ?thesis using e' k e1 p by (auto simp: E f fresh_def strict_prefix_def split: if_splits)
  qed
  show "re_subtree e' = v" if "strict_prefix ds t" "ent ov' ds = Some e'" using that by (auto simp: E)
  show "ent ov' ds = ent ov ds" if "\<not> prefix ds t" using that by (auto simp: E strict_prefix_def)
qed

lemma write_at_tracked:
  assumes i: "ov_inv ov" and cs: "reg_comps cs" and f: "light f"
    and w: "write_at real f (mkpath cs) now ov = Some (Inr (ov', v))"
  shows "tracked v ov ov'"
proof -
  let ?t = "map cfold cs" and ?N = "\<lambda>ds. ds = map cfold cs \<and> \<not> real"
  obtain ov1 e1 where vv: "v = ov_version ov + 1"
    and r: "chain_rel ?N v ?t (ov\<lparr>ov_version := v\<rparr>) ov1" and e1: "ent ov1 ?t = Some e1"
    and E: "ent ov' = (\<lambda>ds. if strict_prefix ds ?t then map_option (re_subtree_update (\<lambda>_. v)) (ent ov1 ds)
      else if ds = ?t then Some ((f e1)\<lparr>re_changed := v\<rparr>) else ent ov ds)"
    and T: "tmb ov' = tmb ov1" and d: "delmark ov' = delmark ov" and ver: "ov_version ov' = v"
    using write_at_spec [OF i cs f refl refl, of real now] w by auto
  note en = write_at_entry [OF r e1 f del_tomb_steps(3) E]
  have tn: "tmb ov' ds = None" if "tmb ov ds = None" for ds
    using chain_relD(3) [OF r, of ds] that by (simp add: T ov_simps)
  have sub: "re_subtree pe = v"
    if p: "strict_prefix ps ds" and n: "node_at ov' ds \<noteq> node_at ov ds" and pe: "ent ov' ps = Some pe" for ps ds pe
  proof -
    have "prefix ds ?t" using n en(4) [of ds] unfolding node_at_def by metis
    then have "strict_prefix ps ?t" using p by (auto intro: prefix_order.less_le_trans)
    then show ?thesis using en(3) pe by blast
  qed
  show ?thesis
  proof (rule trackedI)
    show "ov_version ov' = v" by (rule ver)
    fix ds e e'
    show "(re_changed e' = v \<or> re_changed e' = re_changed e \<and> re_node e' = re_node e) \<and>
        (re_subtree e' = v \<or> re_subtree e' = re_subtree e)" if "ent ov ds = Some e" "ent ov' ds = Some e'"
      using en(1) [OF that(1)] that(2) by auto
    show "\<exists>qs. qs \<noteq> [] \<and> prefix qs ds \<and> (\<forall>w<v. delmark ov' w qs)" if "ent ov ds = Some e" "ent ov' ds = None"
      using en(1) [OF that(1)] that(2) by auto
  qed (use en(2) sub tn in \<open>auto simp: d\<close>)
qed

section \<open>Lookup\<close>

definition tomb_above :: "overlay \<Rightarrow> rstr list \<Rightarrow> bool" where
  "tomb_above ov cs \<longleftrightarrow> (\<exists>qs. prefix qs cs \<and> tmb ov qs \<noteq> None)"

lemma is_tombstoned_iff:
  assumes "folded cs"
  shows "is_tombstoned ov (mkpath cs) \<longleftrightarrow> tomb_above ov cs"
  using assms
proof (induction cs rule: rev_induct)
  case (snoc c cs)
  have rc: "reg_comps (cs @ [c])" using snoc.prems by (simp add: folded_def)
  have m: "map_of (ov_tombs ov) (mkpath (cs @ [c])) = tmb ov (cs @ [c])" by (rule tombs_tmb [OF snoc.prems])
  have up: "tomb_above ov (cs @ [c]) \<longleftrightarrow> tmb ov (cs @ [c]) \<noteq> None \<or> tomb_above ov cs"
    unfolding tomb_above_def prefix_snoc by blast
  show ?case
  proof (cases "cs = []")
    case True
    have par: "parent (mkpath (cs @ [c])) = None" unfolding parent_comps [OF rc] using True by (rule if_P)
    have "\<not> tomb_above ov cs" using True by (simp add: tomb_above_def)
    then show ?thesis unfolding up by (subst is_tombstoned.simps) (simp only: m par option.case, simp)
  next
    case False
    have par: "parent (mkpath (cs @ [c])) = Some (mkpath cs)"
      unfolding parent_comps [OF rc] using False by (rule if_not_P)
    have f: "folded cs" by (rule folded_prefix [OF snoc.prems False])
    show ?thesis
      unfolding up snoc.IH [OF f, symmetric] by (subst is_tombstoned.simps) (simp only: m par option.case, simp)
  qed
qed simp

lemma valid_mkpath: "reg_comps cs \<Longrightarrow> valid_path (mkpath cs)"
  unfolding valid_path_iff by blast

lemma lookup_fst:
  assumes "reg_comps cs"
  shows "fst (ov_lookup ov (mkpath cs)) = (case ent ov (map cfold cs) of
    Some e \<Rightarrow> LPresent (rn_created (re_node e))
  | None \<Rightarrow> if tomb_above ov (map cfold cs) then LTombstoned else LAbsent)"
proof -
  have f: "folded (map cfold cs)" using assms by simp
  show ?thesis
    unfolding ov_lookup_def cfold_mkpath Let_def entries_ent [OF f] is_tombstoned_iff [OF f]
    using valid_mkpath [OF assms] by (simp split: option.split)
qed

section \<open>Deleting a key\<close>

lemma delete_key_spec:
  assumes i: "ov_inv ov" and cs: "reg_comps (cs @ [c])" and ne: "cs \<noteq> []"
    and nt: "ent ov t \<noteq> None \<or> \<not> tomb_above ov t"
    and t: "t = map cfold (cs @ [c])" and p: "p = map cfold cs" and v: "v = ov_version ov + 1"
  shows "\<exists>ov1 pe pe' ov'. delete_key (mkpath (cs @ [c])) now ov = Some (Inr (ov', v)) \<and> ov_inv ov' \<and>
    chain_rel (\<lambda>ds. False) v p (ov\<lparr>ov_version := v\<rparr>) ov1 \<and> ent ov1 p = Some pe \<and>
    with_child (cfold c) c CTombstone pe pe' \<and> re_changed pe' = v \<and> re_subtree pe' = re_subtree pe \<and>
    rn_values (re_node pe') = rn_values (re_node pe) \<and>
    rn_value_tombstones (re_node pe') = rn_value_tombstones (re_node pe) \<and>
    ent ov' = (\<lambda>ds. if strict_prefix ds p then map_option (re_subtree_update (\<lambda>_. v)) (ent ov1 ds)
      else if ds = p then Some pe' else cut t (ent ov) ds) \<and>
    tmb ov' = (cut t (tmb ov1))(t \<mapsto> v) \<and> (\<forall>w<v. delmark ov' w t) \<and>
    (\<forall>w ds. delmark ov w ds \<longrightarrow> delmark ov' w ds) \<and>
    (\<forall>w ds. delmark ov' w ds \<longrightarrow> w < v \<or> (\<exists>qs. delmark ov w qs)) \<and> ov_version ov' = v"
proof -
  let ?ov0 = "ov\<lparr>ov_version := v\<rparr>"
  have rc: "reg_comps cs" using cs ne by (simp add: reg_comps_def)
  have fp: "folded p" and ft: "folded t" using rc cs by (simp_all add: p t del: map_append)
  have tp: "t = p @ [cfold c]" by (simp add: t p)
  obtain ov1 where ch: "ensure_chain (mkpath cs) True v now ?ov0 = Some ov1" and i1: "ov_inv ov1"
    and r: "chain_rel (\<lambda>ds. False) v p ?ov0 ov1"
    using ensure_chain_spec [of ?ov0 cs True v now] i rc unfolding bump_inv p by auto
  obtain pe where pe: "ent ov1 p = Some pe" using chain_relD(1) [OF r] by blast
  have m1: "maps_ok ov1" and t1: "tree_ok (ent ov1) (tmb ov1)" using i1 by (simp_all add: ov_inv_def)
  let ?pe' = "pe\<lparr>re_node := (re_node pe)\<lparr>
      rn_children := oins (cfold c) (c, CTombstone) (rn_children (re_node pe)), rn_last_write := now\<rparr>, re_changed := v\<rparr>"
  let ?ov2 = "remove_subtree (mkpath t) ov1"
  let ?ov3 = "tomb (mkpath t) v ?ov2"
  let ?ov4 = "set_entry (mkpath p) ?pe' ?ov3"
  let ?ov' = "touch_ancestors (mkpath cs) v ?ov4"
  note rs = remove_subtree_spec [OF m1 ft]
  have m2: "maps_ok ?ov2" by (rule rs(3))
  have w: "with_child (cfold c) c CTombstone pe ?pe'" by (simp add: with_child_def)
  have E4: "ent ?ov4 = (cut t (ent ov1))(p \<mapsto> ?pe')" by (simp only: ov_simps fp rs(1) cut_def)
  have T4: "tmb ?ov4 = (cut t (tmb ov1))(t \<mapsto> v)" by (simp only: ov_simps ft rs(2) cut_def)
  have tr: "tree_ok (ent ?ov4) (tmb ?ov4)"
    unfolding E4 T4 unfolding tp by (rule tree_ok_cut [OF t1 pe w])
  have m4: "maps_ok ?ov4" using m2 by (simp only: ov_simps fp ft)
  note ta = touch_ancestors_spec [OF rc, where v = v and ov = ?ov4]
  have sp: "\<not> prefix t ds" if "strict_prefix ds p" for ds
    using that unfolding tp by (auto dest!: prefix_length_le simp: strict_prefix_def dest: prefix_length_less)
  have out: "ent ov1 ds = ent ov ds" if "\<not> strict_prefix ds p" "ds \<noteq> p" for ds
    using chain_relD(2) [OF r, of ds] that by (simp add: strict_prefix_def ov_simps)
  have E: "ent ?ov' = (\<lambda>ds. if strict_prefix ds p then map_option (re_subtree_update (\<lambda>_. v)) (ent ov1 ds)
      else if ds = p then Some ?pe' else cut t (ent ov) ds)"
    unfolding ta(1) E4 p [symmetric] using sp out by (auto simp: fun_eq_iff cut_def)
  have "map_option shape (ent ?ov' ds) = map_option shape (ent ?ov4 ds)" for ds
    unfolding ta(1) by (simp add: option.map_comp comp_def)
  then have "tree_ok (ent ?ov') (tmb ?ov')" unfolding ta(2) using tree_ok_shape tr by blast
  then have inv: "ov_inv ?ov'" using ta(3) [OF m4] by (simp add: ov_inv_def)
  have par: "parent (mkpath (cs @ [c])) = Some (mkpath cs)"
    unfolding parent_comps [OF cs] using ne by (rule if_not_P)
  have lf: "leaf (mkpath (cs @ [c])) = c"
    using leaf_mkpath [of c "mkpath cs"] reg_comps_names [OF cs] by simp
  have lk: "fst (ov_lookup ov (mkpath (cs @ [c]))) \<noteq> LTombstoned"
    unfolding lookup_fst [OF cs] t [symmetric] using nt by (auto split: option.splits)
  have e3: "ent ?ov3 p = Some pe" using pe by (simp only: ov_simps rs(1)) (simp add: tp)
  have u: "upd_entry (mkpath p) (\<lambda>pe. pe\<lparr>re_node := (re_node pe)\<lparr>
      rn_children := oins (cfold c) (c, CTombstone) (rn_children (re_node pe)), rn_last_write := now\<rparr>,
      re_changed := v\<rparr>) ?ov3 = Some ?ov4"
    unfolding upd_entry_eq [OF fp] e3 by simp
  have d: "delete_key (mkpath (cs @ [c])) now ov = Some (Inr (?ov', v))"
    unfolding delete_key_def check_path_def guarded_def par lf bump_def Let_def prod.case option.case v [symmetric]
      cfold_mkpath p [symmetric] t [symmetric] ch
    using lk valid_mkpath [OF cs] u by simp
  have d12: "delmark ?ov2 = delmark ov"
    using chain_relD(7,8) [OF r] by (intro delmark_cong) (simp_all add: ov_simps)
  have d34: "delmark ?ov' = delmark ?ov3" using ta(4,5) by (intro delmark_cong) (simp_all add: ov_simps)
  note dm = delmark_tomb [OF ft m2, where v = v, unfolded d12 d34 [symmetric]]
  have ver: "ov_version ?ov' = v" unfolding ta(6) using chain_relD(9) [OF r] by (simp add: ov_simps)
  show ?thesis
    using d inv r pe w E T4 ta(2) dm ver by (intro exI [of _ ov1] exI [of _ pe] exI [of _ ?pe'] exI [of _ ?ov']) simp
qed

lemma delete_key_tracked:
  assumes i: "ov_inv ov" and cs: "reg_comps (cs @ [c])" and ne: "cs \<noteq> []"
    and nt: "ent ov (map cfold (cs @ [c])) \<noteq> None \<or> \<not> tomb_above ov (map cfold (cs @ [c]))"
    and w: "delete_key (mkpath (cs @ [c])) now ov = Some (Inr (ov', v))"
  shows "tracked v ov ov'"
proof -
  let ?t = "map cfold (cs @ [c])" and ?p = "map cfold cs"
  obtain ov1 pe pe' where r: "chain_rel (\<lambda>ds. False) v ?p (ov\<lparr>ov_version := v\<rparr>) ov1" and pe: "ent ov1 ?p = Some pe"
    and pe': "re_changed pe' = v" "re_subtree pe' = re_subtree pe"
    and E: "ent ov' = (\<lambda>ds. if strict_prefix ds ?p then map_option (re_subtree_update (\<lambda>_. v)) (ent ov1 ds)
      else if ds = ?p then Some pe' else cut ?t (ent ov) ds)"
    and T: "tmb ov' = (cut ?t (tmb ov1))(?t \<mapsto> v)" and d: "\<forall>w<v. delmark ov' w ?t"
    and d1: "\<forall>w ds. delmark ov w ds \<longrightarrow> delmark ov' w ds"
    and d2: "\<forall>w ds. delmark ov' w ds \<longrightarrow> w < v \<or> (\<exists>qs. delmark ov w qs)" and ver: "ov_version ov' = v"
    using delete_key_spec [OF i cs ne nt refl refl refl, of now] w by auto
  have k: "ent ov1 ds = Some k \<Longrightarrow> ent ov ds = Some e \<Longrightarrow> kept v e k" for ds e k
    using chain_relD(4) [OF r, of ds e] by (auto simp: ov_simps)
  have n: "ent ov1 ds = Some k \<Longrightarrow> ent ov ds = None \<Longrightarrow> fresh v k" for ds k
    using chain_relD(5) [OF r, of ds k] by (auto simp: ov_simps)
  have ev: "(\<exists>k. ent ov1 ds = Some k \<and> re_changed e' = re_changed k \<and> re_node e' = re_node k \<and> re_subtree e' = v) \<or>
      (ds = ?p \<and> e' = pe') \<or> ent ov ds = Some e'" if "ent ov' ds = Some e'" for ds e'
    using that unfolding E by (cases "strict_prefix ds ?p"; cases "ds = ?p") (auto simp: cut_Some)
  have gone: "prefix ?t ds" if "ent ov ds = Some e" "ent ov' ds = None" for ds e
  proof (rule ccontr)
    assume np: "\<not> prefix ?t ds"
    have "ent ov1 ds \<noteq> None" using chain_relD(4) [OF r, of ds e] that(1) by (auto simp: ov_simps)
    with np that show False by (auto simp: E split: if_splits)
  qed
  show ?thesis
  proof (rule trackedI)
    fix ds e e'
    show "(re_changed e' = v \<or> re_changed e' = re_changed e \<and> re_node e' = re_node e) \<and>
        (re_subtree e' = v \<or> re_subtree e' = re_subtree e)" if o: "ent ov ds = Some e" and o': "ent ov' ds = Some e'"
    proof -
      consider k where "ent ov1 ds = Some k" "re_changed e' = re_changed k" "re_node e' = re_node k" "re_subtree e' = v"
        | "ds = ?p" "e' = pe'" | "ent ov ds = Some e'" using ev [OF o'] by blast
      then show ?thesis
        using k [of ds _ e, OF _ o] k [OF pe, of e] o pe' by cases (auto simp: kept_def)
    qed
    show "re_changed e' = v \<and> (re_subtree e' = v \<or> re_subtree e' = 0)" if o: "ent ov ds = None" and o': "ent ov' ds = Some e'"
    proof -
      consider k where "ent ov1 ds = Some k" "re_changed e' = re_changed k" "re_node e' = re_node k" "re_subtree e' = v"
        | "ds = ?p" "e' = pe'" | "ent ov ds = Some e'" using ev [OF o'] by blast
      then show ?thesis
        using n [of ds, OF _ o] n [OF pe] o pe' by cases (auto simp: fresh_def)
    qed
    have "?t \<noteq> []" by simp
    then show "\<exists>qs. qs \<noteq> [] \<and> prefix qs ds \<and> (\<forall>w<v. delmark ov' w qs)" if "ent ov ds = Some e" "ent ov' ds = None"
      using gone [OF that] d by blast
    fix ps pe2 assume sp: "strict_prefix ps ds" and nd: "node_at ov' ds \<noteq> node_at ov ds" and e2: "ent ov' ps = Some pe2"
    have "prefix ps ?p"
    proof (rule ccontr)
      assume np: "\<not> prefix ps ?p"
      then have "\<not> strict_prefix ps ?p" "ps \<noteq> ?p" by (auto simp: strict_prefix_def)
      then have nt: "\<not> prefix ?t ps" using e2 by (simp add: E cut_Some)
      have "\<not> prefix ds ?p" using np sp prefix_order.less_imp_le prefix_order.trans by blast
      moreover have "\<not> prefix ?t ds"
      proof
        assume "prefix ?t ds"
        then have "prefix ps ?t \<or> prefix ?t ps" using sp prefix_same_cases prefix_order.less_imp_le by blast
        then show False using nt np by (simp add: prefix_snoc)
      qed
      ultimately have "ent ov' ds = ent ov ds" by (auto simp: E strict_prefix_def)
      then show False using nd by (simp add: node_at_def)
    qed
    then show "re_changed pe2 = v \<or> re_subtree pe2 = v"
      using e2 pe' by (auto simp: E strict_prefix_def split: if_splits)
  next
    fix ds w assume "tmb ov ds = None" "tmb ov' ds \<noteq> None" "w < v"
    then show "delmark ov' w ds"
      using d chain_relD(3) [OF r, of ds] by (auto simp: T cut_def ov_simps split: if_splits)
  qed (use ver d1 d2 in auto)
qed

end
