(* ===== verification/Reg_Rename.thy ===== *)
theory Reg_Rename
  imports Reg_Ops
begin

text \<open>
  Renaming a key of the overlay: the subtree is cut at the old name and grafted under the new
  one, with every moved key created-here. A rename that only changes the spelling grafts where it
  cut, so both cases share the lemmas.
\<close>

section \<open>Grafting a subtree\<close>

definition graft :: "rstr list \<Rightarrow> (rstr list \<Rightarrow> 'v option) \<Rightarrow> (rstr list \<Rightarrow> 'v option) \<Rightarrow> rstr list \<Rightarrow> 'v option" where
  "graft t G m = (\<lambda>ds. if prefix t ds then G (drop (length t) ds) else m ds)"

lemma graft_simps [simp]:
  "graft t G m (t @ xs) = G xs" "graft t G m t = G []" "\<not> prefix t ds \<Longrightarrow> graft t G m ds = m ds"
  by (simp_all add: graft_def)

lemma graft_Cons [simp]: "graft (ps @ [d]) G m (ps @ d # xs) = G xs"
  using graft_simps(1) [of "ps @ [d]" G m xs] by simp

text \<open>A subtree fit to hang at \<open>t\<close>: closed, and each child list describes the level below.\<close>

definition branch_ok :: "rstr list \<Rightarrow> (rstr list \<Rightarrow> reg_entry option) \<Rightarrow> (rstr list \<Rightarrow> u64 option) \<Rightarrow> bool" where
  "branch_ok t G H \<longleftrightarrow> G [] \<noteq> None \<and>
     (\<forall>xs c. G (xs @ [c]) \<noteq> None \<longrightarrow> G xs \<noteq> None) \<and>
     (\<forall>xs c. H (xs @ [c]) \<noteq> None \<longrightarrow> G xs \<noteq> None) \<and>
     (\<forall>xs. G xs \<noteq> None \<longrightarrow> H xs = None) \<and>
     (\<forall>xs e. G xs = Some e \<longrightarrow> entry_ok (t @ xs) e \<and> (\<forall>c. kid_ok e c (G (xs @ [c])) (H (xs @ [c]))))"

lemma branch_okD:
  assumes "branch_ok t G H"
  shows "G (xs @ [c]) = Some e \<Longrightarrow> G xs \<noteq> None" and "H (xs @ [c]) = Some u \<Longrightarrow> G xs \<noteq> None"
    and "G xs = Some e \<Longrightarrow> H xs = None" and "G xs = Some e \<Longrightarrow> entry_ok (t @ xs) e"
    and "G xs = Some e \<Longrightarrow> kid_ok e c (G (xs @ [c])) (H (xs @ [c]))"
    and "\<exists>g. G [] = Some g" and "H [] = None"
  using assms unfolding branch_ok_def by (blast | metis option.exhaust option.distinct(1))+

lemma prefix_snoc_cases:
  assumes "prefix (ps @ [d]) (cs @ [c])"
  obtains "cs = ps" "c = d" | xs where "cs = ps @ d # xs"
  using assms by (auto simp: prefix_def) (metis append_assoc append_Cons append_Nil append_butlast_last_id butlast_append butlast_snoc last_snoc list.distinct(1) snoc_eq_iff_butlast)

lemma tree_ok_graft:
  assumes t: "tree_ok E T" and pe: "E ps = Some pe" and w: "with_child d s CPresent pe pe'"
    and b: "branch_ok (ps @ [d]) G H" and g: "G [] = Some g" "re_path g = re_path pe @ backslash # s"
  shows "tree_ok (graft (ps @ [d]) G (E(ps \<mapsto> pe'))) (graft (ps @ [d]) H T)" (is "tree_ok ?E ?T")
proof (rule tree_okI)
  let ?n = "ps @ [d]"
  have path: "map_option re_path (?E ds) = map_option re_path (E ds)" if "\<not> prefix ?n ds" for ds
    using that pe with_childD(2) [OF w] by simp
  have below: "?E (?n @ xs @ ys) = G (xs @ ys)" "?T (?n @ xs @ ys) = H (xs @ ys)" for xs ys
    by (rule graft_simps(1))+
  fix cs c
  have nz: "?E cs \<noteq> None" if "E cs \<noteq> None" "\<not> prefix ?n cs" using that by simp
  show "?E cs \<noteq> None" if "cs \<noteq> []" "?E (cs @ [c]) = Some e" for e
  proof (cases "prefix ?n (cs @ [c])")
    case True
    then show ?thesis
    proof (cases rule: prefix_snoc_cases)
      case 1
      then show ?thesis using pe by simp
    next
      case (2 xs)
      then have "G (xs @ [c]) = Some e" using that(2) below(1) [of xs "[c]"] by simp
      from branch_okD(1) [OF b this] show ?thesis using 2 below(1) [of xs "[]"] by simp
    qed
  next
    case False
    then have "E (cs @ [c]) \<noteq> None" using that(2) pe by (auto split: if_splits)
    then show ?thesis using tree_okD(1) [OF t that(1)] nz False by (auto simp: prefix_snoc)
  qed
  show "?E cs \<noteq> None" if "?T (cs @ [c]) = Some u" for u
  proof (cases "prefix ?n (cs @ [c])")
    case True
    then show ?thesis
    proof (cases rule: prefix_snoc_cases)
      case 1
      then show ?thesis using pe by simp
    next
      case (2 xs)
      then have "H (xs @ [c]) = Some u" using that below(2) [of xs "[c]"] by simp
      from branch_okD(2) [OF b this] show ?thesis using 2 below(1) [of xs "[]"] by simp
    qed
  next
    case False
    then show ?thesis using that tree_okD(2) [OF t, of cs c u] nz by (auto simp: prefix_snoc)
  qed
  fix e assume e: "?E cs = Some e"
  show "?T cs = None"
    using e pe branch_okD(3) [OF b] tree_okD(3) [OF t, of cs] by (cases "prefix ?n cs") (auto simp: prefix_def split: if_splits)
  show "entry_ok cs e"
    using e pe branch_okD(4) [OF b] tree_okD(4) [OF t, of cs] with_childD(4) [OF w]
    by (cases "prefix ?n cs") (auto simp: prefix_def split: if_splits)
  consider xs where "cs = ?n @ xs" | "cs = ps" "c = d" | "\<not> prefix ?n cs" "cs @ [c] \<noteq> ?n"
    by (auto simp: prefix_def)
  then show "kid_ok e c (?E (cs @ [c])) (?T (cs @ [c]))"
  proof cases
    case (1 xs)
    then show ?thesis
      using e below [of xs "[c]"] below [of xs "[]"] branch_okD(5) [OF b, of xs e c] by simp
  next
    case 2
    then show ?thesis using e g branch_okD(7) [OF b] with_childD [OF w] by (simp add: kid_ok_def)
  next
    case 3
    then have np: "\<not> prefix ?n (cs @ [c])" by (auto simp: prefix_snoc)
    have "map_of (rn_children (re_node e)) c = map_of (rn_children (re_node e0)) c \<and> re_path e = re_path e0"
      if "E cs = Some e0" for e0
      using e that 3 pe with_childD(1,2) [OF w] by (auto split: if_splits)
    moreover obtain e0 where e0: "E cs = Some e0" using e 3 pe by (auto split: if_splits)
    ultimately have "kid_ok e c (?E (cs @ [c])) (?T (cs @ [c])) \<longleftrightarrow> kid_ok e0 c (E (cs @ [c])) (T (cs @ [c]))"
      using path [OF np] np by (intro kid_ok_cong) auto
    then show ?thesis using tree_okD(5) [OF t e0] by blast
  qed
qed

section \<open>The moved entries\<close>

lemma slice_from_append: "slice_from (length (utf8 a)) (a @ b) = Some b"
proof (induction a)
  case Nil
  then show ?case by (cases b) simp_all
next
  case (Cons c a)
  have "length (utf8_char c) > 0" by simp
  with Cons show ?case by simp
qed

lemma path_extends:
  assumes t: "tree_ok E T" and "E cs = Some e" and "E (cs @ xs) = Some e'" and "cs \<noteq> []"
  shows "\<exists>ys. re_path e' = re_path e @ mkpath ys \<and> map cfold ys = xs"
  using assms(3)
proof (induction xs arbitrary: e' rule: rev_induct)
  case Nil
  then show ?case using assms(2) by (intro exI [of _ "[]"]) simp
next
  case (snoc x xs)
  have e': "E ((cs @ xs) @ [x]) = Some e'" using snoc.prems by simp
  have ne: "cs @ xs \<noteq> []" using assms(4) by simp
  obtain pe where pe: "E (cs @ xs) = Some pe" using tree_okD(1) [OF t ne e'] by blast
  obtain ys where ys: "re_path pe = re_path e @ mkpath ys" "map cfold ys = xs" using snoc.IH [OF pe] by blast
  obtain s where "cfold s = x" "re_path e' = re_path pe @ backslash # s"
    using tree_okD(5) [OF t pe, of x] e' by (auto simp: kid_ok_def Let_def)
  then show ?case using ys by (intro exI [of _ "ys @ [s]"]) simp
qed

definition moved_entry :: "rstr \<Rightarrow> rstr \<Rightarrow> u64 \<Rightarrow> reg_entry \<Rightarrow> reg_entry" where
  "moved_entry old_stored new_path v e = \<lparr>re_path = new_path @ drop (length old_stored) (re_path e),
     re_node = (re_node e)\<lparr>rn_created := True\<rparr>, re_changed = v, re_subtree = v\<rparr>"

lemma moved_branch:
  assumes t: "tree_ok E T" and o: "E old = Some root" "old \<noteq> []"
    and n: "new_path = mkpath ns" "map cfold ns = new"
    and H: "\<And>xs. H xs = None \<longleftrightarrow> T (old @ xs) = None"
  shows "branch_ok new (\<lambda>xs. map_option (moved_entry (re_path root) new_path v) (E (old @ xs))) H" (is "branch_ok new ?G H")
proof -
  let ?m = "moved_entry (re_path root) new_path v"
  have each: "entry_ok (new @ xs) (?m e) \<and> (\<forall>c. kid_ok (?m e) c (?G (xs @ [c])) (H (xs @ [c])))"
    if e: "E (old @ xs) = Some e" for xs e
  proof -
    obtain ys where ys: "re_path e = re_path root @ mkpath ys" "map cfold ys = xs"
      using path_extends [OF t o(1) e o(2)] by blast
    have "\<exists>ds. re_path (?m e) = mkpath ds \<and> map cfold ds = new @ xs"
      using ys n by (intro exI [of _ "ns @ ys"]) (simp add: moved_entry_def)
    moreover have "entry_ok (old @ xs) e" by (rule tree_okD(4) [OF t e])
    ultimately have "entry_ok (new @ xs) (?m e)" by (simp add: entry_ok_def moved_entry_def)
    moreover have "kid_ok (?m e) c (?G (xs @ [c])) (H (xs @ [c]))" for c
      using tree_okD(5) [OF t e, of c] H [of "xs @ [c]"] ys(1)
      by (cases "E (old @ xs @ [c])"; cases "T (old @ xs @ [c])"; cases "H (xs @ [c])")
        (auto simp: kid_ok_def moved_entry_def Let_def)
    ultimately show ?thesis by blast
  qed
  show ?thesis
    unfolding branch_ok_def
  proof (intro conjI allI impI)
    show "?G [] \<noteq> None" using o(1) by simp
    fix xs c
    show "?G xs \<noteq> None" if a: "?G (xs @ [c]) \<noteq> None"
    proof -
      obtain x where "E ((old @ xs) @ [c]) = Some x" using a by auto
      from tree_okD(1) [OF t _ this] o(2) show ?thesis by auto
    qed
    show "?G xs \<noteq> None" if a: "H (xs @ [c]) \<noteq> None"
    proof -
      obtain u where "T ((old @ xs) @ [c]) = Some u" using a H [of "xs @ [c]"] by auto
      from tree_okD(2) [OF t this] show ?thesis by auto
    qed
    show "H xs = None" if a: "?G xs \<noteq> None"
    proof -
      obtain x where "E (old @ xs) = Some x" using a by auto
      from tree_okD(3) [OF t this] show ?thesis using H [of xs] by blast
    qed
    fix e assume "?G xs = Some e"
    then obtain x where "E (old @ xs) = Some x" "e = ?m x" by auto
    with each show "entry_ok (new @ xs) e" "kid_ok e c (?G (xs @ [c])) (H (xs @ [c]))" by blast+
  qed
qed

lemma take_entries_spec:
  assumes "distinct ks" and "\<forall>k\<in>set ks. map_of (ov_entries ov) k \<noteq> None"
  shows "take_entries ks ov = Some (map (\<lambda>k. the (map_of (ov_entries ov) k)) ks,
    ov\<lparr>ov_entries := remove_keys ks (ov_entries ov)\<rparr>)"
  using assms
proof (induction ks arbitrary: ov)
  case (Cons k ks)
  obtain e where e: "map_of (ov_entries ov) k = Some e" using Cons.prems(2) by auto
  let ?ov = "ov\<lparr>ov_entries := odel k (ov_entries ov)\<rparr>"
  have "\<forall>k'\<in>set ks. map_of (ov_entries ?ov) k' \<noteq> None" using Cons.prems by auto
  from Cons.IH [OF _ this] Cons.prems(1)
  have "take_entries ks ?ov = Some (map (\<lambda>k. the (map_of (ov_entries ?ov) k)) ks,
      ov\<lparr>ov_entries := remove_keys ks (odel k (ov_entries ov))\<rparr>)" by simp
  moreover have "map (\<lambda>k. the (map_of (ov_entries ?ov) k)) ks = map (\<lambda>k. the (map_of (ov_entries ov) k)) ks"
    using Cons.prems(1) by auto
  ultimately show ?case using e by (simp add: remove_keys_def)
qed (simp add: remove_keys_def)

lemma put_moved_spec:
  assumes "folded (ps @ [d])" and "ps \<noteq> []"
    and "\<And>xs. xs \<in> set xss \<Longrightarrow> \<exists>e ys. E (old @ xs) = Some e \<and> re_path e = old_stored @ mkpath ys \<and>
      map cfold ys = xs \<and> list_all name_ok ys"
    and "cfold old_stored = mkpath old"
  shows "\<exists>ov'. put_moved old_stored (mkpath old) new_path (mkpath (ps @ [d])) v (map (\<lambda>xs. the (E (old @ xs))) xss) ov = Some ov' \<and>
    ent ov' = (\<lambda>ds. if \<exists>xs\<in>set xss. ds = ps @ [d] @ xs
      then map_option (moved_entry old_stored new_path v) (E (old @ drop (length ps + 1) ds)) else ent ov ds) \<and>
    tmb ov' = tmb ov \<and> (maps_ok ov \<longrightarrow> maps_ok ov') \<and> ov_deleted_at ov' = ov_deleted_at ov \<and>
    ov_deleted_floor ov' = ov_deleted_floor ov \<and> ov_version ov' = ov_version ov"
  using assms(3)
proof (induction xss arbitrary: ov)
  case Nil
  then show ?case by simp
next
  case (Cons xs xss)
  obtain e ys where e: "E (old @ xs) = Some e" "re_path e = old_stored @ mkpath ys" "map cfold ys = xs" "list_all name_ok ys"
    using Cons.prems [of xs] by auto
  let ?k = "(ps @ [d]) @ xs"
  have f: "folded ?k"
    using assms(1,2) e(3,4) unfolding folded_def reg_comps_def by (auto simp: list_all_iff)
  have s1: "slice_from (length (utf8 old_stored)) (re_path e) = Some (mkpath ys)"
    unfolding e(2) by (rule slice_from_append)
  have "cfold (old_stored @ mkpath ys) = mkpath old @ mkpath xs" using e(3) assms(4) by (simp only: cfold_simps cfold_mkpath)
  then have s2: "slice_from (length (utf8 (mkpath old))) (cfold (old_stored @ mkpath ys)) = Some (mkpath xs)"
    by (simp only: slice_from_append)
  let ?ov = "set_entry (mkpath ?k) (moved_entry old_stored new_path v e) ov"
  have pr: "\<exists>e ys. E (old @ zs) = Some e \<and> re_path e = old_stored @ mkpath ys \<and> map cfold ys = zs \<and>
      list_all name_ok ys" if "zs \<in> set xss" for zs
    by (rule Cons.prems) (simp add: that)
  have "put_moved old_stored (mkpath old) new_path (mkpath (ps @ [d])) v (map (\<lambda>xs. the (E (old @ xs))) (xs # xss)) ov =
      put_moved old_stored (mkpath old) new_path (mkpath (ps @ [d])) v (map (\<lambda>xs. the (E (old @ xs))) xss) ?ov"
    using s1 s2 e(2) by (simp add: e(1) moved_entry_def)
  moreover obtain ov' where ov': "put_moved old_stored (mkpath old) new_path (mkpath (ps @ [d])) v (map (\<lambda>xs. the (E (old @ xs))) xss) ?ov = Some ov'"
    "ent ov' = (\<lambda>ds. if \<exists>xs\<in>set xss. ds = ps @ [d] @ xs
      then map_option (moved_entry old_stored new_path v) (E (old @ drop (length ps + 1) ds)) else ent ?ov ds)"
    "tmb ov' = tmb ?ov" "maps_ok ?ov \<longrightarrow> maps_ok ov'" "ov_deleted_at ov' = ov_deleted_at ?ov"
    "ov_deleted_floor ov' = ov_deleted_floor ?ov" "ov_version ov' = ov_version ?ov"
    using Cons.IH [of ?ov, OF pr] by blast
  moreover have "ent ?ov = (ent ov)(?k \<mapsto> moved_entry old_stored new_path v e)" by (rule ent_set_entry(1) [OF f])
  then have "ent ov' = (\<lambda>ds. if \<exists>xs\<in>set (xs # xss). ds = ps @ [d] @ xs
      then map_option (moved_entry old_stored new_path v) (E (old @ drop (length ps + 1) ds)) else ent ov ds)"
    unfolding ov'(2) using e(1) by (auto simp: fun_eq_iff)
  ultimately show ?case
    using maps_ok_set_entry [OF f, of ov] by (simp add: ov_simps)
qed

lemma put_moved_tombs_spec:
  assumes "maps_ok ov" and "\<forall>xs\<in>set xss. folded (new @ xs)"
  shows "\<exists>ov'. put_moved_tombs (mkpath old) (mkpath new) v (map (\<lambda>xs. mkpath (old @ xs)) xss) ov = Some ov' \<and>
    ent ov' = ent ov \<and> tmb ov' = (\<lambda>ds. if \<exists>xs\<in>set xss. ds = new @ xs then Some v else tmb ov ds) \<and>
    maps_ok ov' \<and> ov_version ov' = ov_version ov \<and>
    (\<forall>w<v. \<forall>xs\<in>set xss. delmark ov' w (new @ xs)) \<and> (\<forall>w ds. delmark ov w ds \<longrightarrow> delmark ov' w ds) \<and>
    (\<forall>w ds. delmark ov' w ds \<longrightarrow> w < v \<or> (\<exists>qs. delmark ov w qs))"
  using assms
proof (induction xss arbitrary: ov)
  case Nil
  then show ?case by auto
next
  case (Cons xs xss)
  have f: "folded (new @ xs)" and fs: "\<forall>xs\<in>set xss. folded (new @ xs)" using Cons.prems(2) by simp_all
  let ?ov = "tomb (mkpath (new @ xs)) v ov"
  have m: "maps_ok ?ov" by (rule maps_ok_tomb [OF f Cons.prems(1)])
  have sl: "slice_from (length (utf8 (mkpath old))) (mkpath (old @ xs)) = Some (mkpath xs)"
    unfolding mkpath_simps by (rule slice_from_append)
  have st: "put_moved_tombs (mkpath old) (mkpath new) v (map (\<lambda>xs. mkpath (old @ xs)) (xs # xss)) ov =
      put_moved_tombs (mkpath old) (mkpath new) v (map (\<lambda>xs. mkpath (old @ xs)) xss) ?ov"
    using sl by simp
  obtain ov' where ov': "put_moved_tombs (mkpath old) (mkpath new) v (map (\<lambda>xs. mkpath (old @ xs)) xss) ?ov = Some ov'"
    "ent ov' = ent ?ov" "tmb ov' = (\<lambda>ds. if \<exists>xs\<in>set xss. ds = new @ xs then Some v else tmb ?ov ds)"
    "maps_ok ov'" "ov_version ov' = ov_version ?ov" "\<forall>w<v. \<forall>xs\<in>set xss. delmark ov' w (new @ xs)"
    "\<forall>w ds. delmark ?ov w ds \<longrightarrow> delmark ov' w ds"
    "\<forall>w ds. delmark ov' w ds \<longrightarrow> w < v \<or> (\<exists>qs. delmark ?ov w qs)"
    using Cons.IH [OF m fs] by blast
  note dm = delmark_tomb [OF f Cons.prems(1), where v = v]
  have "tmb ov' = (\<lambda>ds. if \<exists>xs\<in>set (xs # xss). ds = new @ xs then Some v else tmb ov ds)"
    unfolding ov'(3) tmb_tomb [OF f] by (auto simp: fun_eq_iff)
  moreover have "\<forall>w<v. \<forall>xs\<in>set (xs # xss). delmark ov' w (new @ xs)" using ov'(6,7) dm(1) by auto
  moreover have "\<forall>w ds. delmark ov w ds \<longrightarrow> delmark ov' w ds" using ov'(7) dm(2) by blast
  moreover have "\<forall>w ds. delmark ov' w ds \<longrightarrow> w < v \<or> (\<exists>qs. delmark ov w qs)" using ov'(8) dm(3) by blast
  ultimately show ?case unfolding st using ov'(1,2,4,5) by (simp add: ov_simps del: mkpath_simps)
qed

lemma range_under_suffixes:
  assumes "ordered m" "keyed m" "folded old"
  obtains xss where "map fst (range_under (child_prefix (mkpath old)) m) = map (\<lambda>xs. mkpath (old @ xs)) xss"
    and "set xss = {xs. xs \<noteq> [] \<and> at m (old @ xs) \<noteq> None}"
proof -
  let ?ks = "map fst (range_under (child_prefix (mkpath old)) m)"
  let ?s = "\<lambda>k. drop (length old) (pcomps k)"
  have k: "\<exists>ds. folded ds \<and> k = mkpath ds \<and> strict_prefix old ds \<and> at m ds \<noteq> None" if kk: "k \<in> set ?ks" for k
  proof -
    have "k \<in> fst ` set m" using kk by (auto simp: range_under_filter [OF assms(1)])
    then obtain ds where ds: "folded ds" "k = mkpath ds" using assms(2) unfolding keyed_def by blast
    with kk range_under_keys [OF assms(1,3) ds(1)] show ?thesis by blast
  qed
  have s: "mkpath (old @ ?s k) = k \<and> ?s k \<noteq> [] \<and> at m (old @ ?s k) \<noteq> None" if kk: "k \<in> set ?ks" for k
  proof -
    obtain ds where ds: "folded ds" "k = mkpath ds" "strict_prefix old ds" "at m ds \<noteq> None" using k [OF kk] by blast
    have "pcomps k = ds" unfolding ds(2) by (rule pcomps_mkpath [OF folded_names [OF ds(1)]])
    then show ?thesis using ds by (auto simp: strict_prefix_def prefix_def)
  qed
  show ?thesis
  proof (rule that [of "map ?s ?ks"])
    show "?ks = map (\<lambda>xs. mkpath (old @ xs)) (map ?s ?ks)"
    proof -
      have "map (\<lambda>k. mkpath (old @ ?s k)) ?ks = ?ks" using s by (intro map_idI) blast
      then show ?thesis by (simp add: comp_def del: mkpath_simps)
    qed
    show "set (map ?s ?ks) = {xs. xs \<noteq> [] \<and> at m (old @ xs) \<noteq> None}"
    proof
      show "set (map ?s ?ks) \<subseteq> {xs. xs \<noteq> [] \<and> at m (old @ xs) \<noteq> None}"
        unfolding list.set_map image_subset_iff mem_Collect_eq using s unfolding list.set_map by blast
      show "{xs. xs \<noteq> [] \<and> at m (old @ xs) \<noteq> None} \<subseteq> set (map ?s ?ks)"
      proof
        fix xs assume "xs \<in> {xs. xs \<noteq> [] \<and> at m (old @ xs) \<noteq> None}"
        then have xs: "xs \<noteq> []" "at m (old @ xs) \<noteq> None" by auto
        then have f: "folded (old @ xs)" by (auto dest: at_Some_folded)
        have "mkpath (old @ xs) \<in> set ?ks"
          using range_under_keys [OF assms(1,3) f] xs by (auto simp: strict_prefix_def)
        moreover have "?s (mkpath (old @ xs)) = xs"
          by (simp only: pcomps_mkpath [OF folded_names [OF f]] append_eq_conv_conj) simp
        ultimately show "xs \<in> set (map ?s ?ks)" by (force simp del: mkpath_simps)
      qed
    qed
  qed
qed

lemma oins_oins: "oins k y (oins k x m) = oins k y m"
  by (induction k x m rule: oins.induct) auto

section \<open>The whole move\<close>

definition renamed :: "rstr \<Rightarrow> rstr \<Rightarrow> u64 \<Rightarrow> u64 \<Rightarrow> rstr list \<Rightarrow> overlay \<Rightarrow> rstr list \<Rightarrow> reg_entry option" where
  "renamed old_stored new_path v now old ov =
     (\<lambda>xs. map_option (\<lambda>e. let e = moved_entry old_stored new_path v e in
        if xs = [] then e\<lparr>re_node := (re_node e)\<lparr>rn_last_write := now\<rparr>\<rparr> else e) (ent ov (old @ xs)))"

definition moved_tomb :: "u64 \<Rightarrow> rstr list \<Rightarrow> overlay \<Rightarrow> rstr list \<Rightarrow> u64 option" where
  "moved_tomb v old ov = (\<lambda>xs. map_option (\<lambda>_. v) (tmb ov (old @ xs)))"

text \<open>The first half of the move: the subtree leaves the old name and arrives under the new one.\<close>

definition move_tree :: "rstr \<Rightarrow> rstr \<Rightarrow> rstr \<Rightarrow> rstr \<Rightarrow> u64 \<Rightarrow> u64 \<Rightarrow> overlay \<Rightarrow> overlay option" where
  "move_tree old_f old_stored new_path new_f v now ov = do {
     (moved, ov1) \<leftarrow> take_entries (subtree_keys ov old_f) ov;
     let ov2 = remove_subtree old_f ov1;
     ov3 \<leftarrow> put_moved old_stored old_f new_path new_f v moved (ov2\<lparr>ov_tombs := odel new_f (ov_tombs ov2)\<rparr>);
     ov4 \<leftarrow> put_moved_tombs old_f new_f v (map fst (range_under (child_prefix old_f) (ov_tombs ov))) ov3;
     upd_entry new_f (\<lambda>e. e\<lparr>re_node := (re_node e)\<lparr>rn_last_write := now\<rparr>\<rparr>) ov4 }"

lemma rename_move_eq:
  "rename_move path par new_leaf old_stored new_path new_f now ov0 =
     (let old_f = cfold path; case_only = (new_f = old_f); (ov, v) = bump ov0 in do {
        ov \<leftarrow> move_tree old_f old_stored new_path new_f v now ov;
        ov \<leftarrow> upd_entry (cfold par) (\<lambda>pe. if case_only then pe else pe\<lparr>re_node := (re_node pe)\<lparr>
          rn_children := oins (cfold (leaf path)) (leaf path, CTombstone) (rn_children (re_node pe))\<rparr>\<rparr>) ov;
        let ov = (if case_only then ov else tomb old_f v ov);
        ov \<leftarrow> upd_entry (cfold par) (\<lambda>pe. pe\<lparr>re_node := (re_node pe)\<lparr>
          rn_children := oins (cfold new_leaf) (new_leaf, CPresent) (rn_children (re_node pe)),
          rn_last_write := now\<rparr>, re_changed := v\<rparr>) ov;
        Some (Inr (touch_ancestors par v ov, v)) })"
  unfolding rename_move_def move_tree_def Let_def bump_def prod.case
  by (simp add: Option.bind_assoc split_def del: mkpath_simps)

lemma subtree_keys_suffixes:
  assumes m: "maps_ok ov" and f: "folded old" and e: "ent ov old \<noteq> None"
  obtains xss where "subtree_keys ov (mkpath old) = map (\<lambda>xs. mkpath (old @ xs)) xss"
    and "set xss = {xs. ent ov (old @ xs) \<noteq> None}" and "distinct (subtree_keys ov (mkpath old))"
proof -
  have o: "ordered (ov_entries ov)" "keyed (ov_entries ov)" using m by (simp_all add: maps_ok_def)
  obtain xss where x: "map fst (range_under (child_prefix (mkpath old)) (ov_entries ov)) = map (\<lambda>xs. mkpath (old @ xs)) xss"
    "set xss = {xs. xs \<noteq> [] \<and> at (ov_entries ov) (old @ xs) \<noteq> None}"
    by (rule range_under_suffixes [OF o f])
  have k: "subtree_keys ov (mkpath old) = map (\<lambda>xs. mkpath (old @ xs)) ([] # xss)"
    unfolding subtree_keys_def entries_ent [OF f] using e x(1) by simp
  have "distinct (map fst (range_under (child_prefix (mkpath old)) (ov_entries ov)))"
    unfolding range_under_filter [OF o(1)] by (rule ordered_distinct [OF ordered_filter [OF o(1)]])
  moreover have "mkpath old \<notin> set (map fst (range_under (child_prefix (mkpath old)) (ov_entries ov)))"
    using range_under_keys [OF o(1) f f] by auto
  ultimately have "distinct (subtree_keys ov (mkpath old))"
    unfolding subtree_keys_def by simp
  moreover have "set ([] # xss) = {xs. ent ov (old @ xs) \<noteq> None}" using e x(2) by (auto simp: ent_def)
  ultimately show ?thesis using k that by blast
qed

lemma take_subtree:
  assumes m: "maps_ok ov" and f: "folded old" and e: "ent ov old \<noteq> None"
  obtains xss ov1 where "take_entries (subtree_keys ov (mkpath old)) ov = Some (map (\<lambda>xs. the (ent ov (old @ xs))) xss, ov1)"
    and "set xss = {xs. ent ov (old @ xs) \<noteq> None}" and "ent ov1 = cut old (ent ov)" and "tmb ov1 = tmb ov"
    and "maps_ok ov1" and "delmark ov1 = delmark ov" and "ov_version ov1 = ov_version ov"
proof -
  obtain xss where k: "subtree_keys ov (mkpath old) = map (\<lambda>xs. mkpath (old @ xs)) xss"
    and s: "set xss = {xs. ent ov (old @ xs) \<noteq> None}" and d: "distinct (subtree_keys ov (mkpath old))"
    by (rule subtree_keys_suffixes [OF assms])
  have fx: "folded (old @ xs) \<and> map_of (ov_entries ov) (mkpath (old @ xs)) = ent ov (old @ xs)" if "xs \<in> set xss" for xs
  proof -
    have "folded (old @ xs)" using that s by (auto dest: ent_folded)
    then show ?thesis using entries_ent by blast
  qed
  have p: "\<forall>k\<in>set (subtree_keys ov (mkpath old)). map_of (ov_entries ov) k \<noteq> None"
    unfolding k using fx s by (auto simp del: mkpath_simps)
  let ?ov1 = "ov\<lparr>ov_entries := remove_keys (subtree_keys ov (mkpath old)) (ov_entries ov)\<rparr>"
  have "map (\<lambda>k. the (map_of (ov_entries ov) k)) (subtree_keys ov (mkpath old)) = map (\<lambda>xs. the (ent ov (old @ xs))) xss"
    unfolding k using fx by (simp add: comp_def del: mkpath_simps)
  then have "take_entries (subtree_keys ov (mkpath old)) ov = Some (map (\<lambda>xs. the (ent ov (old @ xs))) xss, ?ov1)"
    using take_entries_spec [OF d p] by simp
  moreover have "ent ?ov1 = cut old (ent ov)"
  proof
    fix ds
    have "at (remove_keys (subtree_keys ov (mkpath old)) (ov_entries ov)) ds =
        (if prefix old ds then None else at (ov_entries ov) ds)"
      using subtree_keys_iff [OF m f] by (intro at_remove_keys) (auto simp: ent_def dest: at_Some_folded)
    then show "ent ?ov1 ds = cut old (ent ov) ds" by (simp add: ent_def cut_def)
  qed
  moreover have "maps_ok ?ov1" using m by (simp add: maps_ok_def keyed_remove_keys)
  moreover have "delmark ?ov1 = delmark ov" by (rule delmark_cong) simp_all
  ultimately show ?thesis using s that by (simp add: tmb_def)
qed

lemma moved_names:
  assumes i: "ov_inv ov" and root: "ent ov old = Some root" and e: "ent ov (old @ xs) = Some e"
  shows "\<exists>ys. re_path e = re_path root @ mkpath ys \<and> map cfold ys = xs \<and> list_all name_ok ys"
proof -
  have t: "tree_ok (ent ov) (tmb ov)" using i by (simp add: ov_inv_def)
  have f: "folded (old @ xs)" "old \<noteq> []" using ent_folded [OF e] ent_folded [OF root] by auto
  obtain ys where ys: "re_path e = re_path root @ mkpath ys" "map cfold ys = xs"
    using path_extends [OF t root e f(2)] by blast
  have "list_all name_ok (map cfold ys)" using f(1) unfolding ys(2) folded_def reg_comps_def by simp
  then have "list_all name_ok ys" by (simp add: list_all_iff)
  with ys show ?thesis by blast
qed

lemma free_below:
  assumes i: "ov_inv ov" and free: "new = old \<or> ent ov new = None" and ne: "new \<noteq> []"
  shows "cut old (ent ov) (new @ xs) = None" and "xs \<noteq> [] \<Longrightarrow> cut old (tmb ov) (new @ xs) = None"
proof -
  have c: "closed_tree (ent ov) (tmb ov)" using i by (simp add: ov_inv_def tree_ok_def)
  show "cut old (ent ov) (new @ xs) = None"
    using free closed_below [OF c _ ne, of xs] by (cases "xs = []") (auto simp: cut_def)
  show "cut old (tmb ov) (new @ xs) = None" if "xs \<noteq> []"
    using free closed_below [OF c _ ne that] by (auto simp: cut_def)
qed

lemma move_tree_spec:
  assumes i: "ov_inv ov" and root: "ent ov old = Some root" and f: "folded (p @ [d])" and p: "p \<noteq> []"
    and free: "p @ [d] = old \<or> ent ov (p @ [d]) = None"
  shows "\<exists>ov'. move_tree (mkpath old) (re_path root) new_path (mkpath (p @ [d])) v now ov = Some ov' \<and>
    ent ov' = graft (p @ [d]) (renamed (re_path root) new_path v now old ov) (cut old (ent ov)) \<and>
    tmb ov' = graft (p @ [d]) (moved_tomb v old ov) (cut old (tmb ov)) \<and> maps_ok ov' \<and> ov_version ov' = ov_version ov \<and>
    (\<forall>w<v. \<forall>xs. xs \<noteq> [] \<and> tmb ov (old @ xs) \<noteq> None \<longrightarrow> delmark ov' w ((p @ [d]) @ xs)) \<and>
    (\<forall>w ds. delmark ov w ds \<longrightarrow> delmark ov' w ds) \<and>
    (\<forall>w ds. delmark ov' w ds \<longrightarrow> w < v \<or> (\<exists>qs. delmark ov w qs))"
proof -
  let ?new = "p @ [d]"
  have m: "maps_ok ov" and t: "tree_ok (ent ov) (tmb ov)" using i by (simp_all add: ov_inv_def)
  have fo: "folded old" by (rule ent_folded [OF root])
  obtain xss ov1 where tk: "take_entries (subtree_keys ov (mkpath old)) ov = Some (map (\<lambda>xs. the (ent ov (old @ xs))) xss, ov1)"
    and xss: "set xss = {xs. ent ov (old @ xs) \<noteq> None}" and E1: "ent ov1 = cut old (ent ov)" and T1: "tmb ov1 = tmb ov"
    and m1: "maps_ok ov1" and d1: "delmark ov1 = delmark ov" and v1: "ov_version ov1 = ov_version ov"
    using take_subtree [OF m fo] root by (metis option.distinct(1))
  let ?ov2 = "remove_subtree (mkpath old) ov1"
  let ?ov2' = "?ov2\<lparr>ov_tombs := odel (mkpath ?new) (ov_tombs ?ov2)\<rparr>"
  have E2: "ent ?ov2' = cut old (ent ov)"
    unfolding del_tomb_steps remove_subtree_spec(1) [OF m1 fo] E1 by (auto simp: cut_def fun_eq_iff)
  have T2: "tmb ?ov2' = (cut old (tmb ov))(?new := None)"
    unfolding del_tomb_steps at_odel_tombs [OF f] remove_subtree_spec(2) [OF m1 fo] T1 cut_def by (rule refl)
  have m2: "maps_ok ?ov2'" by (rule maps_ok_odel [OF remove_subtree_spec(3) [OF m1 fo]])
  have "cfold (re_path root) = mkpath old" using entry_path [OF i root] by (auto simp del: mkpath_simps)
  moreover have "\<exists>e ys. ent ov (old @ xs) = Some e \<and> re_path e = re_path root @ mkpath ys \<and> map cfold ys = xs \<and>
      list_all name_ok ys" if "xs \<in> set xss" for xs
    using that xss moved_names [OF i root] by blast
  ultimately obtain ov3 where pm: "put_moved (re_path root) (mkpath old) new_path (mkpath ?new) v
      (map (\<lambda>xs. the (ent ov (old @ xs))) xss) ?ov2' = Some ov3"
    and E3: "ent ov3 = (\<lambda>ds. if \<exists>xs\<in>set xss. ds = p @ [d] @ xs
      then map_option (moved_entry (re_path root) new_path v) (ent ov (old @ drop (length p + 1) ds)) else ent ?ov2' ds)"
    and T3: "tmb ov3 = tmb ?ov2'" and m3: "maps_ok ov3" and d3: "delmark ov3 = delmark ov" and v3: "ov_version ov3 = ov_version ov"
    using put_moved_spec [of p d xss "ent ov" old "re_path root" new_path v ?ov2'] f p m2 d1 v1
    by (auto simp: ov_simps intro!: delmark_cong [THEN trans])
  have o: "ordered (ov_tombs ov)" "keyed (ov_tombs ov)" using m by (simp_all add: maps_ok_def)
  obtain yss where ky: "map fst (range_under (child_prefix (mkpath old)) (ov_tombs ov)) = map (\<lambda>xs. mkpath (old @ xs)) yss"
    and yss: "set yss = {xs. xs \<noteq> [] \<and> tmb ov (old @ xs) \<noteq> None}"
    using range_under_suffixes [OF o fo] unfolding tmb_def by blast
  have fy: "\<forall>xs\<in>set yss. folded (?new @ xs)"
  proof
    fix xs assume "xs \<in> set yss"
    then have "folded (old @ xs)" using yss by (auto dest: tmb_folded)
    then show "folded (?new @ xs)" using f p unfolding folded_def reg_comps_def by auto
  qed
  obtain ov4 where pt: "put_moved_tombs (mkpath old) (mkpath ?new) v (map (\<lambda>xs. mkpath (old @ xs)) yss) ov3 = Some ov4"
    and E4: "ent ov4 = ent ov3" and T4: "tmb ov4 = (\<lambda>ds. if \<exists>xs\<in>set yss. ds = ?new @ xs then Some v else tmb ov3 ds)"
    and m4: "maps_ok ov4" and v4: "ov_version ov4 = ov_version ov3" and d4: "\<forall>w<v. \<forall>xs\<in>set yss. delmark ov4 w (?new @ xs)"
    and d4': "\<forall>w ds. delmark ov3 w ds \<longrightarrow> delmark ov4 w ds"
    and d4'': "\<forall>w ds. delmark ov4 w ds \<longrightarrow> w < v \<or> (\<exists>qs. delmark ov3 w qs)"
    using put_moved_tombs_spec [OF m3 fy, of old v] by blast
  let ?g = "moved_entry (re_path root) new_path v root"
  let ?ov5 = "set_entry (mkpath ?new) (?g\<lparr>re_node := (re_node ?g)\<lparr>rn_last_write := now\<rparr>\<rparr>) ov4"
  have "[] \<in> set xss" using root xss by simp
  then have e4: "ent ov4 ?new = Some ?g" unfolding E4 E3 using root by auto
  have u: "upd_entry (mkpath ?new) (\<lambda>e. e\<lparr>re_node := (re_node e)\<lparr>rn_last_write := now\<rparr>\<rparr>) ov4 = Some ?ov5"
    unfolding upd_entry_eq [OF f] e4 by simp
  have mt: "move_tree (mkpath old) (re_path root) new_path (mkpath ?new) v now ov = Some ?ov5"
    unfolding move_tree_def tk Let_def ky using pm pt u by (simp del: mkpath_simps)
  note fb = free_below [OF i free]
  have "ent ?ov5 ds = graft ?new (renamed (re_path root) new_path v now old ov) (cut old (ent ov)) ds" for ds
  proof (cases "prefix ?new ds")
    case True
    then obtain xs where ds: "ds = ?new @ xs" by (auto simp: prefix_def)
    show ?thesis
      unfolding ent_set_entry(1) [OF f] E4 E3 E2 ds graft_simps(1) renamed_def
      using root fb(1) [of xs] xss by (cases "ent ov (old @ xs)") (auto simp: Let_def)
  next
    case False
    then have "ds \<noteq> ?new" "\<not> (\<exists>xs\<in>set xss. ds = p @ [d] @ xs)" by (auto simp: prefix_def)
    then show ?thesis unfolding ent_set_entry(1) [OF f] E4 E3 E2 using False by simp
  qed
  moreover have "tmb ?ov5 ds = graft ?new (moved_tomb v old ov) (cut old (tmb ov)) ds" for ds
  proof (cases "prefix ?new ds")
    case True
    then obtain xs where ds: "ds = ?new @ xs" by (auto simp: prefix_def)
    have "tmb ov old = None" by (rule tree_okD(3) [OF t root])
    then show ?thesis
      unfolding ent_set_entry(2) T4 T3 T2 ds graft_simps(1) moved_tomb_def
      using fb(2) [of xs] yss by (cases "xs = []"; cases "tmb ov (old @ xs)") auto
  next
    case False
    then have "ds \<noteq> ?new" "\<not> (\<exists>xs\<in>set yss. ds = ?new @ xs)" by (auto simp: prefix_def)
    then show ?thesis unfolding ent_set_entry(2) T4 T3 T2 using False by simp
  qed
  moreover have d5: "delmark ?ov5 = delmark ov4" by (rule delmark_cong) (simp_all add: ov_simps)
  ultimately show ?thesis
    using mt maps_ok_set_entry [OF f m4] v4 v3 d4 d4' d4'' yss unfolding d3
    by (intro exI [of _ ?ov5] conjI ext) (simp_all add: ov_simps d5 del: mkpath_simps)
qed

lemma renamed_branch:
  assumes i: "ov_inv ov" and root: "ent ov old = Some root"
    and n: "new_path = mkpath ns" "map cfold ns = new"
  shows "branch_ok new (renamed (re_path root) new_path v now old ov) (moved_tomb v old ov)"
proof -
  let ?G = "\<lambda>xs. map_option (moved_entry (re_path root) new_path v) (ent ov (old @ xs))"
  let ?R = "renamed (re_path root) new_path v now old ov" and ?H = "moved_tomb v old ov"
  have t: "tree_ok (ent ov) (tmb ov)" and o: "old \<noteq> []" using i ent_folded [OF root] by (auto simp: ov_inv_def)
  have b: "branch_ok new ?G ?H"
    by (rule moved_branch [OF t root o n]) (simp add: moved_tomb_def)
  have sh: "map_option shape (?R xs) = map_option shape (?G xs)" for xs
    by (auto simp: renamed_def shape_def Let_def option.map_comp comp_def intro: option.map_cong)
  then have nn: "?R xs = None \<longleftrightarrow> ?G xs = None" for xs by (metis option.map_disc_iff)
  have "entry_ok (new @ xs) e \<and> (\<forall>c. kid_ok e c (?R (xs @ [c])) (?H (xs @ [c])))" if e: "?R xs = Some e" for xs e
  proof -
    obtain g where g: "?G xs = Some g" "shape g = shape e" using sh [of xs] e by (cases "?G xs") auto
    have "kid_ok e c (?R (xs @ [c])) (?H (xs @ [c])) \<longleftrightarrow> kid_ok g c (?G (xs @ [c])) (?H (xs @ [c]))" for c
      using g(2) by (intro kid_ok_cong map_shape_path sh) (auto simp: shape_def)
    moreover have "entry_ok (new @ xs) e \<longleftrightarrow> entry_ok (new @ xs) g" using g(2) by (simp add: entry_ok_def shape_def)
    ultimately show ?thesis using branch_okD(4,5) [OF b g(1)] by blast
  qed
  moreover have "?R [] \<noteq> None" "\<And>xs c. ?R (xs @ [c]) \<noteq> None \<Longrightarrow> ?R xs \<noteq> None"
    "\<And>xs c. ?H (xs @ [c]) \<noteq> None \<Longrightarrow> ?R xs \<noteq> None" "\<And>xs. ?R xs \<noteq> None \<Longrightarrow> ?H xs = None"
    using b unfolding nn branch_ok_def by blast+
  ultimately show ?thesis unfolding branch_ok_def by blast
qed

lemma rename_move_spec:
  assumes i: "ov_inv ov" and cs: "reg_comps (cs @ [c])" and ne: "cs \<noteq> []"
    and root: "ent ov old = Some root" and old: "old = map cfold (cs @ [c])" and p: "p = map cfold cs"
    and pe: "ent ov p = Some pe" and nl: "name_ok nl" and new: "new = p @ [cfold nl]"
    and np: "new_path = re_path pe @ backslash # nl" and free: "new = old \<or> ent ov new = None"
    and v: "v = ov_version ov + 1"
  shows "\<exists>ov' pe'. rename_move (mkpath (cs @ [c])) (mkpath cs) nl (re_path root) new_path (mkpath new) now ov = Some (Inr (ov', v)) \<and>
    ov_inv ov' \<and> ov_version ov' = v \<and>
    ent ov' = (\<lambda>ds. if strict_prefix ds p then map_option (re_subtree_update (\<lambda>_. v)) (ent ov ds)
      else if ds = p then Some pe' else graft new (renamed (re_path root) new_path v now old ov) (cut old (ent ov)) ds) \<and>
    tmb ov' = graft new (moved_tomb v old ov) ((cut old (tmb ov))(old \<mapsto> v)) \<and>
    re_changed pe' = v \<and> re_subtree pe' = re_subtree pe \<and>
    (\<forall>w<v. (new \<noteq> old \<longrightarrow> delmark ov' w old) \<and> (\<forall>xs. xs \<noteq> [] \<and> tmb ov (old @ xs) \<noteq> None \<longrightarrow> delmark ov' w (new @ xs))) \<and>
    (\<forall>w ds. delmark ov w ds \<longrightarrow> delmark ov' w ds) \<and>
    (\<forall>w ds. delmark ov' w ds \<longrightarrow> w < v \<or> (\<exists>qs. delmark ov w qs))"
proof -
  let ?ov0 = "ov\<lparr>ov_version := v\<rparr>" and ?d = "cfold nl"
  let ?G = "renamed (re_path root) new_path v now old ov" and ?H = "moved_tomb v old ov"
  have rc: "reg_comps cs" using cs ne by (simp add: reg_comps_def)
  have fp: "folded p" and fo: "folded old" using ent_folded [OF pe] ent_folded [OF root] .
  have pn: "p \<noteq> []" using fp by auto
  have fn: "folded new" using fp nl pn by (simp add: new folded_snoc)
  have op: "old = p @ [cfold c]" by (simp add: old p)
  have G0: "renamed (re_path root) new_path v now old ?ov0 = ?G" "moved_tomb v old ?ov0 = ?H"
    "delmark ?ov0 = delmark ov" by (simp_all add: renamed_def moved_tomb_def ov_simps delmark_def fun_eq_iff)
  have i0: "ov_inv ?ov0" using i by (simp add: bump_inv)
  have r0: "ent ?ov0 old = Some root" and free0: "new = old \<or> ent ?ov0 new = None" using root free by (simp_all add: ov_simps)
  obtain ov1 where mt: "move_tree (mkpath old) (re_path root) new_path (mkpath new) v now ?ov0 = Some ov1"
    and E1: "ent ov1 = graft new ?G (cut old (ent ov))" and T1: "tmb ov1 = graft new ?H (cut old (tmb ov))"
    and m1: "maps_ok ov1" and v1: "ov_version ov1 = v"
    and d1: "\<forall>w<v. \<forall>xs. xs \<noteq> [] \<and> tmb ov (old @ xs) \<noteq> None \<longrightarrow> delmark ov1 w (new @ xs)"
    and d1': "\<forall>w ds. delmark ov w ds \<longrightarrow> delmark ov1 w ds"
    and d1'': "\<forall>w ds. delmark ov1 w ds \<longrightarrow> w < v \<or> (\<exists>qs. delmark ov w qs)"
    using move_tree_spec [OF i0 r0 fn [unfolded new] pn free0 [unfolded new], of new_path v now]
    unfolding G0 new [symmetric] by (auto simp: ov_simps)
  have p1: "ent ov1 p = Some pe" unfolding E1 new op using pe by simp
  let ?co = "new = old"
  let ?t = "pe\<lparr>re_node := (re_node pe)\<lparr>rn_children := oins (cfold c) (c, CTombstone) (rn_children (re_node pe))\<rparr>\<rparr>"
  define pe1 where "pe1 = (if ?co then pe else ?t)"
  let ?g = "\<lambda>pe. pe\<lparr>re_node := (re_node pe)\<lparr>rn_children := oins ?d (nl, CPresent) (rn_children (re_node pe)),
      rn_last_write := now\<rparr>, re_changed := v\<rparr>"
  let ?ov2 = "set_entry (mkpath p) pe1 ov1"
  let ?ov3 = "if ?co then ?ov2 else tomb (mkpath old) v ?ov2"
  let ?ov4 = "set_entry (mkpath p) (?g pe1) ?ov3"
  let ?ov' = "touch_ancestors (mkpath cs) v ?ov4"
  have same: "?g pe1 = ?g ?t" using op new by (auto simp: oins_oins pe1_def)
  have E4: "ent ?ov4 = graft new ?G ((cut old (ent ov))(p \<mapsto> ?g ?t))"
    unfolding ent_set_entry(1) [OF fp] same
    by (auto simp: fun_eq_iff ov_simps fp E1 new graft_def)
  have on: "\<not> prefix new old" if "\<not> ?co" using that by (simp add: new op)
  have T4: "tmb ?ov4 = graft new ?H ((cut old (tmb ov))(old \<mapsto> v))"
    unfolding ent_set_entry(2) using on by (auto simp: fun_eq_iff ov_simps fo T1 graft_def)
  have tr: "tree_ok (ent ?ov4) (tmb ?ov4)"
  proof -
    have t: "tree_ok (ent ov) (tmb ov)" using i by (simp add: ov_inv_def)
    have w1: "with_child (cfold c) c CTombstone pe ?t" by (simp add: with_child_def)
    have w2: "with_child ?d nl CPresent ?t (?g ?t)" by (simp add: with_child_def)
    obtain ds where ds: "re_path pe = mkpath ds" "map cfold ds = p" using entry_path [OF i pe] by blast
    have nps: "new_path = mkpath (ds @ [nl])" "map cfold (ds @ [nl]) = new" using ds by (simp_all add: np new)
    have b: "branch_ok (p @ [?d]) ?G ?H" using renamed_branch [OF i root nps] by (simp add: new)
    have g0: "?G [] = Some (moved_entry (re_path root) new_path v root\<lparr>re_node :=
        (re_node (moved_entry (re_path root) new_path v root))\<lparr>rn_last_write := now\<rparr>\<rparr>)"
      using root by (simp add: renamed_def Let_def)
    have t1: "tree_ok ((cut old (ent ov))(p \<mapsto> ?t)) ((cut old (tmb ov))(old \<mapsto> v))"
      unfolding op by (rule tree_ok_cut [OF t pe w1])
    have e1: "((cut old (ent ov))(p \<mapsto> ?t)) p = Some ?t" by simp
    have "tree_ok (graft (p @ [?d]) ?G (((cut old (ent ov))(p \<mapsto> ?t))(p \<mapsto> ?g ?t)))
        (graft (p @ [?d]) ?H ((cut old (tmb ov))(old \<mapsto> v)))"
      by (rule tree_ok_graft [OF t1 e1 w2 b g0]) (simp add: moved_entry_def np)
    then show ?thesis unfolding E4 T4 unfolding new by simp
  qed
  have m2: "maps_ok ?ov2" by (rule maps_ok_set_entry [OF fp m1])
  have m4: "maps_ok ?ov4"
    using maps_ok_tomb [OF fo m2] m2 by (intro maps_ok_set_entry [OF fp]) simp
  note ta = touch_ancestors_spec [OF rc, where v = v and ov = ?ov4]
  have "map_option shape (ent ?ov' ds) = map_option shape (ent ?ov4 ds)" for ds
    unfolding ta(1) by (simp add: option.map_comp comp_def)
  then have "tree_ok (ent ?ov') (tmb ?ov')" unfolding ta(2) using tree_ok_shape tr by blast
  then have inv: "ov_inv ?ov'" using ta(3) [OF m4] by (simp add: ov_inv_def)
  have sp: "\<not> prefix new ds" "\<not> prefix old ds" "ds \<noteq> p" if "strict_prefix ds p" for ds
    using that prefix_length_less [OF that] unfolding new op by (auto dest: prefix_length_le)
  have E: "ent ?ov' = (\<lambda>ds. if strict_prefix ds p then map_option (re_subtree_update (\<lambda>_. v)) (ent ov ds)
      else if ds = p then Some (?g ?t) else graft new ?G (cut old (ent ov)) ds)"
    unfolding ta(1) E4 p [symmetric] using sp by (auto simp: fun_eq_iff graft_def cut_def new)
  have lf: "leaf (mkpath (cs @ [c])) = c"
    using leaf_mkpath [of c "mkpath cs"] reg_comps_names [OF cs] by simp
  have key: "(mkpath new = mkpath old) = ?co" by (rule folded_inj [OF fn fo])
  have u1: "upd_entry (mkpath p) (\<lambda>pe. if ?co then pe else pe\<lparr>re_node := (re_node pe)\<lparr>
      rn_children := oins (cfold c) (c, CTombstone) (rn_children (re_node pe))\<rparr>\<rparr>) ov1 = Some ?ov2"
    unfolding upd_entry_eq [OF fp] p1 pe1_def by simp
  have e3: "ent ?ov3 p = Some pe1" by (simp add: ov_simps fp)
  have u2: "upd_entry (mkpath p) ?g ?ov3 = Some ?ov4" unfolding upd_entry_eq [OF fp] e3 by simp
  have rn: "rename_move (mkpath (cs @ [c])) (mkpath cs) nl (re_path root) new_path (mkpath new) now ov = Some (Inr (?ov', v))"
    unfolding rename_move_eq Let_def bump_def prod.case cfold_mkpath lf p [symmetric] old [symmetric] v [symmetric] key mt
    using u1 u2 by (simp del: mkpath_simps)
  have dq: "delmark ?ov2 = delmark ov1" by (rule delmark_cong) (simp_all add: ov_simps)
  have d4: "delmark ?ov' = delmark ?ov3" using ta(4,5) by (intro delmark_cong) (simp_all add: ov_simps)
  note dm = delmark_tomb [OF fo m2, where v = v, unfolded dq]
  have up: "delmark ?ov' w ds" if "delmark ov1 w ds" for w ds using that dm(2) dq unfolding d4 by simp
  have mk: "delmark ?ov' w old" if "\<not> ?co" "w < v" for w using that dm(1) unfolding d4 by simp
  have hi: "w < v \<or> (\<exists>qs. delmark ov1 w qs)" if "delmark ?ov' w ds" for w ds
    using that dm(3) [of w ds] dq unfolding d4 by (auto split: if_splits)
  have ver: "ov_version ?ov' = v" unfolding ta(6) using v1 by (simp add: ov_simps)
  have f1: "\<forall>w<v. (new \<noteq> old \<longrightarrow> delmark ?ov' w old) \<and>
      (\<forall>xs. xs \<noteq> [] \<and> tmb ov (old @ xs) \<noteq> None \<longrightarrow> delmark ?ov' w (new @ xs))"
    using mk up d1 by blast
  have f2: "\<forall>w ds. delmark ov w ds \<longrightarrow> delmark ?ov' w ds" using up d1' by blast
  have f3: "\<forall>w ds. delmark ?ov' w ds \<longrightarrow> w < v \<or> (\<exists>qs. delmark ov w qs)" using hi d1'' by blast
  have f4: "tmb ?ov' = graft new ?H ((cut old (tmb ov))(old \<mapsto> v))" unfolding ta(2) by (rule T4)
  have f5: "re_changed (?g ?t) = v" "re_subtree (?g ?t) = re_subtree pe" by simp_all
  show ?thesis
    by (intro exI [of _ ?ov'] exI [of _ "?g ?t"] conjI) (rule rn inv ver E f1 f2 f3 f4 f5)+
qed

lemma renamed_Some:
  "renamed os np v now old ov xs = Some e' \<longleftrightarrow> (\<exists>e. ent ov (old @ xs) = Some e \<and>
     e' = (let e = moved_entry os np v e in if xs = [] then e\<lparr>re_node := (re_node e)\<lparr>rn_last_write := now\<rparr>\<rparr> else e))"
  by (auto simp: renamed_def)

lemma renamed_versions:
  "renamed os np v now old ov xs = Some e' \<Longrightarrow> re_changed e' = v \<and> re_subtree e' = v"
  by (auto simp: renamed_Some moved_entry_def Let_def)

lemma rename_tracked:
  assumes i: "ov_inv ov" and root: "ent ov old = Some root" and old: "old = p @ [c]" and new: "new = p @ [d]"
    and free: "new = old \<or> ent ov new = None" and pe: "ent ov p = Some pe" and ver: "ov_version ov' = v"
    and E: "ent ov' = (\<lambda>ds. if strict_prefix ds p then map_option (re_subtree_update (\<lambda>_. v)) (ent ov ds)
      else if ds = p then Some pe' else graft new (renamed os np v now old ov) (cut old (ent ov)) ds)"
    and T: "tmb ov' = graft new (moved_tomb v old ov) ((cut old (tmb ov))(old \<mapsto> v))"
    and pe': "re_changed pe' = v" "re_subtree pe' = re_subtree pe"
    and d: "\<forall>w<v. (new \<noteq> old \<longrightarrow> delmark ov' w old) \<and> (\<forall>xs. xs \<noteq> [] \<and> tmb ov (old @ xs) \<noteq> None \<longrightarrow> delmark ov' w (new @ xs))"
    and d1: "\<forall>w ds. delmark ov w ds \<longrightarrow> delmark ov' w ds"
    and d2: "\<forall>w ds. delmark ov' w ds \<longrightarrow> w < v \<or> (\<exists>qs. delmark ov w qs)"
  shows "tracked v ov ov'"
proof (rule trackedI)
  have t: "tree_ok (ent ov) (tmb ov)" using i by (simp add: ov_inv_def)
  have pos: "strict_prefix ds p \<or> ds = p \<or> prefix new ds \<or> prefix old ds \<or> ent ov' ds = ent ov ds" for ds
    by (auto simp: E graft_def cut_def)
  have ev: "(strict_prefix ds p \<and> (\<exists>k. ent ov ds = Some k \<and> e' = k\<lparr>re_subtree := v\<rparr>)) \<or> (ds = p \<and> e' = pe') \<or>
      (re_changed e' = v \<and> re_subtree e' = v) \<or> (\<not> strict_prefix ds p \<and> ds \<noteq> p \<and> \<not> prefix new ds \<and> \<not> prefix old ds \<and> ent ov ds = Some e')"
    if "ent ov' ds = Some e'" for ds e'
    using that unfolding E
    by (cases "strict_prefix ds p"; cases "ds = p"; cases "prefix new ds")
      (auto simp: graft_def cut_Some dest: renamed_versions)
  fix ds e e'
  show "(re_changed e' = v \<or> re_changed e' = re_changed e \<and> re_node e' = re_node e) \<and>
      (re_subtree e' = v \<or> re_subtree e' = re_subtree e)" if "ent ov ds = Some e" "ent ov' ds = Some e'"
    using ev [OF that(2)] that(1) pe pe' by auto
  show "re_changed e' = v \<and> (re_subtree e' = v \<or> re_subtree e' = 0)" if "ent ov ds = None" "ent ov' ds = Some e'"
    using ev [OF that(2)] that(1) pe by auto
  show "\<exists>qs. qs \<noteq> [] \<and> prefix qs ds \<and> (\<forall>w<v. delmark ov' w qs)" if a: "ent ov ds = Some e" "ent ov' ds = None"
  proof -
    have n: "\<not> strict_prefix ds p" "ds \<noteq> p" using a by (auto simp: E)
    have "prefix old ds \<and> new \<noteq> old"
    proof (cases "prefix new ds")
      case True
      then obtain xs where ds: "ds = new @ xs" by (auto simp: prefix_def)
      have "renamed os np v now old ov xs = None" using a(2) n by (simp add: E ds)
      then have "ent ov (old @ xs) = None" by (simp add: renamed_def)
      moreover have "ent ov new \<noteq> None" using ent_prefix [OF i a(1) True] by (auto simp: new)
      ultimately show ?thesis using free a(1) ds by auto
    next
      case False
      then show ?thesis using a n by (auto simp: E graft_def cut_def split: if_splits)
    qed
    then show ?thesis using d old by blast
  qed
  show "delmark ov' w ds" if a: "tmb ov ds = None" "tmb ov' ds \<noteq> None" "w < v" for w
  proof (cases "prefix new ds")
    case True
    then obtain xs where ds: "ds = new @ xs" by (auto simp: prefix_def)
    have "tmb ov (old @ xs) \<noteq> None" using a(2) by (auto simp: T ds moved_tomb_def)
    moreover have "xs \<noteq> []" using calculation tree_okD(3) [OF t root] by auto
    ultimately show ?thesis using d a(3) ds by blast
  next
    case False
    then have "ds = old" using a(1,2) by (auto simp: T graft_def cut_def split: if_splits)
    then show ?thesis using d a(3) False by auto
  qed
  fix ps pe2 assume sp: "strict_prefix ps ds" and nd: "node_at ov' ds \<noteq> node_at ov ds" and e2: "ent ov' ps = Some pe2"
  have "strict_prefix ps p \<or> ps = p \<or> prefix new ps \<or> prefix old ps"
  proof (rule ccontr)
    assume no: "\<not> (strict_prefix ps p \<or> ps = p \<or> prefix new ps \<or> prefix old ps)"
    have pl: "prefix ps ds" using sp by (rule prefix_order.less_imp_le)
    have "\<not> strict_prefix ds p" "ds \<noteq> p" using no sp prefix_order.less_trans by blast+
    moreover have "\<not> prefix (p @ [x]) ds" if "\<not> prefix (p @ [x]) ps" for x
    proof
      assume "prefix (p @ [x]) ds"
      then have "prefix ps (p @ [x])" using prefix_same_cases [OF pl] that by blast
      then show False using no that unfolding prefix_snoc by (auto simp: strict_prefix_def)
    qed
    ultimately have "ent ov' ds = ent ov ds" using pos [of ds] no unfolding old new by blast
    then show False using nd by (simp add: node_at_def)
  qed
  then show "re_changed pe2 = v \<or> re_subtree pe2 = v"
    using ev [OF e2] pe' e2 by auto
qed (use ver d1 d2 in auto)

end
