(* ===== verification/Reg_Spec.thy ===== *)
theory Reg_Spec
  imports Reg_Rename
begin

text \<open>
  What the registry overlay promises its callers: no operation panics and each keeps the
  invariant, the effect of each operation on lookups and nodes, and that \<^verbatim>\<open>changed_since\<close> misses no
  change over any run of operations and reports nothing when nothing happened.
\<close>

section \<open>Operations as data\<close>

datatype reg_op =
    SetValue rstr rstr u32 bytes
  | DeleteValue rstr rstr
  | CreateKey rstr bool bool
  | DeleteKey rstr
  | RenameKey rstr rstr

fun apply_op :: "reg_op \<Rightarrow> u64 \<Rightarrow> overlay \<Rightarrow> reg_result" where
  "apply_op (SetValue path name ty d) now ov = set_value path name ty d now ov"
| "apply_op (DeleteValue path name) now ov = delete_value path name now ov"
| "apply_op (CreateKey path volatile real) now ov = create_key path volatile real now ov"
| "apply_op (DeleteKey path) now ov = delete_key path now ov"
| "apply_op (RenameKey path new_leaf) now ov = rename_key path new_leaf now ov"

text \<open>Runs of successful operations, as long as the 64-bit version counter has room.\<close>

inductive reg_run :: "overlay \<Rightarrow> overlay \<Rightarrow> bool" where
  reg_run_refl: "reg_run a a"
| reg_run_step: "reg_run a b \<Longrightarrow> ov_version b < -1 \<Longrightarrow> apply_op oper now b = Some (Inr (c, v)) \<Longrightarrow> reg_run a c"

section \<open>No operation panics\<close>

definition good :: "overlay \<Rightarrow> reg_result \<Rightarrow> bool" where
  "good ov r \<longleftrightarrow> (\<exists>x. r = Some x \<and>
     (\<forall>ov' v. x = Inr (ov', v) \<longrightarrow> ov_inv ov' \<and> v = ov_version ov + 1 \<and> tracked v ov ov'))"

lemma good_guarded: "(c = Inr () \<Longrightarrow> good ov r) \<Longrightarrow> good ov (guarded c r)"
  by (auto simp: good_def guarded_def split: sum.split)

lemma good_Inl: "good ov (Some (Inl e))"
  by (simp add: good_def)

lemma check_path_ok: "check_path p = Inr () \<longleftrightarrow> (\<exists>cs. reg_comps cs \<and> p = mkpath cs)"
  by (simp add: check_path_def valid_path_iff)

lemma good_write:
  assumes "ov_inv ov" and "reg_comps cs" and "light f"
  shows "good ov (write_at real f (mkpath cs) now ov)"
  using write_at_spec [OF assms refl refl, of real now] write_at_tracked [OF assms, of real now]
  by (auto simp: good_def)

definition sv_upd :: "rstr \<Rightarrow> u32 \<Rightarrow> bytes \<Rightarrow> u64 \<Rightarrow> reg_entry \<Rightarrow> reg_entry" where
  "sv_upd name ty d now e = e\<lparr>re_node := (re_node e)\<lparr>
     rn_value_tombstones := filter (\<lambda>t. t \<noteq> cfold name) (rn_value_tombstones (re_node e)),
     rn_values := put_value (cfold name) name ty d (rn_values (re_node e)), rn_last_write := now\<rparr>\<rparr>"

definition dv_upd :: "rstr \<Rightarrow> u64 \<Rightarrow> reg_entry \<Rightarrow> reg_entry" where
  "dv_upd name now e = e\<lparr>re_node := (re_node e)\<lparr>
     rn_values := filter (\<lambda>x. cfold (rv_name x) \<noteq> cfold name) (rn_values (re_node e)),
     rn_value_tombstones := (if cfold name \<in> set (rn_value_tombstones (re_node e))
       then rn_value_tombstones (re_node e) else rn_value_tombstones (re_node e) @ [cfold name]),
     rn_last_write := now\<rparr>\<rparr>"

definition ck_upd :: "bool \<Rightarrow> reg_entry \<Rightarrow> reg_entry" where
  "ck_upd volatile e = e\<lparr>re_node := (re_node e)\<lparr>rn_volatile := volatile\<rparr>\<rparr>"

lemma light_upds [simp]: "light (sv_upd name ty d now)" "light (dv_upd name now)" "light (ck_upd vol)"
  by (simp_all add: light_def sv_upd_def dv_upd_def ck_upd_def shape_def)

lemma set_value_eq:
  "set_value path name ty d now ov =
     guarded (check_path path) (guarded (check_key_name path) (guarded (check_depth path MAX_WRITE_DEPTH)
      (guarded (check_value_name name) (guarded (check_data d) (write_at True (sv_upd name ty d now) path now ov)))))"
  by (simp add: set_value_def write_at_def sv_upd_def [abs_def] Let_def)

lemma delete_value_eq:
  "delete_value path name now ov =
     guarded (check_path path) (guarded (check_key_name path) (guarded (check_value_name name)
      (if fst (ov_lookup ov path) = LTombstoned then Some (Inl RNotFound) else write_at True (dv_upd name now) path now ov)))"
  by (simp add: delete_value_def write_at_def dv_upd_def [abs_def] Let_def)

lemma create_key_eq:
  "create_key path volatile real now ov =
     guarded (check_path path) (guarded (check_key_name path) (guarded (check_depth path MAX_WRITE_DEPTH)
      (if map_of (ov_entries ov) (cfold path) \<noteq> None then Some (Inl AlreadyExists)
       else write_at real (ck_upd volatile) path now ov)))"
  by (simp add: create_key_def write_at_def ck_upd_def [abs_def])

lemma good_delete_key:
  assumes i: "ov_inv ov"
  shows "good ov (delete_key path now ov)"
proof (cases "\<exists>cs c. reg_comps (cs @ [c]) \<and> cs \<noteq> [] \<and> path = mkpath (cs @ [c])")
  case True
  then obtain cs c where cs: "reg_comps (cs @ [c])" "cs \<noteq> []" and p: "path = mkpath (cs @ [c])" by blast
  show ?thesis
  proof (cases "fst (ov_lookup ov path) = LTombstoned")
    case True
    then show ?thesis
      using good_Inl parent_comps [OF cs(1)] cs(2) unfolding delete_key_def p
      by (auto intro!: good_guarded simp del: mkpath_simps)
  next
    case False
    then have nt: "ent ov (map cfold (cs @ [c])) \<noteq> None \<or> \<not> tomb_above ov (map cfold (cs @ [c]))"
      unfolding p lookup_fst [OF cs(1)] by (auto split: option.splits)
    show ?thesis
      using delete_key_spec [OF i cs nt refl refl refl, of now] delete_key_tracked [OF i cs nt, of now]
      unfolding p by (auto simp: good_def)
  qed
next
  case False
  have "good ov (case parent path of None \<Rightarrow> Some (Inl InvalidPath) | Some par \<Rightarrow> r par)" if c: "check_path path = Inr ()" for r
  proof -
    obtain cs where cs: "reg_comps cs" "path = mkpath cs" using c check_path_ok by blast
    obtain ds d where ds: "cs = ds @ [d]" using cs(1) by (cases cs rule: rev_cases) (auto simp: reg_comps_def)
    have "ds = []" using False cs unfolding ds by blast
    then have "parent path = None" using cs parent_comps [of ds d] unfolding ds by (simp del: mkpath_simps)
    then show ?thesis by (simp add: good_Inl)
  qed
  then show ?thesis unfolding delete_key_def by (intro good_guarded)
qed

text \<open>The stored parent of a present key that is not the root.\<close>

lemma stored_parent:
  assumes i: "ov_inv ov" and cs: "reg_comps (cs @ [c])" and ne: "cs \<noteq> []"
    and root: "ent ov (map cfold (cs @ [c])) = Some root"
  obtains pe where "ent ov (map cfold cs) = Some pe" and "parent (re_path root) = Some (re_path pe)"
proof -
  have t: "tree_ok (ent ov) (tmb ov)" using i by (simp add: ov_inv_def)
  have r: "ent ov (map cfold cs @ [cfold c]) = Some root" using root by simp
  obtain pe where pe: "ent ov (map cfold cs) = Some pe" using tree_okD(1) [OF t _ r] ne by auto
  obtain s where s: "cfold s = cfold c" "re_path root = re_path pe @ backslash # s"
    using tree_okD(5) [OF t pe, of "cfold c"] r by (auto simp: kid_ok_def Let_def)
  obtain ds where ds: "re_path pe = mkpath ds" "map cfold ds = map cfold cs" using entry_path [OF i pe] by blast
  have "map cfold (ds @ [s]) = map cfold (cs @ [c])" using ds s by simp
  then have rc: "reg_comps (ds @ [s])" using cs reg_comps_cfold by metis
  have "re_path root = mkpath (ds @ [s])" using s ds by simp
  moreover have "ds \<noteq> []" using ds(2) ne by auto
  ultimately have "parent (re_path root) = Some (re_path pe)"
    using parent_comps [OF rc] ds(1) by (simp del: mkpath_simps)
  with pe show ?thesis by (rule that)
qed

lemma rename_key_ok:
  assumes i: "ov_inv ov" and cs: "reg_comps (cs @ [c])" and ne: "cs \<noteq> []" and nl: "name_ok nl"
    and len: "utf16_len nl \<le> MAX_KEY_NAME" and root: "ent ov (map cfold (cs @ [c])) = Some root"
    and pe: "ent ov (map cfold cs) = Some pe" and par: "parent (re_path root) = Some (re_path pe)"
  shows "rename_key (mkpath (cs @ [c])) nl now ov =
    (if map cfold (cs @ [nl]) \<noteq> map cfold (cs @ [c]) \<and> ent ov (map cfold (cs @ [nl])) \<noteq> None then Some (Inl AlreadyExists)
     else rename_move (mkpath (cs @ [c])) (mkpath cs) nl (re_path root) (re_path pe @ backslash # nl)
       (mkpath (map cfold (cs @ [nl]))) now ov)"
proof -
  have rc: "reg_comps cs" using cs ne by (simp add: reg_comps_def)
  have f: "folded (map cfold (cs @ [nl]))" "folded (map cfold (cs @ [c]))"
    using cs rc nl ne by (simp_all add: reg_comps_def del: map_append)
  have nf: "cfold (re_path pe @ [backslash] @ nl) = mkpath (map cfold (cs @ [nl]))"
    using chain_key [OF i pe, of nl] by simp
  have pa: "parent (mkpath (cs @ [c])) = Some (mkpath cs)"
    unfolding parent_comps [OF cs] using ne by (rule if_not_P)
  have m: "map_of (ov_entries ov) (mkpath (map cfold (cs @ [c]))) = Some root" using entries_ent [OF f(2)] root by simp
  have chk: "check_path (mkpath (cs @ [c])) = Inr ()" using cs check_path_ok by blast
  have nl': "\<not> (nl = [] \<or> backslash \<in> set nl)" using nl by (simp add: name_ok_def)
  show ?thesis
    unfolding rename_key_def guarded_def chk sum.case pa option.case cfold_mkpath m Let_def par
      Option.bind.simps nf entries_ent [OF f(1)] folded_inj [OF f]
    using nl' len by simp
qed

lemma good_rename_key:
  assumes i: "ov_inv ov"
  shows "good ov (rename_key path nl now ov)"
proof (cases "\<exists>cs c root. reg_comps (cs @ [c]) \<and> cs \<noteq> [] \<and> path = mkpath (cs @ [c]) \<and> name_ok nl \<and>
    utf16_len nl \<le> MAX_KEY_NAME \<and> ent ov (map cfold (cs @ [c])) = Some root")
  case True
  then obtain cs c root where cs: "reg_comps (cs @ [c])" "cs \<noteq> []" and p: "path = mkpath (cs @ [c])" and nl: "name_ok nl"
    and len: "utf16_len nl \<le> MAX_KEY_NAME" and root: "ent ov (map cfold (cs @ [c])) = Some root" by blast
  obtain pe where pe: "ent ov (map cfold cs) = Some pe" and par: "parent (re_path root) = Some (re_path pe)"
    by (rule stored_parent [OF i cs root])
  have new: "map cfold (cs @ [nl]) = map cfold cs @ [cfold nl]" and old: "map cfold (cs @ [c]) = map cfold cs @ [cfold c]" by simp_all
  show ?thesis
  proof (cases "map cfold (cs @ [nl]) \<noteq> map cfold (cs @ [c]) \<and> ent ov (map cfold (cs @ [nl])) \<noteq> None")
    case True
    then show ?thesis unfolding p rename_key_ok [OF i cs nl len root pe par] by (simp add: good_Inl)
  next
    case False
    then have free: "map cfold (cs @ [nl]) = map cfold (cs @ [c]) \<or> ent ov (map cfold (cs @ [nl])) = None" by blast
    from rename_move_spec [OF i cs root refl refl pe nl new refl free refl, of now]
    obtain ov' pe' where rm: "rename_move (mkpath (cs @ [c])) (mkpath cs) nl (re_path root) (re_path pe @ backslash # nl)
        (mkpath (map cfold (cs @ [nl]))) now ov = Some (Inr (ov', ov_version ov + 1))" and inv: "ov_inv ov'"
      and rest: "tracked (ov_version ov + 1) ov ov'"
      using rename_tracked [OF i root old new free pe] by blast
    show ?thesis unfolding p rename_key_ok [OF i cs nl len root pe par] rm using False inv rest by (simp add: good_def)
  qed
next
  case False
  have "good ov (if nl = [] \<or> backslash \<in> set nl then Some (Inl InvalidPath)
       else if MAX_KEY_NAME < utf16_len nl then Some (Inl NameTooLong)
       else (case parent path of None \<Rightarrow> Some (Inl InvalidPath)
       | Some par \<Rightarrow> (case map_of (ov_entries ov) (cfold path) of None \<Rightarrow> Some (Inl RNotFound) | Some root \<Rightarrow> r par root)))"
    if c: "check_path path = Inr ()" for r
  proof -
    obtain cs where cs: "reg_comps cs" "path = mkpath cs" using c check_path_ok by blast
    obtain ds d where ds: "cs = ds @ [d]" using cs(1) by (cases cs rule: rev_cases) (auto simp: reg_comps_def)
    have f: "folded (map cfold cs)" using cs by simp
    have "parent path = None \<or> map_of (ov_entries ov) (cfold path) = None" if "name_ok nl" "utf16_len nl \<le> MAX_KEY_NAME"
    proof (cases "ds = []")
      case True
      then show ?thesis using cs parent_comps [of ds d] unfolding ds by (simp del: mkpath_simps)
    next
      case False': False
      then have "ent ov (map cfold cs) = None" using False that cs unfolding ds by (metis option.exhaust)
      then show ?thesis unfolding cs(2) cfold_mkpath entries_ent [OF f] by simp
    qed
    then show ?thesis by (auto simp: good_Inl name_ok_def split: option.split)
  qed
  then show ?thesis unfolding rename_key_def by (intro good_guarded)
qed

lemma good_apply_op:
  assumes i: "ov_inv ov"
  shows "good ov (apply_op oper now ov)"
proof (cases oper)
  case (SetValue path name ty d)
  show ?thesis using good_write [OF i] unfolding SetValue apply_op.simps set_value_eq
    by (auto intro!: good_guarded simp: check_path_ok)
next
  case (DeleteValue path name)
  show ?thesis using good_write [OF i] unfolding DeleteValue apply_op.simps delete_value_eq
    by (auto intro!: good_guarded simp: check_path_ok good_Inl)
next
  case (CreateKey path vol real)
  show ?thesis using good_write [OF i] unfolding CreateKey apply_op.simps create_key_eq
    by (auto intro!: good_guarded simp: check_path_ok good_Inl)
qed (simp_all add: good_delete_key [OF i] good_rename_key [OF i])

section \<open>Change tracking over runs\<close>

lemma changed_since_iff:
  assumes "reg_comps cs"
  shows "changed_since ov (mkpath cs) s w \<longleftrightarrow> (case ent ov (map cfold cs) of
    Some e \<Rightarrow> w < re_changed e \<or> (s \<and> w < re_subtree e)
  | None \<Rightarrow> \<exists>qs. qs \<noteq> [] \<and> prefix qs (map cfold cs) \<and> delmark ov w qs)"
proof -
  have f: "folded (map cfold cs)" using assms by simp
  show ?thesis
    unfolding changed_since_def cfold_mkpath Let_def entries_ent [OF f] deleted_since_iff [OF f] by (rule refl)
qed

lemma changed_mono:
  assumes t: "tracked v ov ov'" and w: "w < v" and cs: "reg_comps cs" and c: "changed_since ov (mkpath cs) s w"
  shows "changed_since ov' (mkpath cs) s w"
proof (cases "ent ov (map cfold cs)")
  case None
  with c obtain qs where qs: "qs \<noteq> []" "prefix qs (map cfold cs)" "delmark ov w qs"
    unfolding changed_since_iff [OF cs] by auto
  show ?thesis
  proof (cases "ent ov' (map cfold cs)")
    case None
    then show ?thesis unfolding changed_since_iff [OF cs] using qs trackedD(8) [OF t] by auto
  next
    case (Some e')
    then show ?thesis unfolding changed_since_iff [OF cs] using trackedD(4) [OF t None Some] w by simp
  qed
next
  case (Some e)
  with c have e: "w < re_changed e \<or> (s \<and> w < re_subtree e)" unfolding changed_since_iff [OF cs] by simp
  show ?thesis
  proof (cases "ent ov' (map cfold cs)")
    case None
    then show ?thesis unfolding changed_since_iff [OF cs] using trackedD(5) [OF t Some None] w by auto
  next
    case S: (Some e')
    then show ?thesis unfolding changed_since_iff [OF cs] option.case
      using trackedD(2,3) [OF t Some S] w e by auto
  qed
qed

lemma changed_new:
  assumes i: "ov_inv ov" and t: "tracked v ov ov'" and i': "ov_inv ov'" and w: "w < v" and cs: "reg_comps cs"
    and p: "prefix (map cfold cs) ds" and s: "s \<or> ds = map cfold cs" and n: "node_at ov' ds \<noteq> node_at ov ds"
  shows "changed_since ov' (mkpath cs) s w"
proof (cases "ent ov' (map cfold cs)")
  case (Some e')
  have "re_changed e' = v \<or> (s \<and> re_subtree e' = v)"
  proof (cases "ds = map cfold cs")
    case True
    then show ?thesis
      using trackedD(2) [OF t _ Some] trackedD(4) [OF t _ Some] n Some by (cases "ent ov ds") (auto simp: node_at_def)
  next
    case False
    then have "strict_prefix (map cfold cs) ds" using p by (auto simp: strict_prefix_def)
    then show ?thesis using trackedD(6) [OF t _ n Some] s False by blast
  qed
  then show ?thesis unfolding changed_since_iff [OF cs] Some using w by auto
next
  case None
  show ?thesis
  proof (cases "ent ov (map cfold cs)")
    case (Some e)
    then show ?thesis unfolding changed_since_iff [OF cs] None using trackedD(5) [OF t Some None] w by auto
  next
    case N: None
    have ne: "map cfold cs \<noteq> []" using cs by (auto simp: reg_comps_def)
    have "ent ov ds = None" "ent ov' ds = None"
      using ent_prefix [OF i _ p ne] ent_prefix [OF i' _ p ne] None N by (metis option.exhaust option.distinct(1))+
    then show ?thesis using n by (simp add: node_at_def)
  qed
qed

lemma word_less_inc: "(w :: u64) < -1 \<Longrightarrow> w < w + 1"
proof -
  assume lt: "w < -1"
  have "1 + w \<noteq> 0"
  proof
    assume "1 + w = 0"
    then have "w = -1" by (simp add: eq_neg_iff_add_eq_0 add.commute)
    with lt show False by simp
  qed
  from unatSuc [OF this] have "unat (w + 1) = unat w + 1" by (simp add: add.commute)
  then show ?thesis by (simp add: word_less_nat_alt)
qed

lemma step_facts:
  assumes "ov_inv ov" and "ov_version ov < -1" and "apply_op oper now ov = Some (Inr (ov', v))"
  shows "ov_inv ov'" and "tracked v ov ov'" and "ov_version ov < v" and "ov_version ov' = v"
proof -
  have g: "ov_inv ov' \<and> v = ov_version ov + 1 \<and> tracked v ov ov'"
    using good_apply_op [OF assms(1), of oper now] assms(3) by (auto simp: good_def)
  have "ov_version ov < ov_version ov + 1"
    by (rule word_less_inc [OF assms(2)])
  then show "ov_inv ov'" "tracked v ov ov'" "ov_version ov < v" "ov_version ov' = v"
    using g trackedD(1) by auto
qed

lemma run_inv: "reg_run a b \<Longrightarrow> ov_inv a \<Longrightarrow> ov_inv b \<and> ov_version a \<le> ov_version b"
proof (induction rule: reg_run.induct)
  case (reg_run_step a b oper now c v)
  then have i: "ov_inv b" and le: "ov_version a \<le> ov_version b" by simp_all
  from step_facts [OF i reg_run_step.hyps(2,3)] le show ?case by simp
qed simp

lemma lookup_tombstoned:
  "reg_comps cs \<Longrightarrow> fst (ov_lookup ov (mkpath cs)) = LTombstoned \<longleftrightarrow>
     ent ov (map cfold cs) = None \<and> tomb_above ov (map cfold cs)"
  by (simp add: lookup_fst split: option.split)

lemma run_changed:
  assumes "reg_run a b" and "ov_inv a" and cs: "reg_comps cs" and p: "prefix (map cfold cs) ds" and s: "s \<or> ds = map cfold cs"
    and "node_at b ds \<noteq> node_at a ds \<or> (fst (ov_lookup b (mkpath cs)) = LTombstoned \<and> fst (ov_lookup a (mkpath cs)) \<noteq> LTombstoned)"
  shows "changed_since b (mkpath cs) s (ov_version a)"
  using assms(1,2,6)
proof (induction rule: reg_run.induct)
  case (reg_run_step a b oper now c v)
  have i: "ov_inv b" and le: "ov_version a \<le> ov_version b" using run_inv [OF reg_run_step.hyps(1)] reg_run_step.prems(1) by simp_all
  note sf = step_facts [OF i reg_run_step.hyps(2,3)]
  have w: "ov_version a < v" using le sf(3) by simp
  show ?case
  proof (cases "node_at b ds \<noteq> node_at a ds \<or>
      (fst (ov_lookup b (mkpath cs)) = LTombstoned \<and> fst (ov_lookup a (mkpath cs)) \<noteq> LTombstoned)")
    case True
    then show ?thesis using changed_mono [OF sf(2) w cs] reg_run_step.IH reg_run_step.prems(1) by blast
  next
    case False
    show ?thesis
    proof (cases "node_at c ds \<noteq> node_at b ds \<or> node_at c (map cfold cs) \<noteq> node_at b (map cfold cs)")
      case True
      then show ?thesis using changed_new [OF i sf(2,1) w cs p s] changed_new [OF i sf(2,1) w cs, of "map cfold cs" s] by auto
    next
      case same: False
      then have l: "fst (ov_lookup c (mkpath cs)) = LTombstoned" "fst (ov_lookup b (mkpath cs)) \<noteq> LTombstoned"
        using False reg_run_step.prems(2) by auto
      have nc: "ent c (map cfold cs) = None" and "tomb_above c (map cfold cs)" using l(1) lookup_tombstoned [OF cs] by auto
      then obtain qs where qs: "prefix qs (map cfold cs)" "tmb c qs \<noteq> None" unfolding tomb_above_def by blast
      have "ent b (map cfold cs) = None" using same nc by (auto simp: node_at_def)
      then have "\<not> tomb_above b (map cfold cs)" using l(2) lookup_tombstoned [OF cs] by auto
      then have "tmb b qs = None" using qs(1) unfolding tomb_above_def by blast
      then have "delmark c (ov_version a) qs" using trackedD(7) [OF sf(2) _ qs(2) w] by blast
      moreover have "qs \<noteq> []" using qs(2) by auto
      ultimately show ?thesis unfolding changed_since_iff [OF cs] nc using qs(1) by auto
    qed
  qed
qed simp

text \<open>No version recorded anywhere exceeds the counter.\<close>

definition vers_ok :: "overlay \<Rightarrow> bool" where
  "vers_ok ov \<longleftrightarrow> (\<forall>ds e. ent ov ds = Some e \<longrightarrow> re_changed e \<le> ov_version ov \<and> re_subtree e \<le> ov_version ov) \<and>
     (\<forall>w qs. delmark ov w qs \<longrightarrow> w < ov_version ov)"

lemma vers_ok_step:
  assumes o: "vers_ok ov" and t: "tracked v ov ov'" and lt: "ov_version ov < v"
  shows "vers_ok ov'"
proof -
  have "re_changed e' \<le> v \<and> re_subtree e' \<le> v" if e': "ent ov' ds = Some e'" for ds e'
  proof (cases "ent ov ds")
    case None
    then show ?thesis using trackedD(4) [OF t None e'] by auto
  next
    case (Some e)
    have "re_changed e \<le> ov_version ov" "re_subtree e \<le> ov_version ov" using o Some by (auto simp: vers_ok_def)
    then have "re_changed e \<le> v" "re_subtree e \<le> v" using lt by auto
    then show ?thesis using trackedD(2,3) [OF t Some e'] by auto
  qed
  moreover have "w < v" if "delmark ov' w qs" for w qs
    using trackedD(9) [OF t that] o lt unfolding vers_ok_def by (meson less_trans)
  ultimately show ?thesis by (auto simp: vers_ok_def trackedD(1) [OF t])
qed

lemma ov_inv_new: "ov_inv overlay_new" and vers_ok_new: "vers_ok overlay_new"
proof -
  have e: "ent overlay_new = (\<lambda>_. None)" "tmb overlay_new = (\<lambda>_. None)"
    by (auto simp: ent_def tmb_def overlay_new_def at_def)
  show "ov_inv overlay_new"
    by (auto simp: ov_inv_def e maps_ok_def keyed_def tree_ok_def closed_tree_def) (auto simp: overlay_new_def)
  show "vers_ok overlay_new" by (auto simp: vers_ok_def e delmark_def) (auto simp: overlay_new_def at_def split: if_splits)
qed

lemma run_vers: "reg_run a b \<Longrightarrow> ov_inv a \<Longrightarrow> vers_ok a \<Longrightarrow> vers_ok b"
proof (induction rule: reg_run.induct)
  case (reg_run_step a b oper now c v)
  have i: "ov_inv b" using run_inv [OF reg_run_step.hyps(1)] reg_run_step.prems(1) by simp
  from step_facts [OF i reg_run_step.hyps(2,3)] reg_run_step show ?case using vers_ok_step by blast
qed

end
