(* ===== verification/Reg_Claims.thy ===== *)
theory Reg_Claims
  imports Reg_Spec
begin

text \<open>
  The properties of the registry overlay, stated over paths and the operations of the code.
\<close>

section \<open>Paths and nodes\<close>

lemma node_at_path: "reg_comps cs \<Longrightarrow> ov_node ov (mkpath cs) = node_at ov (map cfold cs)"
  by (simp add: ov_node_def node_at_def entries_ent del: mkpath_simps)

lemma path_at_or_below:
  assumes "reg_comps cs" "reg_comps ds"
  shows "cfold (mkpath ds) = cfold (mkpath cs) \<longleftrightarrow> map cfold ds = map cfold cs"
    and "prefix (child_prefix (cfold (mkpath cs))) (cfold (mkpath ds)) \<longleftrightarrow> strict_prefix (map cfold cs) (map cfold ds)"
proof -
  have f: "folded (map cfold cs)" "folded (map cfold ds)" using assms by simp_all
  show "cfold (mkpath ds) = cfold (mkpath cs) \<longleftrightarrow> map cfold ds = map cfold cs"
    unfolding cfold_mkpath by (rule folded_inj [OF f(2,1)])
  show "prefix (child_prefix (cfold (mkpath cs))) (cfold (mkpath ds)) \<longleftrightarrow> strict_prefix (map cfold cs) (map cfold ds)"
    unfolding cfold_mkpath by (rule below_folded [OF f])
qed

definition at_or_below :: "rstr \<Rightarrow> rstr \<Rightarrow> bool" where
  "at_or_below p q \<longleftrightarrow> cfold q = cfold p \<or> prefix (child_prefix (cfold p)) (cfold q)"

lemma at_or_below_iff:
  "reg_comps cs \<Longrightarrow> reg_comps ds \<Longrightarrow> at_or_below (mkpath cs) (mkpath ds) \<longleftrightarrow> prefix (map cfold cs) (map cfold ds)"
  by (auto simp: at_or_below_def path_at_or_below strict_prefix_def simp del: mkpath_simps cfold_mkpath)

text \<open>A concrete key and a write of it into an empty overlay, for the witnesses.\<close>

definition demo_names :: "rstr list" where
  "demo_names = [lit ''Registry'', lit ''A'']"

lemma demo_comps: "reg_comps demo_names"
  by (simp add: demo_names_def reg_comps_def) (simp add: name_ok_def lit_def)

lemma demo_checks:
  "check_path (mkpath demo_names) = Inr ()" "check_key_name (mkpath demo_names) = Inr ()"
  "check_depth (mkpath demo_names) MAX_WRITE_DEPTH = Inr ()"
proof -
  have s: "split_on ((=) backslash) (mkpath demo_names) = [] # demo_names"
    by (rule split_mkpath0 [OF reg_comps_names [OF demo_comps]])
  show "check_path (mkpath demo_names) = Inr ()" using demo_comps check_path_ok by blast
  show "check_key_name (mkpath demo_names) = Inr ()"
    unfolding check_key_name_def s by (simp add: demo_names_def lit_def MAX_KEY_NAME_def)
  show "check_depth (mkpath demo_names) MAX_WRITE_DEPTH = Inr ()"
    unfolding check_depth_def s by (simp add: demo_names_def MAX_WRITE_DEPTH_def)
qed

lemma new_maps [simp]: "ent overlay_new ds = None" "tmb overlay_new ds = None" "node_at overlay_new ds = None"
  by (simp_all add: ent_def tmb_def node_at_def overlay_new_def at_def)

lemma demo_run:
  obtains ov where "apply_op (CreateKey (mkpath demo_names) False False) 5 overlay_new = Some (Inr (ov, 1))"
    and "reg_run overlay_new ov" and "node_at ov (map cfold demo_names) \<noteq> None"
    and "ent ov (map cfold demo_names) \<noteq> None" and "ov_inv ov"
proof -
  have f: "folded (map cfold demo_names)" using demo_comps by simp
  have v1: "(1 :: u64) = ov_version overlay_new + 1" by (simp add: overlay_new_def)
  obtain ov where w: "write_at False (ck_upd False) (mkpath demo_names) 5 overlay_new = Some (Inr (ov, 1))"
    and i: "ov_inv ov" and e: "ent ov (map cfold demo_names) \<noteq> None"
    using write_at_spec [OF ov_inv_new demo_comps light_upds(3) refl v1, of False False 5] by auto
  have a: "apply_op (CreateKey (mkpath demo_names) False False) 5 overlay_new = Some (Inr (ov, 1))"
    using w entries_ent [OF f, of overlay_new]
    by (simp add: create_key_eq demo_checks guarded_def del: mkpath_simps)
  have "ov_version overlay_new < -1" by (simp add: overlay_new_def word_gt_0)
  from reg_run_step [OF reg_run_refl this a] have "reg_run overlay_new ov" .
  with a i e show ?thesis using that by (simp add: node_at_def)
qed

lemma demo_delete:
  obtains ov where "apply_op (DeleteKey (mkpath demo_names)) 5 overlay_new = Some (Inr (ov, 1))"
    and "ent ov (map cfold demo_names) = None" and "tmb ov (map cfold demo_names) \<noteq> None"
proof -
  let ?c = "lit ''A''" and ?r = "[lit ''Registry'']"
  have d: "demo_names = ?r @ [?c]" by (simp add: demo_names_def)
  have rc: "reg_comps (?r @ [?c])" using demo_comps by (simp add: d)
  have nt: "ent overlay_new (map cfold (?r @ [?c])) \<noteq> None \<or> \<not> tomb_above overlay_new (map cfold (?r @ [?c]))"
    by (simp add: tomb_above_def)
  have v1: "(1 :: u64) = ov_version overlay_new + 1" by (simp add: overlay_new_def)
  obtain ov where "delete_key (mkpath (?r @ [?c])) 5 overlay_new = Some (Inr (ov, 1))"
    and "ent ov (map cfold (?r @ [?c])) = None" and "tmb ov (map cfold (?r @ [?c])) \<noteq> None"
    using delete_key_spec [OF ov_inv_new rc _ nt refl refl v1, of 5] by (auto simp: strict_prefix_def)
  then show ?thesis using that unfolding d [symmetric] by simp
qed

lemma demo_room: "ov_version overlay_new < -1"
  by (simp add: overlay_new_def word_gt_0)

lemma demo_write:
  assumes "light f"
  obtains ov where "write_at True f (mkpath demo_names) 5 overlay_new = Some (Inr (ov, 1))"
proof -
  have v1: "(1 :: u64) = ov_version overlay_new + 1" by (simp add: overlay_new_def)
  show ?thesis using write_at_spec [OF ov_inv_new demo_comps assms refl v1, of True 5] that by blast
qed

section \<open>Safety and change tracking\<close>

text \<open>C4. No operation on a reachable overlay panics, whatever its arguments: every \<^verbatim>\<open>expect\<close>, every
  index and every string slice succeeds. A successful operation leaves the overlay in the invariant
  (the child lists describe exactly the keys and tombstones one level below) and moves the version
  by one.\<close>

theorem reg_ops_safe:
  assumes "reg_run overlay_new ov"
  shows "\<exists>r. apply_op oper now ov = Some r \<and>
    (\<forall>ov' v. r = Inr (ov', v) \<longrightarrow> ov_inv ov' \<and> v = ov_version ov + 1 \<and> ov_version ov' = v)"
proof -
  have "ov_inv ov" using run_inv [OF assms ov_inv_new] by blast
  from good_apply_op [OF this, of oper now] show ?thesis
    unfolding good_def using trackedD(1) by blast
qed

theorem reg_ops_safe_witness:
  "\<exists>ov. reg_run overlay_new ov \<and> (\<exists>r. apply_op (RenameKey (mkpath demo_names) (lit ''B'')) 6 ov = Some r)"
proof -
  obtain ov where r: "reg_run overlay_new ov" using demo_run by blast
  from reg_ops_safe [OF r, of "RenameKey (mkpath demo_names) (lit ''B'')" 6] r show ?thesis by blast
qed

text \<open>C3. No change is missed: after any run of operations, a key whose node differs from what it was
  (created, deleted, moved, its values, its child list or its flags) is reported as changed since the
  version at the start, and with the subtree flag so is every key above it.\<close>

theorem changed_since_complete:
  assumes "reg_run overlay_new a" and "reg_run a b" and "valid_path p" and "valid_path q"
    and "if s then at_or_below p q else cfold q = cfold p"
    and "ov_node b q \<noteq> ov_node a q"
  shows "changed_since b p s (ov_version a)"
proof -
  have i: "ov_inv a" using run_inv [OF assms(1) ov_inv_new] by blast
  obtain cs ds where cs: "reg_comps cs" "p = mkpath cs" and ds: "reg_comps ds" "q = mkpath ds"
    using assms(3,4) valid_path_iff by blast
  have pre: "prefix (map cfold cs) (map cfold ds)" and "s \<or> map cfold ds = map cfold cs"
    using assms(5) path_at_or_below(1) [OF cs(1) ds(1)] at_or_below_iff [OF cs(1) ds(1)] unfolding cs(2) ds(2)
    by (auto split: if_splits simp del: mkpath_simps cfold_mkpath)
  then show ?thesis
    using run_changed [OF assms(2) i cs(1), of "map cfold ds" s] assms(6)
    unfolding cs(2) ds(2) node_at_path [OF ds(1)] by blast
qed

theorem changed_since_complete_witness:
  "\<exists>ov. apply_op (CreateKey (mkpath demo_names) False False) 5 overlay_new = Some (Inr (ov, 1)) \<and>
    changed_since ov (mkpath [lit ''Registry'']) True 0"
proof -
  obtain ov where ov: "apply_op (CreateKey (mkpath demo_names) False False) 5 overlay_new = Some (Inr (ov, 1))"
    "reg_run overlay_new ov" "node_at ov (map cfold demo_names) \<noteq> None" by (rule demo_run)
  have rc: "reg_comps [lit ''Registry'']" by (simp add: reg_comps_def)
  have v: "valid_path (mkpath [lit ''Registry''])" "valid_path (mkpath demo_names)"
    using valid_mkpath rc demo_comps by blast+
  have b: "at_or_below (mkpath [lit ''Registry'']) (mkpath demo_names)"
    unfolding at_or_below_iff [OF rc demo_comps] by (simp add: demo_names_def)
  have n: "ov_node ov (mkpath demo_names) \<noteq> ov_node overlay_new (mkpath demo_names)"
    using ov(3) unfolding node_at_path [OF demo_comps] by simp
  have "changed_since ov (mkpath [lit ''Registry'']) True (ov_version overlay_new)"
    by (rule changed_since_complete [OF reg_run_refl ov(2) v _ n]) (simp add: b del: mkpath_simps)
  with ov(1) show ?thesis by (auto simp: overlay_new_def)
qed

text \<open>A key that becomes tombstoned is reported as changed, also when the overlay never held a
  node for it.\<close>

theorem deletion_seen:
  assumes "reg_run overlay_new a" and "reg_run a b" and "valid_path p"
    and "fst (ov_lookup b p) = LTombstoned" and "fst (ov_lookup a p) \<noteq> LTombstoned"
  shows "changed_since b p s (ov_version a)"
proof -
  have i: "ov_inv a" using run_inv [OF assms(1) ov_inv_new] by blast
  obtain cs where cs: "reg_comps cs" "p = mkpath cs" using assms(3) valid_path_iff by blast
  show ?thesis
    using run_changed [OF assms(2) i cs(1), of "map cfold cs" s] assms(4,5) unfolding cs(2) by blast
qed

theorem deletion_seen_witness:
  "\<exists>ov. apply_op (DeleteKey (mkpath demo_names)) 5 overlay_new = Some (Inr (ov, 1)) \<and>
    changed_since ov (mkpath demo_names) False 0"
proof -
  obtain ov where a: "apply_op (DeleteKey (mkpath demo_names)) 5 overlay_new = Some (Inr (ov, 1))"
    and e: "ent ov (map cfold demo_names) = None" and t: "tmb ov (map cfold demo_names) \<noteq> None" by (rule demo_delete)
  have run: "reg_run overlay_new ov" by (rule reg_run_step [OF reg_run_refl demo_room a])
  have "fst (ov_lookup ov (mkpath demo_names)) = LTombstoned"
    unfolding lookup_tombstoned [OF demo_comps] tomb_above_def using e t by blast
  moreover have "fst (ov_lookup overlay_new (mkpath demo_names)) \<noteq> LTombstoned"
    unfolding lookup_tombstoned [OF demo_comps] by (simp add: tomb_above_def)
  ultimately have "changed_since ov (mkpath demo_names) False (ov_version overlay_new)"
    by (rule deletion_seen [OF reg_run_refl run valid_mkpath [OF demo_comps]])
  with a show ?thesis by (auto simp: overlay_new_def)
qed

text \<open>Nothing is reported when nothing happened: no key of a reachable overlay has changed since its
  current version.\<close>

theorem changed_since_quiet:
  assumes "reg_run overlay_new ov" and "valid_path p"
  shows "\<not> changed_since ov p s (ov_version ov)"
proof -
  have o: "vers_ok ov" by (rule run_vers [OF assms(1) ov_inv_new vers_ok_new])
  obtain cs where cs: "reg_comps cs" "p = mkpath cs" using assms(2) valid_path_iff by blast
  show ?thesis
    unfolding cs(2) changed_since_iff [OF cs(1)]
    using o by (auto simp: vers_ok_def not_less split: option.splits)
qed

theorem changed_since_quiet_witness:
  "\<exists>ov. apply_op (CreateKey (mkpath demo_names) False False) 5 overlay_new = Some (Inr (ov, 1)) \<and>
    \<not> changed_since ov (mkpath demo_names) True (ov_version ov)"
proof -
  obtain ov where ov: "apply_op (CreateKey (mkpath demo_names) False False) 5 overlay_new = Some (Inr (ov, 1))"
    "reg_run overlay_new ov" by (rule demo_run)
  from changed_since_quiet [OF ov(2) valid_mkpath [OF demo_comps], of True] ov(1) show ?thesis by blast
qed

section \<open>Effects of the operations\<close>

text \<open>The values and value tombstones a path has; a key without a node has none.\<close>

definition values_of :: "overlay \<Rightarrow> rstr \<Rightarrow> reg_value list" where
  "values_of ov p = (case ov_node ov p of Some n \<Rightarrow> rn_values n | None \<Rightarrow> [])"

definition tombstones_of :: "overlay \<Rightarrow> rstr \<Rightarrow> rstr list" where
  "tombstones_of ov p = (case ov_node ov p of Some n \<Rightarrow> rn_value_tombstones n | None \<Rightarrow> [])"

definition find_value :: "rstr \<Rightarrow> reg_value list \<Rightarrow> (u32 \<times> bytes) option" where
  "find_value name vs = map_option (\<lambda>x. (rv_ty x, rv_data x)) (find (\<lambda>x. cfold (rv_name x) = cfold name) vs)"

lemma find_put_value:
  "find_value name (put_value (cfold name') name' ty d vs) =
     (if cfold name = cfold name' then Some (ty, d) else find_value name vs)"
  by (induction vs) (auto simp: find_value_def)

lemma find_filter_value:
  "find_value name (filter (\<lambda>x. cfold (rv_name x) \<noteq> f) vs) = (if cfold name = f then None else find_value name vs)"
  by (induction vs) (auto simp: find_value_def)

lemma put_value_distinct:
  "distinct (map (\<lambda>x. cfold (rv_name x)) vs) \<Longrightarrow> distinct (map (\<lambda>x. cfold (rv_name x)) (put_value (cfold name) name ty d vs))"
proof (induction vs)
  case (Cons x vs)
  have "cfold (rv_name x) \<in> (\<lambda>x. cfold (rv_name x)) ` set (put_value (cfold name) name ty d vs) \<Longrightarrow>
      cfold (rv_name x) = cfold name \<or> cfold (rv_name x) \<in> (\<lambda>x. cfold (rv_name x)) ` set vs"
    by (induction vs) (auto split: if_splits)
  with Cons show ?case by auto
qed simp

text \<open>A write at a key changes the values of no other key and leaves the rest of the tree present.\<close>

lemma write_at_effect:
  assumes i: "ov_inv ov" and cs: "reg_comps cs" and l: "light f"
    and w: "write_at real f (mkpath cs) now ov = Some (Inr (ov', v))"
  obtains e1 where
    "ent ov' (map cfold cs) = Some ((f e1)\<lparr>re_changed := v\<rparr>)"
    and "\<And>e0. ent ov (map cfold cs) = Some e0 \<Longrightarrow> kept v e0 e1"
    and "ent ov (map cfold cs) = None \<Longrightarrow> fresh v e1"
    and "\<And>ds e. ent ov ds = Some e \<Longrightarrow> ds \<noteq> map cfold cs \<Longrightarrow> \<exists>e'. ent ov' ds = Some e' \<and>
      rn_values (re_node e') = rn_values (re_node e) \<and> rn_value_tombstones (re_node e') = rn_value_tombstones (re_node e) \<and>
      rn_created (re_node e') = rn_created (re_node e)"
    and "\<And>ds e'. ent ov ds = None \<Longrightarrow> ent ov' ds = Some e' \<Longrightarrow> ds \<noteq> map cfold cs \<Longrightarrow>
      rn_values (re_node e') = [] \<and> rn_value_tombstones (re_node e') = [] \<and> prefix ds (map cfold cs)"
proof -
  let ?t = "map cfold cs" and ?N = "\<lambda>ds. ds = map cfold cs \<and> \<not> real"
  obtain ov1 e1 where r: "chain_rel ?N v ?t (ov\<lparr>ov_version := v\<rparr>) ov1" and e1: "ent ov1 ?t = Some e1"
    and E: "ent ov' = (\<lambda>ds. if strict_prefix ds ?t then map_option (re_subtree_update (\<lambda>_. v)) (ent ov1 ds)
      else if ds = ?t then Some ((f e1)\<lparr>re_changed := v\<rparr>) else ent ov ds)"
    using write_at_spec [OF i cs l refl refl, of real now] w by auto
  have k: "\<exists>k. ent ov1 ds = Some k \<and> kept v e k" if "ent ov ds = Some e" for ds e
    using chain_relD(4) [OF r, of ds e] that by (simp add: ov_simps)
  have n: "fresh v k" if "ent ov ds = None" "ent ov1 ds = Some k" for ds k
    using chain_relD(5) [OF r, of ds k] that by (simp add: ov_simps)
  show ?thesis
  proof (rule that [of e1])
    show "ent ov' ?t = Some ((f e1)\<lparr>re_changed := v\<rparr>)" by (simp add: E)
    show "kept v e0 e1" if "ent ov ?t = Some e0" for e0 using k [OF that] e1 by auto
    show "fresh v e1" if "ent ov ?t = None" using n [OF that e1] .
    fix ds e e'
    show "\<exists>e'. ent ov' ds = Some e' \<and> rn_values (re_node e') = rn_values (re_node e) \<and>
        rn_value_tombstones (re_node e') = rn_value_tombstones (re_node e) \<and> rn_created (re_node e') = rn_created (re_node e)"
      if "ent ov ds = Some e" "ds \<noteq> ?t" using k [OF that(1)] that by (auto simp: E kept_def)
    show "rn_values (re_node e') = [] \<and> rn_value_tombstones (re_node e') = [] \<and> prefix ds ?t"
      if "ent ov ds = None" "ent ov' ds = Some e'" "ds \<noteq> ?t"
      using n [OF that(1)] that by (auto simp: E fresh_def strict_prefix_def split: if_splits)
  qed
qed

lemma guarded_Inr: "guarded c r = Some (Inr x) \<longleftrightarrow> c = Inr () \<and> r = Some (Inr x)"
  by (auto simp: guarded_def split: sum.split)

lemma write_values:
  assumes i: "ov_inv ov" and cs: "reg_comps cs" and l: "light f"
    and w: "write_at real f (mkpath cs) now ov = Some (Inr (ov', v))"
  obtains e1 where "ov_node ov' (mkpath cs) = Some (re_node (f e1))"
    and "rn_values (re_node e1) = values_of ov (mkpath cs)" and "rn_value_tombstones (re_node e1) = tombstones_of ov (mkpath cs)"
    and "\<And>q. valid_path q \<Longrightarrow> cfold q \<noteq> cfold (mkpath cs) \<Longrightarrow>
      values_of ov' q = values_of ov q \<and> tombstones_of ov' q = tombstones_of ov q"
proof -
  let ?t = "map cfold cs"
  obtain e1 where e1: "ent ov' ?t = Some ((f e1)\<lparr>re_changed := v\<rparr>)"
    and k: "\<And>e0. ent ov ?t = Some e0 \<Longrightarrow> kept v e0 e1" and n: "ent ov ?t = None \<Longrightarrow> fresh v e1"
    and ok: "\<And>ds e. ent ov ds = Some e \<Longrightarrow> ds \<noteq> ?t \<Longrightarrow> \<exists>e'. ent ov' ds = Some e' \<and>
      rn_values (re_node e') = rn_values (re_node e) \<and> rn_value_tombstones (re_node e') = rn_value_tombstones (re_node e) \<and>
      rn_created (re_node e') = rn_created (re_node e)"
    and on: "\<And>ds e'. ent ov ds = None \<Longrightarrow> ent ov' ds = Some e' \<Longrightarrow> ds \<noteq> ?t \<Longrightarrow>
      rn_values (re_node e') = [] \<and> rn_value_tombstones (re_node e') = [] \<and> prefix ds ?t"
    by (rule write_at_effect [OF i cs l w]) (rule that; blast)
  have nd: "ov_node ov (mkpath cs) = map_option re_node (ent ov ?t)" "ov_node ov' (mkpath cs) = map_option re_node (ent ov' ?t)"
    using node_at_path [OF cs] by (simp_all add: node_at_def)
  show ?thesis
  proof (rule that [of e1])
    show "ov_node ov' (mkpath cs) = Some (re_node (f e1))" using nd e1 by simp
    show "rn_values (re_node e1) = values_of ov (mkpath cs)"
      "rn_value_tombstones (re_node e1) = tombstones_of ov (mkpath cs)"
      using k n unfolding values_of_def tombstones_of_def nd
      by (cases "ent ov ?t"; simp add: kept_def fresh_def)+
    fix q assume v: "valid_path q" and q: "cfold q \<noteq> cfold (mkpath cs)"
    obtain ds where ds: "reg_comps ds" "q = mkpath ds" using v valid_path_iff by blast
    have ne: "map cfold ds \<noteq> ?t" using q path_at_or_below(1) [OF cs ds(1)] unfolding ds(2) by blast
    have "ov_node ov q = map_option re_node (ent ov (map cfold ds))" "ov_node ov' q = map_option re_node (ent ov' (map cfold ds))"
      using node_at_path [OF ds(1)] by (simp_all add: node_at_def ds(2))
    then show "values_of ov' q = values_of ov q \<and> tombstones_of ov' q = tombstones_of ov q"
      using ok [of "map cfold ds"] on [of "map cfold ds"] ne unfolding values_of_def tombstones_of_def
      by (cases "ent ov (map cfold ds)"; cases "ent ov' (map cfold ds)") auto
  qed
qed



text \<open>Deleting a value removes exactly that value of exactly that key and leaves its tombstone, so a
  value of the real registry under it stays hidden.\<close>

theorem delete_value_effect:
  assumes "reg_run overlay_new ov" and "delete_value p name now ov = Some (Inr (ov', v))" and "valid_path q"
  shows "find_value n (values_of ov' q) =
      (if cfold q = cfold p \<and> cfold n = cfold name then None else find_value n (values_of ov q)) \<and>
    set (tombstones_of ov' q) =
      (if cfold q = cfold p then insert (cfold name) (set (tombstones_of ov q)) else set (tombstones_of ov q))"
proof -
  have i: "ov_inv ov" using run_inv [OF assms(1) ov_inv_new] by blast
  obtain cs where cs: "reg_comps cs" "p = mkpath cs"
    and w: "write_at True (dv_upd name now) p now ov = Some (Inr (ov', v))"
    using assms(2) unfolding delete_value_eq guarded_Inr check_path_ok by (auto split: if_splits)
  obtain e1 where e1: "ov_node ov' p = Some (re_node (dv_upd name now e1))"
    "rn_values (re_node e1) = values_of ov p" "rn_value_tombstones (re_node e1) = tombstones_of ov p"
    and fr: "\<And>q. valid_path q \<Longrightarrow> cfold q \<noteq> cfold p \<Longrightarrow> values_of ov' q = values_of ov q \<and> tombstones_of ov' q = tombstones_of ov q"
    using write_values [OF i cs(1) light_upds(2) w [unfolded cs(2)]] unfolding cs(2) by blast
  show ?thesis
  proof (cases "cfold q = cfold p")
    case True
    then have "ov_node ov' q = ov_node ov' p" "ov_node ov q = ov_node ov p" by (simp_all add: ov_node_def)
    then have "values_of ov' q = filter (\<lambda>x. cfold (rv_name x) \<noteq> cfold name) (values_of ov q)"
      "set (tombstones_of ov' q) = insert (cfold name) (set (tombstones_of ov q))"
      using e1 by (auto simp: values_of_def tombstones_of_def dv_upd_def)
    then show ?thesis using True by (auto simp: find_filter_value)
  next
    case False
    then show ?thesis using fr [OF assms(3) False] by simp
  qed
qed

theorem delete_value_effect_witness:
  "\<exists>ov. delete_value (mkpath demo_names) (lit ''N'') 5 overlay_new = Some (Inr (ov, 1)) \<and>
    cfold (lit ''N'') \<in> set (tombstones_of ov (mkpath demo_names))"
proof -
  obtain ov where w: "write_at True (dv_upd (lit ''N'') 5) (mkpath demo_names) 5 overlay_new = Some (Inr (ov, 1))"
    by (rule demo_write [OF light_upds(2)])
  have "fst (ov_lookup overlay_new (mkpath demo_names)) \<noteq> LTombstoned"
    unfolding lookup_tombstoned [OF demo_comps] by (simp add: tomb_above_def)
  then have s: "delete_value (mkpath demo_names) (lit ''N'') 5 overlay_new = Some (Inr (ov, 1))"
    unfolding delete_value_eq guarded_Inr demo_checks using w
    by (simp add: check_value_name_def MAX_VALUE_NAME_def lit_def del: mkpath_simps)
  from delete_value_effect [OF reg_run_refl s valid_mkpath [OF demo_comps], of "lit ''N''"]
  have "cfold (lit ''N'') \<in> set (tombstones_of ov (mkpath demo_names))" by (simp only: simp_thms if_True insertI1)
  with s show ?thesis by blast
qed

text \<open>A chain of keys made below a tombstone is created-here all the way down.\<close>

lemma tomb_above_absent:
  assumes i: "ov_inv ov" and t: "tomb_above ov ds"
  shows "ent ov ds = None"
proof (rule ccontr)
  assume "ent ov ds \<noteq> None"
  then obtain e where e: "ent ov ds = Some e" by blast
  obtain qs where qs: "prefix qs ds" "tmb ov qs \<noteq> None" using t unfolding tomb_above_def by blast
  then have "qs \<noteq> []" by auto
  then show False using ent_prefix [OF i e qs(1)] qs(2) by auto
qed

lemma chain_revives:
  assumes i: "ov_inv ov" and i1: "ov_inv ov1" and r: "chain_rel N v t ov ov1" and p: "prefix ds t" and ta: "tomb_above ov ds"
  shows "created_at ov1 ds"
  using p ta
proof (induction ds rule: rev_induct)
  case Nil
  then show ?case by (simp add: tomb_above_def)
next
  case (snoc c ds)
  obtain e where e: "ent ov1 t = Some e" using chain_relD(1) [OF r] by blast
  have pr: "ds @ [c] \<noteq> []" "prefix ds t" using snoc.prems(1) append_prefixD by auto
  obtain d where d: "ent ov1 (ds @ [c]) = Some d" using ent_prefix [OF i1 e snoc.prems(1) pr(1)] by blast
  have n: "ent ov (ds @ [c]) = None" by (rule tomb_above_absent [OF i snoc.prems(2)])
  have "tmb ov (ds @ [c]) \<noteq> None \<or> tomb_above ov ds"
    using snoc.prems(2) unfolding tomb_above_def prefix_snoc by blast
  then have "rn_created (re_node d)"
    using chain_relD(6) [OF r n d] snoc.IH [OF pr(2)] by auto
  then show ?case by (simp add: created_at_def d)
qed

text \<open>C29. Creating a key succeeds only where the overlay has no node, and makes an empty key with the
  volatility asked for. It is created-here, so that no real key shows through, whenever there is no
  real key or the key or one of its ancestors had been deleted.\<close>

theorem create_key_effect:
  assumes "reg_run overlay_new ov" and "create_key p volatile real now ov = Some (Inr (ov', v))"
  shows "ov_node ov p = None \<and> (\<exists>n. ov_node ov' p = Some n \<and> rn_values n = [] \<and> rn_value_tombstones n = [] \<and>
    rn_volatile n = volatile \<and> (\<not> real \<or> fst (ov_lookup ov p) = LTombstoned \<longrightarrow> rn_created n))"
proof -
  have i: "ov_inv ov" using run_inv [OF assms(1) ov_inv_new] by blast
  obtain cs where cs: "reg_comps cs" and p: "p = mkpath cs" and none: "map_of (ov_entries ov) (cfold p) = None"
    and w: "write_at real (ck_upd volatile) (mkpath cs) now ov = Some (Inr (ov', v))"
    using assms(2) unfolding create_key_eq guarded_Inr check_path_ok by (auto split: if_splits)
  let ?t = "map cfold cs"
  have f: "folded ?t" using cs by simp
  have n0: "ent ov ?t = None" using none unfolding p cfold_mkpath entries_ent [OF f] .
  obtain ov1 e1 where r: "chain_rel (\<lambda>ds. ds = ?t \<and> \<not> real) v ?t (ov\<lparr>ov_version := v\<rparr>) ov1" and e1: "ent ov1 ?t = Some e1"
    and E: "ent ov' ?t = Some ((ck_upd volatile e1)\<lparr>re_changed := v\<rparr>)" and i1: "ov_inv ov1"
    using write_at_spec [OF i cs light_upds(3) refl refl, of real volatile now] w by auto
  have fr: "fresh v e1" using chain_relD(5) [OF r _ e1] n0 by (simp add: ov_simps)
  have cr: "rn_created (re_node e1)" if "\<not> real \<or> tomb_above ov ?t"
    using that
  proof
    assume "\<not> real"
    then show ?thesis using chain_relD(6) [OF r _ e1] n0 by (simp add: ov_simps)
  next
    assume "tomb_above ov ?t"
    then have "tomb_above (ov\<lparr>ov_version := v\<rparr>) ?t" by (simp add: tomb_above_def ov_simps)
    from chain_revives [OF _ i1 r _ this] i show ?thesis by (simp add: bump_inv created_at_def e1)
  qed
  have "ov_node ov' p = Some (re_node (ck_upd volatile e1))" unfolding p node_at_path [OF cs] by (simp add: node_at_def E)
  moreover have "ov_node ov p = None" unfolding p node_at_path [OF cs] by (simp add: node_at_def n0)
  moreover have "fst (ov_lookup ov p) = LTombstoned \<longleftrightarrow> tomb_above ov ?t" unfolding p lookup_tombstoned [OF cs] using n0 by simp
  ultimately show ?thesis using fr cr by (auto simp: ck_upd_def fresh_def)
qed

theorem create_key_effect_witness:
  "\<exists>ov n. create_key (mkpath demo_names) False False 5 overlay_new = Some (Inr (ov, 1)) \<and>
    ov_node ov (mkpath demo_names) = Some n \<and> rn_created n"
proof -
  obtain ov where a: "apply_op (CreateKey (mkpath demo_names) False False) 5 overlay_new = Some (Inr (ov, 1))"
    by (rule demo_run)
  then have c: "create_key (mkpath demo_names) False False 5 overlay_new = Some (Inr (ov, 1))" by simp
  from create_key_effect [OF reg_run_refl c] c show ?thesis by blast
qed



text \<open>The node a moved key has: created-here, and stamped when it is the renamed key itself.\<close>

definition moved_node :: "u64 \<Rightarrow> rstr list \<Rightarrow> reg_node \<Rightarrow> reg_node" where
  "moved_node now xs n = (if xs = [] then n\<lparr>rn_created := True, rn_last_write := now\<rparr> else n\<lparr>rn_created := True\<rparr>)"

text \<open>C5. Renaming a key moves its whole subtree: at every depth the node under the new name is the node
  that was under the old one, created-here. The old name and everything below it is tombstoned,
  except when the rename only changes the spelling, where the old name is the new one.\<close>

theorem rename_key_effect:
  assumes "reg_run overlay_new ov" and "rename_key p nl now ov = Some (Inr (ov', v))"
    and "parent p = Some par" and "list_all name_ok xs"
  shows "ov_node ov' (par @ [backslash] @ nl @ mkpath xs) = map_option (moved_node now xs) (ov_node ov (p @ mkpath xs)) \<and>
    (cfold (par @ [backslash] @ nl) \<noteq> cfold p \<longrightarrow> fst (ov_lookup ov' (p @ mkpath xs)) = LTombstoned)"
proof -
  have i: "ov_inv ov" using run_inv [OF assms(1) ov_inv_new] by blast
  obtain ys where ys: "reg_comps ys" "p = mkpath ys"
    using assms(2) unfolding rename_key_def guarded_Inr check_path_ok by blast
  obtain cs c where ds: "ys = cs @ [c]" using ys(1) by (cases ys rule: rev_cases) (auto simp: reg_comps_def)
  have p: "reg_comps (cs @ [c])" "p = mkpath (cs @ [c])" using ys ds by simp_all
  have ne: "cs \<noteq> []" and par: "par = mkpath cs"
    using assms(3) parent_comps [OF p(1)] unfolding p(2) by (auto split: if_splits simp del: mkpath_simps)
  have f: "folded (map cfold (cs @ [c]))" using p(1) by (simp del: map_append)
  have nl: "name_ok nl" and len: "utf16_len nl \<le> MAX_KEY_NAME"
    and some: "map_of (ov_entries ov) (cfold p) \<noteq> None"
    using assms(2,3) unfolding rename_key_def guarded_Inr
    by (auto simp: name_ok_def not_less split: if_splits option.splits)
  obtain root where root: "ent ov (map cfold (cs @ [c])) = Some root"
    using some unfolding p(2) cfold_mkpath entries_ent [OF f] by blast
  obtain pe where pe: "ent ov (map cfold cs) = Some pe" and pr: "parent (re_path root) = Some (re_path pe)"
    by (rule stored_parent [OF i p(1) ne root])
  note rk = rename_key_ok [OF i p(1) ne nl len root pe pr, of now]
  let ?old = "map cfold (cs @ [c])" and ?new = "map cfold (cs @ [nl])" and ?p = "map cfold cs"
  have free: "?new = ?old \<or> ent ov ?new = None" and
    rm: "rename_move (mkpath (cs @ [c])) (mkpath cs) nl (re_path root) (re_path pe @ backslash # nl) (mkpath ?new) now ov = Some (Inr (ov', v))"
    using assms(2) unfolding p(2) rk by (auto split: if_splits simp del: mkpath_simps)
  have new: "?new = ?p @ [cfold nl]" by simp
  obtain pe' where E: "ent ov' = (\<lambda>ds. if strict_prefix ds ?p then map_option (re_subtree_update (\<lambda>_. v)) (ent ov ds)
      else if ds = ?p then Some pe' else graft ?new (renamed (re_path root) (re_path pe @ backslash # nl) v now ?old ov) (cut ?old (ent ov)) ds)"
    and T: "tmb ov' = graft ?new (moved_tomb v ?old ov) ((cut ?old (tmb ov))(?old \<mapsto> v))"
    using rename_move_spec [OF i p(1) ne root refl refl pe nl new refl free refl, of now] rm by auto
  let ?x = "map cfold xs"
  have rx: "reg_comps (cs @ nl # xs)" "reg_comps (cs @ c # xs)"
    using p(1) nl assms(4) ne unfolding reg_comps_def by auto
  have long: "\<not> strict_prefix (?p @ y # ?x) ?p" "?p @ y # ?x \<noteq> ?p" for y
    by (auto dest: prefix_length_less)
  have q1: "par @ [backslash] @ nl @ mkpath xs = mkpath (cs @ nl # xs)" and q2: "p @ mkpath xs = mkpath (cs @ c # xs)"
    by (simp_all add: par p(2))
  have "ov_node ov' (par @ [backslash] @ nl @ mkpath xs) = map_option re_node (ent ov' (?p @ cfold nl # ?x))"
    unfolding q1 node_at_path [OF rx(1)] by (simp add: node_at_def)
  also have "\<dots> = map_option re_node (renamed (re_path root) (re_path pe @ backslash # nl) v now ?old ov ?x)"
    using long [of "cfold nl"] by (simp add: E)
  also have "\<dots> = map_option (moved_node now xs) (map_option re_node (ent ov (?p @ cfold c # ?x)))"
    by (cases "ent ov (?p @ cfold c # ?x)") (auto simp: renamed_def Let_def moved_entry_def moved_node_def)
  also have "map_option re_node (ent ov (?p @ cfold c # ?x)) = ov_node ov (p @ mkpath xs)"
    unfolding q2 node_at_path [OF rx(2)] by (simp add: node_at_def)
  finally have mv: "ov_node ov' (par @ [backslash] @ nl @ mkpath xs) = map_option (moved_node now xs) (ov_node ov (p @ mkpath xs))" .
  have "fst (ov_lookup ov' (p @ mkpath xs)) = LTombstoned" if d: "cfold (par @ [backslash] @ nl) \<noteq> cfold p"
  proof -
    have "cfold nl \<noteq> cfold c" using d by (auto simp: par p(2))
    then have np: "\<not> prefix ?new (?p @ cfold c # ?x)" by simp
    then have "ent ov' (?p @ cfold c # ?x) = None" using long [of "cfold c"] by (simp add: E cut_def)
    moreover have "tmb ov' ?old \<noteq> None" using \<open>cfold nl \<noteq> cfold c\<close> by (simp add: T graft_def)
    then have "tomb_above ov' (?p @ cfold c # ?x)" unfolding tomb_above_def by (intro exI [of _ ?old]) simp
    ultimately show ?thesis unfolding q2 lookup_tombstoned [OF rx(2)] by simp
  qed
  with mv show ?thesis by blast
qed

theorem rename_key_effect_witness:
  "\<exists>ov ov' n. rename_key (mkpath demo_names) (lit ''a'') 6 ov = Some (Inr (ov', ov_version ov + 1)) \<and>
    ov_node ov' (mkpath [lit ''Registry'', lit ''a'']) = Some n \<and> rn_last_write n = 6"
proof -
  let ?r = "[lit ''Registry'']" and ?c = "lit ''A''" and ?nl = "lit ''a''"
  obtain ov where run: "reg_run overlay_new ov" and i: "ov_inv ov" and e: "ent ov (map cfold demo_names) \<noteq> None" by (rule demo_run)
  have d: "demo_names = ?r @ [?c]" by (simp add: demo_names_def)
  have rc: "reg_comps (?r @ [?c])" using demo_comps by (simp add: d)
  obtain root where root: "ent ov (map cfold (?r @ [?c])) = Some root" using e unfolding d by blast
  obtain pe where pe: "ent ov (map cfold ?r) = Some pe" and pr: "parent (re_path root) = Some (re_path pe)"
    using stored_parent [OF i rc _ root] by blast
  have nl: "name_ok ?nl" and len: "utf16_len ?nl \<le> MAX_KEY_NAME" by (simp_all add: name_ok_def lit_def MAX_KEY_NAME_def)
  have same: "map cfold (?r @ [?nl]) = map cfold (?r @ [?c])" by (simp add: lit_def to_lowercase_ascii to_ascii_lowercase_def)
  obtain ov' where rm: "rename_move (mkpath (?r @ [?c])) (mkpath ?r) ?nl (re_path root) (re_path pe @ backslash # ?nl)
      (mkpath (map cfold (?r @ [?nl]))) 6 ov = Some (Inr (ov', ov_version ov + 1))"
    using rename_move_spec [OF i rc _ root refl refl pe nl _ refl _ refl, of "map cfold (?r @ [?nl])" 6] same by auto
  have rk: "rename_key (mkpath demo_names) ?nl 6 ov = Some (Inr (ov', ov_version ov + 1))"
    unfolding d using rename_key_ok [OF i rc _ nl len root pe pr, of 6] rm same by (simp del: mkpath_simps map_append)
  have par: "parent (mkpath demo_names) = Some (mkpath ?r)" unfolding d using parent_comps [OF rc] by (simp del: mkpath_simps)
  from rename_key_effect [OF run rk par, of "[]"] e
  have "ov_node ov' (mkpath [lit ''Registry'', ?nl]) = map_option (moved_node 6 []) (ov_node ov (mkpath demo_names))" by simp
  moreover obtain n where "ov_node ov (mkpath demo_names) = Some n"
    using e unfolding node_at_path [OF demo_comps] node_at_def by auto
  ultimately have "\<exists>n. ov_node ov' (mkpath [lit ''Registry'', ?nl]) = Some n \<and> rn_last_write n = 6"
    by (simp add: moved_node_def)
  with rk show ?thesis by blast
qed

text \<open>C30. A lookup of a valid path finds the node's created flag when the overlay has a node, says
  tombstoned exactly when it has none but the key or an ancestor is tombstoned, and otherwise
  absent; the flag beside it says exactly whether a node or a tombstone lies strictly below.\<close>

theorem lookup_spec:
  assumes "reg_run overlay_new ov" and "valid_path p"
  shows "fst (ov_lookup ov p) = (case ov_node ov p of Some n \<Rightarrow> LPresent (rn_created n)
      | None \<Rightarrow> if \<exists>k\<in>dom (map_of (ov_tombs ov)). cfold p = k \<or> prefix (child_prefix k) (cfold p) then LTombstoned else LAbsent) \<and>
    (snd (ov_lookup ov p) \<longleftrightarrow> fst (ov_lookup ov p) \<noteq> LTombstoned \<and>
      (\<exists>k. (map_of (ov_entries ov) k \<noteq> None \<or> map_of (ov_tombs ov) k \<noteq> None) \<and> prefix (child_prefix (cfold p)) k))"
proof -
  have "ov_inv ov" using run_inv [OF assms(1) ov_inv_new] by blast
  then have m: "ordered (ov_entries ov)" "ordered (ov_tombs ov)" "keyed (ov_tombs ov)" by (simp_all add: ov_inv_def maps_ok_def)
  obtain cs where cs: "reg_comps cs" "p = mkpath cs" using assms(2) valid_path_iff by blast
  have f: "folded (map cfold cs)" using cs by simp
  have key: "(cfold p = mkpath qs \<or> prefix (child_prefix (mkpath qs)) (cfold p)) \<longleftrightarrow> prefix qs (map cfold cs)" if "folded qs" for qs
    using folded_inj [OF f that] below_folded [OF that f] unfolding cs(2) cfold_mkpath strict_prefix_def by auto
  have ta: "tomb_above ov (map cfold cs) \<longleftrightarrow> (\<exists>k\<in>dom (map_of (ov_tombs ov)). cfold p = k \<or> prefix (child_prefix k) (cfold p))"
  proof
    assume "tomb_above ov (map cfold cs)"
    then obtain qs t where qs: "prefix qs (map cfold cs)" "tmb ov qs = Some t" unfolding tomb_above_def by blast
    then show "\<exists>k\<in>dom (map_of (ov_tombs ov)). cfold p = k \<or> prefix (child_prefix k) (cfold p)"
      using key [OF tmb_folded [OF qs(2)]] tombs_tmb [OF tmb_folded [OF qs(2)], of ov] by (intro bexI [of _ "mkpath qs"]) auto
  next
    assume "\<exists>k\<in>dom (map_of (ov_tombs ov)). cfold p = k \<or> prefix (child_prefix k) (cfold p)"
    then obtain k t where k: "map_of (ov_tombs ov) k = Some t" "cfold p = k \<or> prefix (child_prefix k) (cfold p)" by blast
    from keyed_at [OF m(3) k(1)] obtain qs where "folded qs" "k = mkpath qs" "tmb ov qs = Some t" unfolding tmb_def by blast
    then show "tomb_above ov (map cfold cs)" using key [of qs] k(2) unfolding tomb_above_def by blast
  qed
  have nx: "next_under (child_prefix (cfold p)) m \<longleftrightarrow> (\<exists>k. map_of m k \<noteq> None \<and> prefix (child_prefix (cfold p)) k)"
    if "ordered m" for m :: "(rstr \<times> 'v) list"
    unfolding next_under_iff [OF that] by (auto simp: map_of_eq_None_iff)
  have fst: "fst (ov_lookup ov p) = (case ov_node ov p of Some n \<Rightarrow> LPresent (rn_created n)
      | None \<Rightarrow> if tomb_above ov (map cfold cs) then LTombstoned else LAbsent)"
    unfolding cs(2) lookup_fst [OF cs(1)] node_at_path [OF cs(1)] node_at_def by (cases "ent ov (map cfold cs)") simp_all
  have "snd (ov_lookup ov p) \<longleftrightarrow> fst (ov_lookup ov p) \<noteq> LTombstoned \<and> any_below ov (cfold p)"
    using assms(2) unfolding ov_lookup_def Let_def by (simp split: option.split)
  then show ?thesis unfolding fst ta any_below_def Let_def nx [OF m(1)] nx [OF m(2)] by blast
qed

theorem lookup_spec_witness:
  "\<exists>ov. delete_key (mkpath demo_names) 5 overlay_new = Some (Inr (ov, 1)) \<and> \<not> snd (ov_lookup ov (mkpath demo_names))"
proof -
  obtain ov where a: "apply_op (DeleteKey (mkpath demo_names)) 5 overlay_new = Some (Inr (ov, 1))"
    and e: "ent ov (map cfold demo_names) = None" and t: "tmb ov (map cfold demo_names) \<noteq> None" by (rule demo_delete)
  have run: "reg_run overlay_new ov" by (rule reg_run_step [OF reg_run_refl demo_room a])
  have "fst (ov_lookup ov (mkpath demo_names)) = LTombstoned"
    unfolding lookup_tombstoned [OF demo_comps] tomb_above_def using e t by blast
  with lookup_spec [OF run valid_mkpath [OF demo_comps]] a show ?thesis by auto
qed

end
