(* ===== verification/Reg_Merge.thy ===== *)
theory Reg_Merge
  imports Reg_Claims
begin

text \<open>
  The merged view of a key (\<^verbatim>\<open>vfs-registry/src/merge.rs\<close>): what a process sees from the real key and
  the overlay's node. A \<^verbatim>\<open>HashSet\<close> that is only tested for membership is a set.
\<close>

record key_view =
  kv_subkeys :: "rstr list"
  kv_values :: "reg_value list"
  kv_class :: "u16 list option"
  kv_last_write :: u64
  kv_max_subkey_class_len :: u32

definition default_view :: key_view where
  "default_view = \<lparr>kv_subkeys = [], kv_values = [], kv_class = None, kv_last_write = 0, kv_max_subkey_class_len = 0\<rparr>"

definition merge_values :: "key_view option \<Rightarrow> reg_node \<Rightarrow> reg_value list" where
  "merge_values real node = rn_values node @ (case real of
     None \<Rightarrow> []
   | Some r \<Rightarrow>
       (let hidden = set (map (\<lambda>v. cfold (rv_name v)) (rn_values node) @ rn_value_tombstones node) in
        filter (\<lambda>v. cfold (rv_name v) \<notin> hidden) (kv_values r)))"

definition dead_child :: "reg_node \<Rightarrow> rstr \<Rightarrow> bool" where
  "dead_child node f = (case map_of (rn_children node) f of Some (s, CTombstone) \<Rightarrow> True | _ \<Rightarrow> False)"

fun merge_real_subkeys :: "reg_node \<Rightarrow> rstr list \<Rightarrow> rstr set \<times> rstr list \<Rightarrow> rstr set \<times> rstr list" where
  "merge_real_subkeys node [] acc = acc"
| "merge_real_subkeys node (s # ss) (names, out) =
     (let f = cfold s; dead = dead_child node f in
      merge_real_subkeys node ss (insert f names, if dead then out else out @ [s]))"

definition merge_subkeys :: "key_view option \<Rightarrow> reg_node \<Rightarrow> rstr list" where
  "merge_subkeys real node =
     (let (names, out) = (case real of None \<Rightarrow> ({}, []) | Some r \<Rightarrow> merge_real_subkeys node (kv_subkeys r) ({}, [])) in
      out @ map (\<lambda>(f, s, c). s) (filter (\<lambda>(f, s, c). c = CPresent \<and> f \<notin> names) (rn_children node)))"

definition merge :: "key_view option \<Rightarrow> reg_node option \<Rightarrow> bool \<Rightarrow> key_view option" where
  "merge real node tombstoned =
     (if tombstoned \<or> (real = None \<and> node = None) then None
      else
        (let real = (case node of Some n \<Rightarrow> (if rn_created n then None else real) | None \<Rightarrow> real);
             out = default_view\<lparr>
               kv_class := (case real of Some r \<Rightarrow> kv_class r | None \<Rightarrow> None),
               kv_last_write := (case real of Some r \<Rightarrow> kv_last_write r | None \<Rightarrow> 0),
               kv_max_subkey_class_len := (case real of Some r \<Rightarrow> kv_max_subkey_class_len r | None \<Rightarrow> 0)\<rparr> in
         case node of
           None \<Rightarrow> (case real of None \<Rightarrow> None
             | Some r \<Rightarrow> Some (out\<lparr>kv_subkeys := kv_subkeys r, kv_values := kv_values r\<rparr>))
         | Some n \<Rightarrow> Some (out\<lparr>kv_last_write := max (kv_last_write out) (rn_last_write n),
             kv_values := merge_values real n, kv_subkeys := merge_subkeys real n\<rparr>)))"

lemma merge_real_subkeys_eq:
  "merge_real_subkeys node ss (names, out) =
     (names \<union> cfold ` set ss, out @ filter (\<lambda>s. \<not> dead_child node (cfold s)) ss)"
  by (induction ss arbitrary: names out) (auto simp: Let_def)

text \<open>The real key as far as it may show through.\<close>

definition shown :: "key_view option \<Rightarrow> reg_node option \<Rightarrow> key_view option" where
  "shown real node = (case node of Some n \<Rightarrow> if rn_created n then None else real | None \<Rightarrow> real)"

lemma find_value_append: "find_value n (xs @ ys) = (case find_value n xs of Some x \<Rightarrow> Some x | None \<Rightarrow> find_value n ys)"
  by (induction xs) (auto simp: find_value_def)

lemma find_value_None: "find_value n xs = None \<longleftrightarrow> cfold n \<notin> (\<lambda>v. cfold (rv_name v)) ` set xs"
  by (auto simp: find_value_def find_None_iff image_iff)

lemma find_value_filter:
  "find_value n (filter (\<lambda>v. cfold (rv_name v) \<notin> S) xs) = (if cfold n \<in> S then None else find_value n xs)"
  by (induction xs) (auto simp: find_value_def)

lemma merge_values_find:
  "find_value n (merge_values real node) =
     (case find_value n (rn_values node) of
        Some x \<Rightarrow> Some x
      | None \<Rightarrow> if cfold n \<in> set (rn_value_tombstones node) then None
          else (case real of Some r \<Rightarrow> find_value n (kv_values r) | None \<Rightarrow> None))"
proof (cases real)
  case None
  then show ?thesis by (simp add: merge_values_def find_value_append) (simp add: find_value_def split: option.split)
next
  case (Some r)
  let ?S = "set (map (\<lambda>v. cfold (rv_name v)) (rn_values node) @ rn_value_tombstones node)"
  have eq: "find_value n (merge_values real node) = (case find_value n (rn_values node) of Some x \<Rightarrow> Some x
      | None \<Rightarrow> if cfold n \<in> ?S then None else find_value n (kv_values r))"
    unfolding Some merge_values_def Let_def option.case find_value_append find_value_filter by (rule refl)
  show ?thesis
  proof (cases "find_value n (rn_values node)")
    case None
    then have "cfold n \<in> ?S \<longleftrightarrow> cfold n \<in> set (rn_value_tombstones node)" using find_value_None by fastforce
    then show ?thesis using eq None Some by simp
  qed (simp add: eq)
qed

definition spelled :: "reg_node \<Rightarrow> bool" where
  "spelled node \<longleftrightarrow> (\<forall>(f, s, c)\<in>set (rn_children node). cfold s = f) \<and> ordered (rn_children node)"

lemma map_of_children: "spelled node \<Longrightarrow> (f, s, c) \<in> set (rn_children node) \<longleftrightarrow> map_of (rn_children node) f = Some (s, c)"
  by (simp add: spelled_def in_set_map_of)

lemma merge_subkeys_set:
  assumes "spelled node"
  shows "cfold ` set (merge_subkeys real node) =
    {f. (\<exists>s. map_of (rn_children node) f = Some (s, CPresent)) \<or>
        (\<not> dead_child node f \<and> (\<exists>r. real = Some r \<and> f \<in> cfold ` set (kv_subkeys r)))}" (is "_ = ?R")
proof -
  let ?names = "case real of None \<Rightarrow> {} | Some r \<Rightarrow> cfold ` set (kv_subkeys r)"
  let ?keep = "case real of None \<Rightarrow> [] | Some r \<Rightarrow> filter (\<lambda>s. \<not> dead_child node (cfold s)) (kv_subkeys r)"
  have eq: "merge_subkeys real node = ?keep @ map (\<lambda>(f, s, c). s) (filter (\<lambda>(f, s, c). c = CPresent \<and> f \<notin> ?names) (rn_children node))"
    by (simp add: merge_subkeys_def merge_real_subkeys_eq split: option.split)
  have kids: "cfold ` set (map (\<lambda>(f, s, c). s) (filter (\<lambda>(f, s, c). c = CPresent \<and> f \<notin> ?names) (rn_children node))) =
      {f. f \<notin> ?names \<and> (\<exists>s. map_of (rn_children node) f = Some (s, CPresent))}"
  proof (intro set_eqI iffI)
    fix f assume "f \<in> cfold ` set (map (\<lambda>(f, s, c). s) (filter (\<lambda>(f, s, c). c = CPresent \<and> f \<notin> ?names) (rn_children node)))"
    then obtain f' s where m: "(f', s, CPresent) \<in> set (rn_children node)" "f' \<notin> ?names" "f = cfold s" by auto
    moreover have "cfold s = f'" using assms m(1) unfolding spelled_def by blast
    ultimately show "f \<in> {f. f \<notin> ?names \<and> (\<exists>s. map_of (rn_children node) f = Some (s, CPresent))}"
      using map_of_children [OF assms] by auto
  next
    fix f assume "f \<in> {f. f \<notin> ?names \<and> (\<exists>s. map_of (rn_children node) f = Some (s, CPresent))}"
    then obtain s where m: "(f, s, CPresent) \<in> set (rn_children node)" "f \<notin> ?names" using map_of_children [OF assms] by auto
    moreover have "cfold s = f" using assms m(1) unfolding spelled_def by blast
    ultimately show "f \<in> cfold ` set (map (\<lambda>(f, s, c). s) (filter (\<lambda>(f, s, c). c = CPresent \<and> f \<notin> ?names) (rn_children node)))"
      by (force simp: image_iff)
  qed
  have dead: "\<not> dead_child node f" if "map_of (rn_children node) f = Some (s, CPresent)" for f s
    using that by (simp add: dead_child_def)
  show ?thesis unfolding eq set_append image_Un kids using dead by (cases real) auto
qed

lemma merge_subkeys_distinct:
  assumes "spelled node" and "\<And>r. real = Some r \<Longrightarrow> distinct (map cfold (kv_subkeys r))"
  shows "distinct (map cfold (merge_subkeys real node))"
proof -
  let ?names = "case real of None \<Rightarrow> {} | Some r \<Rightarrow> cfold ` set (kv_subkeys r)"
  let ?keep = "case real of None \<Rightarrow> [] | Some r \<Rightarrow> filter (\<lambda>s. \<not> dead_child node (cfold s)) (kv_subkeys r)"
  let ?kids = "filter (\<lambda>(f, s, c). c = CPresent \<and> f \<notin> ?names) (rn_children node)"
  have eq: "merge_subkeys real node = ?keep @ map (\<lambda>(f, s, c). s) ?kids"
    by (simp add: merge_subkeys_def merge_real_subkeys_eq split: option.split)
  have sp: "cfold s = f" if "(f, s, c) \<in> set (rn_children node)" for f s c using assms(1) that unfolding spelled_def by blast
  have k: "map cfold (map (\<lambda>(f, s, c). s) ?kids) = map fst ?kids" using sp by auto
  have "distinct (map fst ?kids)"
    using assms(1) ordered_distinct [of "rn_children node"] by (simp add: spelled_def distinct_map_filter)
  moreover have "distinct (map cfold ?keep)"
    using assms(2) by (auto simp: distinct_map_filter split: option.split)
  moreover have "set (map cfold ?keep) \<subseteq> ?names" by (auto split: option.split)
  then have "set (map cfold ?keep) \<inter> set (map fst ?kids) = {}" by auto
  ultimately show ?thesis unfolding eq map_append k distinct_append by blast
qed

lemma node_spelled:
  assumes "reg_run overlay_new ov" and "valid_path p" and "ov_node ov p = Some n"
  shows "spelled n"
proof -
  have i: "ov_inv ov" using run_inv [OF assms(1) ov_inv_new] by blast
  obtain cs where cs: "reg_comps cs" "p = mkpath cs" using assms(2) valid_path_iff by blast
  obtain e where e: "ent ov (map cfold cs) = Some e" "n = re_node e"
    using assms(3) unfolding cs(2) node_at_path [OF cs(1)] node_at_def by auto
  have t: "tree_ok (ent ov) (tmb ov)" using i by (simp add: ov_inv_def)
  have o: "ordered (rn_children n)" using tree_okD(4) [OF t e(1)] by (simp add: entry_ok_def e(2))
  have "cfold s = f" if "(f, s, c) \<in> set (rn_children n)" for f s c
  proof -
    have "map_of (rn_children n) f = Some (s, c)" using that o by (simp add: in_set_map_of)
    then show ?thesis using tree_okD(5) [OF t e(1), of f] e(2)
      by (auto simp: kid_ok_def Let_def split: option.splits)
  qed
  then show ?thesis using o by (auto simp: spelled_def)
qed

text \<open>C31. What a process sees at a key. A tombstoned key, and one that is neither real nor in the overlay,
  is not there. Otherwise a value is the overlay's if it has one, hidden if the overlay tombstoned it,
  and the real key's if that may show through; the subkeys are those the overlay holds together with
  the real ones it has not tombstoned, and no name is listed twice.\<close>

theorem merge_spec:
  assumes "reg_run overlay_new ov" and "valid_path p"
    and "case real of Some r \<Rightarrow> distinct (map cfold (kv_subkeys r)) | None \<Rightarrow> True"
  shows "case merge real (ov_node ov p) tombstoned of
      None \<Rightarrow> tombstoned \<or> (real = None \<and> ov_node ov p = None)
    | Some view \<Rightarrow> \<not> tombstoned \<and>
        find_value n (kv_values view) =
          (case find_value n (values_of ov p) of
             Some x \<Rightarrow> Some x
           | None \<Rightarrow> if cfold n \<in> set (tombstones_of ov p) then None
               else (case shown real (ov_node ov p) of Some r \<Rightarrow> find_value n (kv_values r) | None \<Rightarrow> None)) \<and>
        (f \<in> cfold ` set (kv_subkeys view) \<longleftrightarrow>
          (\<exists>m s. ov_node ov p = Some m \<and> map_of (rn_children m) f = Some (s, CPresent)) \<or>
          (\<not> (\<exists>m. ov_node ov p = Some m \<and> dead_child m f) \<and>
           (\<exists>r. shown real (ov_node ov p) = Some r \<and> f \<in> cfold ` set (kv_subkeys r)))) \<and>
        distinct (map cfold (kv_subkeys view))"
proof (cases "ov_node ov p")
  case None
  then show ?thesis using assms(3)
    by (cases real) (auto simp: merge_def shown_def values_of_def tombstones_of_def default_view_def find_value_def)
next
  case (Some m)
  have sp: "spelled m" by (rule node_spelled [OF assms(1,2) Some])
  have d: "distinct (map cfold (kv_subkeys r))" if "shown real (Some m) = Some r" for r
    using that assms(3) by (auto simp: shown_def split: if_splits)
  have mg: "merge real (Some m) tombstoned = None \<longleftrightarrow> tombstoned"
    "merge real (Some m) tombstoned = Some view \<Longrightarrow> kv_values view = merge_values (shown real (Some m)) m \<and>
      kv_subkeys view = merge_subkeys (shown real (Some m)) m" for view
    by (auto simp: merge_def Let_def shown_def default_view_def split: if_splits)
  show ?thesis
  proof (cases "merge real (Some m) tombstoned")
    case N: None
    then show ?thesis using mg(1) Some by simp
  next
    case S: (Some view)
    have nt: "\<not> tombstoned" using mg(1) S by simp
    note v = mg(2) [OF S]
    show ?thesis
      unfolding Some S option.case
      using nt v merge_values_find [of n "shown real (Some m)" m] merge_subkeys_set [OF sp, of "shown real (Some m)"]
        merge_subkeys_distinct [OF sp d]
      by (simp add: values_of_def tombstones_of_def Some)
  qed
qed

theorem merge_spec_witness:
  "merge (Some default_view) (ov_node overlay_new (mkpath demo_names)) False = Some default_view"
proof -
  have "case Some default_view of Some r \<Rightarrow> distinct (map cfold (kv_subkeys r)) | None \<Rightarrow> True" by (simp add: default_view_def)
  from merge_spec [OF reg_run_refl valid_mkpath [OF demo_comps] this, where tombstoned = False and n = "[]" and f = "[]"]
  have "merge (Some default_view) (ov_node overlay_new (mkpath demo_names)) False \<noteq> None"
    by (auto split: option.splits)
  moreover have "ov_node overlay_new (mkpath demo_names) = None" unfolding node_at_path [OF demo_comps] by simp
  ultimately show ?thesis by (simp add: merge_def default_view_def)
qed

end
