(* ===== verification/Status.thy ===== *)
theory Status
  imports Prelude
begin

text \<open>
  The status codes and open flags every component shares (\<^verbatim>\<open>vfs-provider/src/status.rs\<close>). A status is an \<^verbatim>\<open>i32\<close>,
  here as its 32 bits.
\<close>

definition ST_OK :: u32 where "ST_OK = 0"
definition ST_NOT_FOUND :: u32 where "ST_NOT_FOUND = - 1"
definition ST_NOT_A_DIRECTORY :: u32 where "ST_NOT_A_DIRECTORY = - 2"
definition ST_BAD_REQUEST :: u32 where "ST_BAD_REQUEST = - 3"
definition ST_IO_ERROR :: u32 where "ST_IO_ERROR = - 4"
definition ST_IS_DIR :: u32 where "ST_IS_DIR = - 5"
definition ST_BAD_FH :: u32 where "ST_BAD_FH = - 6"
definition ST_NO_SPACE :: u32 where "ST_NO_SPACE = - 7"
definition ST_NOT_SUPPORTED :: u32 where "ST_NOT_SUPPORTED = - 8"
definition ST_READ_ONLY :: u32 where "ST_READ_ONLY = - 9"
definition ST_EXISTS :: u32 where "ST_EXISTS = - 10"
definition ST_REPLY_TOO_LARGE :: u32 where "ST_REPLY_TOO_LARGE = - 11"
definition ST_CROSS_ROOT :: u32 where "ST_CROSS_ROOT = - 12"

lemmas st_defs =
  ST_OK_def ST_NOT_FOUND_def ST_NOT_A_DIRECTORY_def ST_BAD_REQUEST_def ST_IO_ERROR_def ST_IS_DIR_def ST_BAD_FH_def
  ST_NO_SPACE_def ST_NOT_SUPPORTED_def ST_READ_ONLY_def ST_EXISTS_def ST_REPLY_TOO_LARGE_def ST_CROSS_ROOT_def

definition OPEN_READ :: u32 where "OPEN_READ = 1"
definition OPEN_WRITE :: u32 where "OPEN_WRITE = 2"
definition OPEN_CREATE :: u32 where "OPEN_CREATE = 4"
definition OPEN_EXCL :: u32 where "OPEN_EXCL = 8"
definition OPEN_TRUNC :: u32 where "OPEN_TRUNC = 16"
definition OPEN_APPEND :: u32 where "OPEN_APPEND = 32"

definition KIND_FILE :: u8 where "KIND_FILE = 1"
definition KIND_DIR :: u8 where "KIND_DIR = 2"
definition KIND_TOMBSTONE :: u8 where "KIND_TOMBSTONE = 3"

end
