(* ===== verification/Shared_Seg.thy ===== *)
theory Shared_Seg
  imports Status
begin

text \<open>
  The shared segment (\<^verbatim>\<open>vfs-ipc/src/seg.rs\<close>) as its bytes, and the bulk arena over it
  (\<^verbatim>\<open>vfs-ipc/src/arena.rs\<close>). \<^verbatim>\<open>usize\<close> is 64 bits wide and the base address is a multiple of 8, as
  \<^verbatim>\<open>from_raw\<close> requires, so alignment is a matter of the offset. The locale \<open>cells\<close> is what the ring
  relies on: a range read after a write is the data written, or what it was if the ranges are
  apart.
\<close>

section \<open>Access by range\<close>

type_synonym seg = bytes

definition in_bounds :: "seg \<Rightarrow> nat \<Rightarrow> nat \<Rightarrow> bool" where
  "in_bounds seg off n \<longleftrightarrow> off + n < 2 ^ 64 \<and> off + n \<le> length seg"

definition overwrite :: "seg \<Rightarrow> nat \<Rightarrow> bytes \<Rightarrow> seg" where
  "overwrite seg off d = take off seg @ d @ drop (off + length d) seg"

definition write_bytes :: "seg \<Rightarrow> nat \<Rightarrow> bytes \<Rightarrow> seg \<times> bool" where
  "write_bytes seg off d = (if in_bounds seg off (length d) then (overwrite seg off d, True) else (seg, False))"

text \<open>\<^verbatim>\<open>copy_to\<close> fills a destination of \<open>n\<close> bytes; \<^verbatim>\<open>read_bytes\<close> is the same into a new vector.\<close>

definition copy_to :: "seg \<Rightarrow> nat \<Rightarrow> nat \<Rightarrow> bytes option" where
  "copy_to seg off n = (if in_bounds seg off n then Some (take n (drop off seg)) else None)"

definition read_bytes :: "seg \<Rightarrow> nat \<Rightarrow> nat \<Rightarrow> bytes option" where
  "read_bytes seg off n = copy_to seg off n"

definition with_mut_bytes :: "seg \<Rightarrow> nat \<Rightarrow> nat \<Rightarrow> (bytes \<Rightarrow> bytes \<times> 'r) \<Rightarrow> seg \<times> 'r option" where
  "with_mut_bytes seg off n f =
     (if in_bounds seg off n then (let (buf, r) = f (take n (drop off seg)) in (overwrite seg off buf, Some r))
      else (seg, None))"

definition seg_read_u32 :: "seg \<Rightarrow> nat \<Rightarrow> u32 option" where
  "seg_read_u32 seg off = (if in_bounds seg off 4 then Some (le_u32 (take 4 (drop off seg))) else None)"

text \<open>A signed 32-bit word is its bits.\<close>

definition seg_read_i32 :: "seg \<Rightarrow> nat \<Rightarrow> u32 option" where
  "seg_read_i32 seg off = seg_read_u32 seg off"

definition seg_read_u64 :: "seg \<Rightarrow> nat \<Rightarrow> u64 option" where
  "seg_read_u64 seg off = (if in_bounds seg off 8 then Some (le_u64 (take 8 (drop off seg))) else None)"

definition seg_write_u32 :: "seg \<Rightarrow> nat \<Rightarrow> u32 \<Rightarrow> seg" where
  "seg_write_u32 seg off v = fst (write_bytes seg off (u32_le v))"

definition seg_write_i32 :: "seg \<Rightarrow> nat \<Rightarrow> u32 \<Rightarrow> seg" where
  "seg_write_i32 seg off v = fst (write_bytes seg off (u32_le v))"

definition seg_write_u64 :: "seg \<Rightarrow> nat \<Rightarrow> u64 \<Rightarrow> seg" where
  "seg_write_u64 seg off v = fst (write_bytes seg off (u64_le v))"

section \<open>Atomic words\<close>

text \<open>Whether \<^verbatim>\<open>atomic_u32(off)\<close> gives a word, and the operations on it.\<close>

definition atomic_u32 :: "seg \<Rightarrow> nat \<Rightarrow> bool" where
  "atomic_u32 seg off \<longleftrightarrow> in_bounds seg off 4 \<and> off mod 4 = 0"

definition atomic_u64 :: "seg \<Rightarrow> nat \<Rightarrow> bool" where
  "atomic_u64 seg off \<longleftrightarrow> in_bounds seg off 8 \<and> off mod 8 = 0"

definition load32 :: "seg \<Rightarrow> nat \<Rightarrow> u32" where
  "load32 seg off = le_u32 (take 4 (drop off seg))"

definition load64 :: "seg \<Rightarrow> nat \<Rightarrow> u64" where
  "load64 seg off = le_u64 (take 8 (drop off seg))"

definition store32 :: "seg \<Rightarrow> nat \<Rightarrow> u32 \<Rightarrow> seg" where
  "store32 seg off v = overwrite seg off (u32_le v)"

definition store64 :: "seg \<Rightarrow> nat \<Rightarrow> u64 \<Rightarrow> seg" where
  "store64 seg off v = overwrite seg off (u64_le v)"

definition compare_exchange :: "seg \<Rightarrow> nat \<Rightarrow> u32 \<Rightarrow> u32 \<Rightarrow> seg \<times> (u32 + u32)" where
  "compare_exchange seg off old new =
     (let cur = load32 seg off in if cur = old then (store32 seg off new, Inr cur) else (seg, Inl cur))"

section \<open>Laws\<close>

locale cells =
  fixes rd :: "'m \<Rightarrow> nat \<Rightarrow> nat \<Rightarrow> bytes" and wr :: "'m \<Rightarrow> nat \<Rightarrow> bytes \<Rightarrow> 'm" and size_of :: "'m \<Rightarrow> nat"
  assumes rd_same: "off + length d \<le> size_of m \<Longrightarrow> rd (wr m off d) off (length d) = d"
    and rd_other: "off + length d \<le> size_of m \<Longrightarrow> off' + n \<le> off \<or> off + length d \<le> off' \<Longrightarrow>
      rd (wr m off d) off' n = rd m off' n"
    and size_wr: "off + length d \<le> size_of m \<Longrightarrow> size_of (wr m off d) = size_of m"
    and rd_sub: "i + n \<le> k \<Longrightarrow> take n (drop i (rd m off k)) = rd m (off + i) n"
begin

text \<open>A write of a shorter range over the front of a longer one.\<close>

lemma rd_front:
  assumes "off + length d \<le> size_of m" and "k \<le> length d"
  shows "rd (wr m off d) off k = take k d"
proof -
  have "rd (wr m off d) off k = take k (drop 0 (rd (wr m off d) off (length d)))"
    using rd_sub [of 0 k "length d" "wr m off d" off] assms(2) by simp
  then show ?thesis using rd_same [OF assms(1)] by simp
qed

lemma rd_two:
  assumes "off + length d \<le> size_of m" and "off' + length d' \<le> size_of m"
    and "off + length d \<le> off' \<or> off' + length d' \<le> off"
  shows "rd (wr (wr m off d) off' d') off (length d) = d" and "rd (wr (wr m off d) off' d') off' (length d') = d'"
  using assms by (simp_all add: rd_other rd_same size_wr disj_commute)

end

definition rd_range :: "seg \<Rightarrow> nat \<Rightarrow> nat \<Rightarrow> bytes" where
  "rd_range seg off n = take n (drop off seg)"

lemma take_drop_overwrite:
  assumes "off + length d \<le> length m" and "off' + n \<le> off \<or> off + length d \<le> off'"
  shows "take n (drop off' (overwrite m off d)) = take n (drop off' m)"
  using assms(2)
proof
  assume "off' + n \<le> off"
  then have "take n (drop off' (take off m @ d @ drop (off + length d) m)) = take n (drop off' (take off m))"
    using assms(1) by (simp add: drop_take)
  also have "\<dots> = take n (drop off' m)" using \<open>off' + n \<le> off\<close> by (simp add: drop_take min_def)
  finally show ?thesis by (simp add: overwrite_def)
next
  assume "off + length d \<le> off'"
  then have "drop off' (take off m @ d @ drop (off + length d) m) = drop (off' - off - length d) (drop (off + length d) m)"
    using assms(1) by (simp add: min_def)
  then show ?thesis using \<open>off + length d \<le> off'\<close> by (simp add: overwrite_def add.commute)
qed

lemma length_overwrite [simp]: "off + length d \<le> length m \<Longrightarrow> length (overwrite m off d) = length m"
  by (simp add: overwrite_def)

interpretation segc: cells rd_range overwrite length
proof
  fix off and d :: bytes and m :: seg
  assume o: "off + length d \<le> length m"
  show "rd_range (overwrite m off d) off (length d) = d" using o by (simp add: rd_range_def overwrite_def)
  show "length (overwrite m off d) = length m" using o by simp
  fix off' n :: nat assume "off' + n \<le> off \<or> off + length d \<le> off'"
  then show "rd_range (overwrite m off d) off' n = rd_range m off' n"
    unfolding rd_range_def by (rule take_drop_overwrite [OF o])
next
  fix i n k off :: nat and m :: seg
  assume "i + n \<le> k"
  then show "take n (drop i (rd_range m off k)) = rd_range m (off + i) n"
    by (simp add: rd_range_def drop_take add.commute min_def)
qed

section \<open>The bulk arena\<close>

definition DEFAULT_PAYLOAD_CAP :: nat where "DEFAULT_PAYLOAD_CAP = 1048576"
definition DEFAULT_ARENA_BYTES :: nat where "DEFAULT_ARENA_BYTES = 32 * 1024 * 1024"
definition DEFAULT_WORKER_COUNT :: nat where "DEFAULT_WORKER_COUNT = 4"

record data_arena =
  mapping_offset :: nat
  bank_size :: nat
  banks :: nat

definition arena_new :: "nat \<Rightarrow> nat \<Rightarrow> nat \<Rightarrow> data_arena" where
  "arena_new off arena_len n = (let n = max n 1 in
     \<lparr>mapping_offset = off, bank_size = max (arena_len div n) 4096, banks = n\<rparr>)"

definition bank_index :: "data_arena \<Rightarrow> u32 \<Rightarrow> nat" where
  "bank_index a slot = unat slot mod banks a"

definition bank_mapping_offset :: "data_arena \<Rightarrow> u32 \<Rightarrow> nat" where
  "bank_mapping_offset a slot = mapping_offset a + bank_index a slot * bank_size a"

text \<open>\<open>f\<close> is the callback: it is handed the bank's bytes and returns them changed, with the count
  it wrote or an error status. It runs at most once; \<open>s\<close> is the state it runs in.\<close>

definition fill_bank :: "seg \<Rightarrow> data_arena \<Rightarrow> u32 \<Rightarrow> nat \<Rightarrow> (bytes \<Rightarrow> 's \<Rightarrow> 's \<times> bytes \<times> (u32 + nat)) \<Rightarrow> 's \<Rightarrow>
    seg \<times> 's \<times> (u32 + nat \<times> nat)" where
  "fill_bank seg a slot max_len f s =
     (let mx = min max_len (bank_size a) in
      if mx = 0 then (seg, s, Inr (bank_mapping_offset a slot, 0))
      else
        (let off = mapping_offset a + bank_index a slot * bank_size a in
         case with_mut_bytes seg off mx (\<lambda>buf.
           (let (s', buf', r) = f buf s in
            (buf', s', case r of Inl e \<Rightarrow> Inl e | Inr n \<Rightarrow> Inr (off, min n (length buf))))) of
           (seg', None) \<Rightarrow> (seg', s, Inl ST_IO_ERROR)
         | (seg', Some (s', r)) \<Rightarrow> (seg', s', r)))"

text \<open>Different banks are apart.\<close>

lemma banks_apart:
  assumes "bank_index a s \<noteq> bank_index a t"
  shows "bank_mapping_offset a s + bank_size a \<le> bank_mapping_offset a t \<or>
    bank_mapping_offset a t + bank_size a \<le> bank_mapping_offset a s"
proof -
  have step: "i * b + b \<le> j * b" if "i < j" for i j b :: nat
    using mult_le_mono1 [of "i + 1" j b] that by simp
  show ?thesis
    using assms step [of "bank_index a s" "bank_index a t" "bank_size a"]
      step [of "bank_index a t" "bank_index a s" "bank_size a"]
    unfolding bank_mapping_offset_def by linarith
qed

lemma bank_index_inj: "unat s < banks a \<Longrightarrow> unat t < banks a \<Longrightarrow> s \<noteq> t \<Longrightarrow> bank_index a s \<noteq> bank_index a t"
  by (simp add: bank_index_def word_unat_eq_iff)

end
