(* ===== verification/Ring.thy ===== *)
theory Ring
  imports Shared_Seg
begin

text \<open>
  The request ring of \<^verbatim>\<open>vfs-ipc/src/layout.rs\<close> and \<^verbatim>\<open>vfs-ipc/src/ring.rs\<close>: the byte layout, \<^verbatim>\<open>init\<close> and
  \<^verbatim>\<open>open\<close>, and the operations on one slot, each as it runs alone. A \<^verbatim>\<open>SharedSeg\<close> is its bytes; an
  operation returns the bytes it leaves. \<^verbatim>\<open>usize\<close> is 64 bits wide; the sums below that can pass
  \<^verbatim>\<open>usize::MAX\<close> wrap. \<open>view\<close> reads a slot's header and payload as a record, and the lemmas of
  \<open>view_simps\<close> give the effect of every write on it: the other slots keep theirs. The interleaving
  of several threads is in \<^verbatim>\<open>Ring_Machine\<close>.
\<close>

section \<open>Layout\<close>

definition MAGIC :: u32 where "MAGIC = 0x56464950"
definition VERSION :: u32 where "VERSION = 4"
definition ST_FREE :: u32 where "ST_FREE = 0"
definition ST_CLAIMED :: u32 where "ST_CLAIMED = 1"
definition ST_SUBMITTED :: u32 where "ST_SUBMITTED = 2"
definition ST_PROCESSING :: u32 where "ST_PROCESSING = 3"
definition ST_COMPLETED :: u32 where "ST_COMPLETED = 4"
definition ST_ABANDONED :: u32 where "ST_ABANDONED = 5"

definition RING_HEADER_SIZE :: nat where "RING_HEADER_SIZE = 48"
definition SLOT_HEADER_SIZE :: nat where "SLOT_HEADER_SIZE = 32"

definition RH_MAGIC :: nat where "RH_MAGIC = 0"
definition RH_VERSION :: nat where "RH_VERSION = 4"
definition RH_SLOT_COUNT :: nat where "RH_SLOT_COUNT = 8"
definition RH_SLOT_STRIDE :: nat where "RH_SLOT_STRIDE = 12"
definition RH_PAYLOAD_CAP :: nat where "RH_PAYLOAD_CAP = 16"
definition RH_WORKER_HINT :: nat where "RH_WORKER_HINT = 20"
definition RH_REQ_SEQ :: nat where "RH_REQ_SEQ = 24"
definition RH_SUBMIT_SEQ :: nat where "RH_SUBMIT_SEQ = 32"
definition RH_REG_GEN :: nat where "RH_REG_GEN = 40"

definition SH_STATE :: nat where "SH_STATE = 0"
definition SH_OPCODE :: nat where "SH_OPCODE = 4"
definition SH_FLAGS :: nat where "SH_FLAGS = 8"
definition SH_PAYLOAD_LEN :: nat where "SH_PAYLOAD_LEN = 12"
definition SH_STATUS :: nat where "SH_STATUS = 16"
definition SH_ACK :: nat where "SH_ACK = 20"
definition SH_REQ_ID :: nat where "SH_REQ_ID = 24"

lemmas rh_defs = RH_MAGIC_def RH_VERSION_def RH_SLOT_COUNT_def RH_SLOT_STRIDE_def RH_PAYLOAD_CAP_def
  RH_WORKER_HINT_def RH_REQ_SEQ_def RH_SUBMIT_SEQ_def RH_REG_GEN_def

lemmas sh_defs = SH_STATE_def SH_OPCODE_def SH_FLAGS_def SH_PAYLOAD_LEN_def SH_STATUS_def SH_ACK_def
  SH_REQ_ID_def

lemmas st_defs = ST_FREE_def ST_CLAIMED_def ST_SUBMITTED_def ST_PROCESSING_def ST_COMPLETED_def
  ST_ABANDONED_def

lemma st_distinct [simp]:
  "ST_FREE \<noteq> ST_CLAIMED" "ST_FREE \<noteq> ST_SUBMITTED" "ST_FREE \<noteq> ST_PROCESSING" "ST_FREE \<noteq> ST_COMPLETED" "ST_FREE \<noteq> ST_ABANDONED"
  "ST_CLAIMED \<noteq> ST_FREE" "ST_CLAIMED \<noteq> ST_SUBMITTED" "ST_CLAIMED \<noteq> ST_PROCESSING" "ST_CLAIMED \<noteq> ST_COMPLETED" "ST_CLAIMED \<noteq> ST_ABANDONED"
  "ST_SUBMITTED \<noteq> ST_FREE" "ST_SUBMITTED \<noteq> ST_CLAIMED" "ST_SUBMITTED \<noteq> ST_PROCESSING" "ST_SUBMITTED \<noteq> ST_COMPLETED" "ST_SUBMITTED \<noteq> ST_ABANDONED"
  "ST_PROCESSING \<noteq> ST_FREE" "ST_PROCESSING \<noteq> ST_CLAIMED" "ST_PROCESSING \<noteq> ST_SUBMITTED" "ST_PROCESSING \<noteq> ST_COMPLETED" "ST_PROCESSING \<noteq> ST_ABANDONED"
  "ST_COMPLETED \<noteq> ST_FREE" "ST_COMPLETED \<noteq> ST_CLAIMED" "ST_COMPLETED \<noteq> ST_SUBMITTED" "ST_COMPLETED \<noteq> ST_PROCESSING" "ST_COMPLETED \<noteq> ST_ABANDONED"
  "ST_ABANDONED \<noteq> ST_FREE" "ST_ABANDONED \<noteq> ST_CLAIMED" "ST_ABANDONED \<noteq> ST_SUBMITTED" "ST_ABANDONED \<noteq> ST_PROCESSING" "ST_ABANDONED \<noteq> ST_COMPLETED"
  by (simp_all add: st_defs)

lemmas size_defs = RING_HEADER_SIZE_def SLOT_HEADER_SIZE_def

text \<open>\<^verbatim>\<open>(n + 7) & !7\<close> on a 64-bit word.\<close>

unbundle bit_operations_syntax

definition align8 :: "nat \<Rightarrow> nat" where
  "align8 n = unat ((word_of_nat n + 7 :: u64) AND NOT 7)"

datatype ipc_error = RingFull | Timeout | PayloadTooLarge | BadResponse | Closed | Layout

record geom =
  slot_count :: u32
  slot_stride :: u32
  payload_cap :: u32

definition slot_off :: "geom \<Rightarrow> u32 \<Rightarrow> nat" where
  "slot_off g slot = RING_HEADER_SIZE + unat slot * unat (slot_stride g)"

definition payload_off :: "geom \<Rightarrow> u32 \<Rightarrow> nat" where
  "payload_off g slot = slot_off g slot + SLOT_HEADER_SIZE"

text \<open>An \<^verbatim>\<open>Option<&AtomicU32>\<close> is the word's offset, if the segment has such a word.\<close>

definition state_ref :: "seg \<Rightarrow> geom \<Rightarrow> u32 \<Rightarrow> nat option" where
  "state_ref m g slot =
     (let off = slot_off g slot + SH_STATE in if atomic_u32 m off then Some off else None)"

definition slot_state :: "seg \<Rightarrow> geom \<Rightarrow> u32 \<Rightarrow> u32 option" where
  "slot_state m g slot = map_option (load32 m) (state_ref m g slot)"

section \<open>Laying out and validating a ring\<close>

definition ring_init :: "seg \<Rightarrow> u32 \<Rightarrow> u32 \<Rightarrow> seg \<times> (ipc_error + geom)" where
  "ring_init m n cap =
     (let stride = align8 (SLOT_HEADER_SIZE + unat cap);
          total = (RING_HEADER_SIZE + unat n * stride) mod 2 ^ 64 in
      if total > length m then (m, Inl Layout)
      else
        (let m = seg_write_u32 m RH_MAGIC MAGIC;
             m = seg_write_u32 m RH_VERSION VERSION;
             m = seg_write_u32 m RH_SLOT_COUNT n;
             m = seg_write_u32 m RH_SLOT_STRIDE (word_of_nat stride);
             m = seg_write_u32 m RH_PAYLOAD_CAP cap;
             m = seg_write_u32 m RH_WORKER_HINT 0;
             m = seg_write_u64 m RH_REQ_SEQ 0;
             m = seg_write_u32 m RH_SUBMIT_SEQ 0;
             m = seg_write_u64 m RH_REG_GEN 0;
             g = \<lparr>slot_count = n, slot_stride = word_of_nat stride, payload_cap = cap\<rparr>;
             m = fold (\<lambda>s m. seg_write_u32 m (slot_off g (word_of_nat s) + SH_STATE) ST_FREE) [0..<unat n] m in
         (m, Inr g)))"

definition ring_open :: "seg \<Rightarrow> ipc_error + geom" where
  "ring_open m =
     (if length m < RING_HEADER_SIZE then Inl Layout
      else if seg_read_u32 m RH_MAGIC \<noteq> Some MAGIC \<or> seg_read_u32 m RH_VERSION \<noteq> Some VERSION then Inl Layout
      else rbind (ok_or Layout (seg_read_u32 m RH_SLOT_COUNT)) (\<lambda>n.
           rbind (ok_or Layout (seg_read_u32 m RH_SLOT_STRIDE)) (\<lambda>stride.
           rbind (ok_or Layout (seg_read_u32 m RH_PAYLOAD_CAP)) (\<lambda>cap.
             if unat stride \<noteq> align8 (SLOT_HEADER_SIZE + unat cap) then Inl Layout
             else if RING_HEADER_SIZE + unat n * unat stride > length m then Inl Layout
             else Inr \<lparr>slot_count = n, slot_stride = stride, payload_cap = cap\<rparr>))))"

definition set_worker_hint :: "seg \<Rightarrow> u32 \<Rightarrow> seg" where
  "set_worker_hint m workers = seg_write_u32 m RH_WORKER_HINT workers"

definition worker_hint :: "seg \<Rightarrow> u32" where
  "worker_hint m = (case seg_read_u32 m RH_WORKER_HINT of Some w \<Rightarrow> w | None \<Rightarrow> 0)"

definition publish_reg_generation :: "seg \<Rightarrow> u64 \<Rightarrow> seg" where
  "publish_reg_generation m gen =
     (if atomic_u64 m RH_REG_GEN then store64 m RH_REG_GEN (max (load64 m RH_REG_GEN) gen) else m)"

definition reg_generation :: "seg \<Rightarrow> u64" where
  "reg_generation m = (if atomic_u64 m RH_REG_GEN then load64 m RH_REG_GEN else 0)"

section \<open>Slots\<close>

text \<open>The scan of \<open>claim_free_from\<close> over the values of its loop counter.\<close>

fun claim_scan :: "seg \<Rightarrow> geom \<Rightarrow> u32 \<Rightarrow> nat list \<Rightarrow> seg \<times> u32 option" where
  "claim_scan m g start [] = (m, None)"
| "claim_scan m g start (i # is) =
     (let s = (start + word_of_nat i) mod slot_count g in
      case state_ref m g s of
        Some st \<Rightarrow>
          if load32 m st = ST_FREE then
            (case compare_exchange m st ST_FREE ST_CLAIMED of
               (m', Inr _) \<Rightarrow> (m', Some s)
             | (m', Inl _) \<Rightarrow> claim_scan m' g start is)
          else claim_scan m g start is
      | None \<Rightarrow> claim_scan m g start is)"

definition claim_free_from :: "seg \<Rightarrow> geom \<Rightarrow> u32 \<Rightarrow> seg \<times> u32 option" where
  "claim_free_from m g start = claim_scan m g start [0..<unat (slot_count g)]"

definition claim_free :: "seg \<Rightarrow> geom \<Rightarrow> seg \<times> u32 option" where
  "claim_free m g = claim_free_from m g 0"

definition publish_request :: "seg \<Rightarrow> geom \<Rightarrow> u32 \<Rightarrow> u32 \<Rightarrow> u32 \<Rightarrow> bytes \<Rightarrow> seg \<times> (ipc_error + u64)" where
  "publish_request m g slot opcode flags payload =
     (if length payload > unat (payload_cap g) then (m, Inl PayloadTooLarge)
      else
        (let base = slot_off g slot in
         if \<not> atomic_u64 m RH_REQ_SEQ then (m, Inl Layout)
         else
           (let req_id = load64 m RH_REQ_SEQ;
                m = store64 m RH_REQ_SEQ (req_id + 1);
                m = seg_write_u32 m (base + SH_OPCODE) opcode;
                m = seg_write_u32 m (base + SH_FLAGS) flags;
                m = seg_write_u32 m (base + SH_PAYLOAD_LEN) (word_of_nat (length payload));
                m = seg_write_u64 m (base + SH_REQ_ID) req_id;
                m = fst (write_bytes m (payload_off g slot) payload) in
            case state_ref m g slot of
              None \<Rightarrow> (m, Inl Layout)
            | Some st \<Rightarrow>
                (let m = store32 m st ST_SUBMITTED in
                 if \<not> atomic_u32 m RH_SUBMIT_SEQ then (m, Inl Layout)
                 else (store32 m RH_SUBMIT_SEQ (load32 m RH_SUBMIT_SEQ + 1), Inr req_id)))))"

fun take_scan :: "seg \<Rightarrow> geom \<Rightarrow> u32 \<Rightarrow> nat list \<Rightarrow> seg \<times> u32 option" where
  "take_scan m g start [] = (m, None)"
| "take_scan m g start (i # is) =
     (let s = (start + word_of_nat i) mod slot_count g in
      case state_ref m g s of
        Some st \<Rightarrow>
          (case compare_exchange m st ST_SUBMITTED ST_PROCESSING of
             (m', Inr _) \<Rightarrow> (m', Some s)
           | (m', Inl _) \<Rightarrow> take_scan m' g start is)
      | None \<Rightarrow> take_scan m g start is)"

definition server_take_from :: "seg \<Rightarrow> geom \<Rightarrow> u32 \<Rightarrow> seg \<times> u32 option" where
  "server_take_from m g start = take_scan m g start [0..<unat (slot_count g)]"

definition server_take :: "seg \<Rightarrow> geom \<Rightarrow> seg \<times> u32 option" where
  "server_take m g = server_take_from m g 0"

definition read_request :: "seg \<Rightarrow> geom \<Rightarrow> u32 \<Rightarrow> (u32 \<times> u32 \<times> u64 \<times> bytes) option" where
  "read_request m g slot = do {
     let base = slot_off g slot;
     opcode \<leftarrow> seg_read_u32 m (base + SH_OPCODE);
     flags \<leftarrow> seg_read_u32 m (base + SH_FLAGS);
     req_id \<leftarrow> seg_read_u64 m (base + SH_REQ_ID);
     len \<leftarrow> seg_read_u32 m (base + SH_PAYLOAD_LEN);
     if unat len > unat (payload_cap g) then None
     else do {
       payload \<leftarrow> read_bytes m (payload_off g slot) (unat len);
       Some (opcode, flags, req_id, payload)
     }
   }"

datatype completion = Delivered | Drained | Stale

definition drain :: "seg \<Rightarrow> nat \<Rightarrow> seg \<times> completion" where
  "drain m st = (case compare_exchange m st ST_ABANDONED ST_FREE of
     (m', Inr _) \<Rightarrow> (m', Drained) | (m', Inl _) \<Rightarrow> (m', Stale))"

text \<open>The status a client sees for a response that does not fit: \<^verbatim>\<open>i32::MIN\<close>.\<close>

definition OVERFLOW :: u32 where "OVERFLOW = 0x80000000"

definition server_complete :: "seg \<Rightarrow> geom \<Rightarrow> u32 \<Rightarrow> u64 \<Rightarrow> u32 \<Rightarrow> bytes \<Rightarrow> seg \<times> (ipc_error + completion)" where
  "server_complete m g slot req_id status resp =
     (let base = slot_off g slot in
      case state_ref m g slot of
        None \<Rightarrow> (m, Inl Layout)
      | Some st \<Rightarrow>
          if seg_read_u64 m (base + SH_REQ_ID) \<noteq> Some req_id then (m, Inr Stale)
          else if load32 m st = ST_ABANDONED then map_prod id Inr (drain m st)
          else if load32 m st \<noteq> ST_PROCESSING then (m, Inr Stale)
          else
            (let (m, status, len) =
                   (if length resp > unat (payload_cap g) then (m, OVERFLOW, 0)
                    else (fst (write_bytes m (payload_off g slot) resp), status, length resp));
                 m = seg_write_i32 m (base + SH_STATUS) status;
                 m = seg_write_u32 m (base + SH_PAYLOAD_LEN) (word_of_nat len);
                 m = seg_write_u32 m (base + SH_ACK) (ucast req_id) in
             case compare_exchange m st ST_PROCESSING ST_COMPLETED of
               (m', Inr _) \<Rightarrow> (m', Inr Delivered)
             | (m', Inl seen) \<Rightarrow> if seen = ST_ABANDONED then map_prod id Inr (drain m' st) else (m', Inr Stale)))"

definition take_response :: "seg \<Rightarrow> geom \<Rightarrow> u32 \<Rightarrow> u64 \<Rightarrow> ipc_error + (u32 \<times> bytes) option" where
  "take_response m g slot req_id =
     rbind (ok_or Layout (state_ref m g slot)) (\<lambda>st.
       if load32 m st \<noteq> ST_COMPLETED then Inr None
       else
         (let base = slot_off g slot in
          if seg_read_u32 m (base + SH_ACK) \<noteq> Some (ucast req_id) then Inl BadResponse
          else
            rbind (ok_or Layout (seg_read_i32 m (base + SH_STATUS))) (\<lambda>status.
            rbind (ok_or Layout (seg_read_u32 m (base + SH_PAYLOAD_LEN))) (\<lambda>len.
              if unat len > unat (payload_cap g) then Inl BadResponse
              else rbind (ok_or Layout (read_bytes m (payload_off g slot) (unat len))) (\<lambda>payload.
                Inr (Some (status, payload)))))))"

definition free_slot :: "seg \<Rightarrow> geom \<Rightarrow> u32 \<Rightarrow> seg \<times> (ipc_error + unit)" where
  "free_slot m g slot = (case state_ref m g slot of
     None \<Rightarrow> (m, Inl Layout) | Some st \<Rightarrow> (store32 m st ST_FREE, Inr ()))"

datatype abandoned = Freed | Retired

text \<open>What \<^verbatim>\<open>abandon\<close> decides on a state it loaded: to return, or to swap it.\<close>

definition abandon_move :: "u32 \<Rightarrow> abandoned + (u32 \<times> u32 \<times> abandoned)" where
  "abandon_move s =
     (if s = ST_PROCESSING then Inr (ST_PROCESSING, ST_ABANDONED, Retired)
      else if s = ST_SUBMITTED \<or> s = ST_CLAIMED \<or> s = ST_COMPLETED then Inr (s, ST_FREE, Freed)
      else if s = ST_ABANDONED then Inl Retired
      else Inl Freed)"

text \<open>The loop of \<^verbatim>\<open>abandon\<close> when no other thread moves the slot; \<open>fuel\<close> bounds its turns.\<close>

fun abandon_loop :: "nat \<Rightarrow> seg \<Rightarrow> nat \<Rightarrow> (seg \<times> abandoned) option" where
  "abandon_loop 0 m st = None"
| "abandon_loop (Suc fuel) m st =
     (case abandon_move (load32 m st) of
        Inl r \<Rightarrow> Some (m, r)
      | Inr (old, new, r) \<Rightarrow>
          (case compare_exchange m st old new of
             (m', Inr _) \<Rightarrow> Some (m', r)
           | (m', Inl _) \<Rightarrow> abandon_loop fuel m' st))"

definition abandon :: "seg \<Rightarrow> geom \<Rightarrow> u32 \<Rightarrow> (seg \<times> (ipc_error + abandoned)) option" where
  "abandon m g slot = (case state_ref m g slot of
     None \<Rightarrow> Some (m, Inl Layout)
   | Some st \<Rightarrow> map_option (map_prod id Inr) (abandon_loop 1 m st))"

section \<open>Well-formed rings\<close>

text \<open>What \<^verbatim>\<open>open\<close> has checked of a segment, whose length is a \<^verbatim>\<open>usize\<close>.\<close>

definition ring_ok :: "geom \<Rightarrow> seg \<Rightarrow> bool" where
  "ring_ok g m \<longleftrightarrow> unat (slot_stride g) = align8 (SLOT_HEADER_SIZE + unat (payload_cap g)) \<and>
     RING_HEADER_SIZE + unat (slot_count g) * unat (slot_stride g) \<le> length m \<and> length m < 2 ^ 64"

lemma and_not_mask_push_drop: "w AND NOT (mask k) = push_bit k (drop_bit k w)" for w :: "'a::len word"
  by (rule bit_word_eqI) (auto simp: bit_simps)

lemma align8_eq:
  assumes "n + 7 < 2 ^ 64"
  shows "align8 n = (n + 7) div 8 * 8"
proof -
  have mask: "(7 :: u64) = mask 3" by (simp add: mask_eq_exp_minus_1)
  have "unat (word_of_nat (n + 7) :: u64) = n + 7" using assms by (simp add: unat_of_nat del: of_nat_add)
  then have "unat (push_bit 3 (drop_bit 3 (word_of_nat (n + 7) :: u64))) = take_bit 64 ((n + 7) div 8 * 8)"
    by (simp only: unsigned_push_bit_eq unat_drop_bit_eq) (simp add: push_bit_eq_mult drop_bit_eq_div)
  moreover have "(n + 7) div 8 * 8 < 2 ^ 64" using assms div_times_less_eq_dividend [of "n + 7" 8] by linarith
  ultimately show ?thesis
    unfolding align8_def mask and_not_mask_push_drop by (simp add: take_bit_nat_eq_self mask del: push_bit_eq_mult)
qed

lemma ring_okD:
  assumes "ring_ok g m"
  shows "SLOT_HEADER_SIZE + unat (payload_cap g) \<le> unat (slot_stride g)" and "unat (slot_stride g) mod 8 = 0"
    and "RING_HEADER_SIZE + unat (slot_count g) * unat (slot_stride g) \<le> length m" and "length m < 2 ^ 64"
proof -
  have "unat (payload_cap g) < 2 ^ 32" using unsigned_less [of "payload_cap g"] by simp
  then have eq: "align8 (32 + unat (payload_cap g)) = (32 + unat (payload_cap g) + 7) div 8 * 8"
    by (intro align8_eq) simp
  show "SLOT_HEADER_SIZE + unat (payload_cap g) \<le> unat (slot_stride g)" "unat (slot_stride g) mod 8 = 0"
    using assms eq by (simp_all add: ring_ok_def SLOT_HEADER_SIZE_def)
qed (use assms in \<open>auto simp: ring_ok_def\<close>)

lemma slot_fits:
  assumes "ring_ok g m" and "s < slot_count g"
  shows "slot_off g s + (32 + unat (payload_cap g)) \<le> length m" and "48 \<le> slot_off g s"
    and "slot_off g s mod 8 = 0"
proof -
  have "unat s + 1 \<le> unat (slot_count g)" using assms(2) by (simp add: word_less_nat_alt Suc_le_eq)
  then have "(unat s + 1) * unat (slot_stride g) \<le> unat (slot_count g) * unat (slot_stride g)"
    by (rule mult_le_mono1)
  then show "slot_off g s + (32 + unat (payload_cap g)) \<le> length m"
    using ring_okD(1,3) [OF assms(1)] by (simp add: slot_off_def size_defs)
  show "48 \<le> slot_off g s" by (simp add: slot_off_def size_defs)
  have "8 dvd unat (slot_stride g)" using ring_okD(2) [OF assms(1)] by (simp add: mod_eq_0_iff_dvd)
  then show "slot_off g s mod 8 = 0"
    by (simp add: slot_off_def size_defs mod_eq_0_iff_dvd dvd_mult)
qed

lemma slots_apart:
  assumes "ring_ok g m" and "s \<noteq> t"
  shows "slot_off g s + (32 + unat (payload_cap g)) \<le> slot_off g t \<or>
    slot_off g t + (32 + unat (payload_cap g)) \<le> slot_off g s"
proof -
  have step: "unat u * k + k \<le> unat v * k" if "unat u < unat v" for u v :: u32 and k :: nat
    using mult_le_mono1 [of "unat u + 1" "unat v" k] that by simp
  have "unat s \<noteq> unat t" using assms(2) by (simp add: word_unat_eq_iff)
  then show ?thesis
    using step [of s t "unat (slot_stride g)"] step [of t s "unat (slot_stride g)"] ring_okD(1) [OF assms(1)]
    unfolding slot_off_def size_defs by linarith
qed

section \<open>A slot as a record\<close>

record slot_view =
  v_state :: u32
  v_opcode :: u32
  v_flags :: u32
  v_len :: u32
  v_status :: u32
  v_ack :: u32
  v_id :: u64
  v_data :: bytes

definition view :: "geom \<Rightarrow> seg \<Rightarrow> u32 \<Rightarrow> slot_view" where
  "view g m s =
     \<lparr>v_state = load32 m (slot_off g s + SH_STATE), v_opcode = load32 m (slot_off g s + SH_OPCODE),
      v_flags = load32 m (slot_off g s + SH_FLAGS), v_len = load32 m (slot_off g s + SH_PAYLOAD_LEN),
      v_status = load32 m (slot_off g s + SH_STATUS), v_ack = load32 m (slot_off g s + SH_ACK),
      v_id = load64 m (slot_off g s + SH_REQ_ID), v_data = rd_range m (payload_off g s) (unat (payload_cap g))\<rparr>"

named_theorems view_simps \<open>the slots after a write\<close>

lemma load32_overwrite:
  "off + length d \<le> length m \<Longrightarrow> off' + 4 \<le> off \<or> off + length d \<le> off' \<Longrightarrow>
   load32 (overwrite m off d) off' = load32 m off'"
  using segc.rd_other [of off d m off' 4] by (simp add: load32_def rd_range_def)

lemma load64_overwrite:
  "off + length d \<le> length m \<Longrightarrow> off' + 8 \<le> off \<or> off + length d \<le> off' \<Longrightarrow>
   load64 (overwrite m off d) off' = load64 m off'"
  using segc.rd_other [of off d m off' 8] by (simp add: load64_def rd_range_def)

lemma load32_store32: "off + 4 \<le> length m \<Longrightarrow> load32 (overwrite m off (u32_le v)) off = v"
  using segc.rd_same [of off "u32_le v" m] by (simp add: load32_def rd_range_def)

lemma load64_store64: "off + 8 \<le> length m \<Longrightarrow> load64 (overwrite m off (u64_le v)) off = v"
  using segc.rd_same [of off "u64_le v" m] by (simp add: load64_def rd_range_def)

lemma rd_range_front:
  assumes "off + n \<le> length m" and "length d \<le> n"
  shows "rd_range (overwrite m off d) off n = d @ drop (length d) (rd_range m off n)"
  using assms by (simp add: rd_range_def overwrite_def drop_take add.commute)

lemma view_other:
  assumes "ring_ok g m" and "s < slot_count g" and "t < slot_count g" and "s \<noteq> t"
    and "slot_off g s \<le> off" and "off + length d \<le> slot_off g s + (32 + unat (payload_cap g))"
  shows "view g (overwrite m off d) t = view g m t"
proof -
  have fit: "off + length d \<le> length m" using slot_fits(1) [OF assms(1,2)] assms(6) by linarith
  have apart: "slot_off g t + (32 + unat (payload_cap g)) \<le> off \<or> off + length d \<le> slot_off g t"
    using slots_apart [OF assms(1,4)] assms(5,6) by linarith
  have "rd_range (overwrite m off d) (payload_off g t) (unat (payload_cap g)) =
      rd_range m (payload_off g t) (unat (payload_cap g))"
    using apart by (intro segc.rd_other fit) (auto simp: payload_off_def size_defs)
  moreover have w: "load32 (overwrite m off d) (slot_off g t + k) = load32 m (slot_off g t + k)" if "k + 4 \<le> 32" for k
    using apart that by (intro load32_overwrite fit) linarith
  moreover have "load64 (overwrite m off d) (slot_off g t + k) = load64 m (slot_off g t + k)" if "k + 8 \<le> 32" for k
    using apart that by (intro load64_overwrite fit) linarith
  ultimately show ?thesis using w [of 0] by (simp add: view_def sh_defs)
qed

lemma view_header:
  assumes "ring_ok g m" and "t < slot_count g" and "off + length d \<le> 48"
  shows "view g (overwrite m off d) t = view g m t"
proof -
  have fit: "off + length d \<le> length m" using ring_okD(3) [OF assms(1)] assms(3) by (simp add: size_defs)
  have apart: "off + length d \<le> slot_off g t" using slot_fits(2) [OF assms(1,2)] assms(3) by linarith
  then show ?thesis using fit
    by (simp add: view_def sh_defs load32_overwrite load64_overwrite payload_off_def size_defs segc.rd_other)
qed

lemma length_seg_write [simp]:
  "length (fst (write_bytes m off d)) = length m" "length (seg_write_u32 m off v) = length m"
  "length (seg_write_i32 m off v) = length m" "length (seg_write_u64 m off w) = length m"
  by (simp_all add: write_bytes_def seg_write_u32_def seg_write_i32_def seg_write_u64_def in_bounds_def)

lemma length_store [simp]:
  "off + 4 \<le> length m \<Longrightarrow> length (store32 m off v) = length m"
  "off + 8 \<le> length m \<Longrightarrow> length (store64 m off w) = length m"
  by (simp_all add: store32_def store64_def)

lemma ring_ok_length: "ring_ok g m \<Longrightarrow> length m' = length m \<Longrightarrow> ring_ok g m'"
  by (auto simp: ring_ok_def)

text \<open>Inside a slot every access is in bounds, and its state word is aligned.\<close>

lemma slot_in_bounds:
  assumes "ring_ok g m" and "s < slot_count g" and "k + n \<le> 32 + unat (payload_cap g)"
  shows "in_bounds m (slot_off g s + k) n"
  using slot_fits(1) [OF assms(1,2)] ring_okD(4) [OF assms(1)] assms(3) by (simp add: in_bounds_def)

lemma state_ref_eq:
  assumes "ring_ok g m" and "s < slot_count g"
  shows "state_ref m g s = Some (slot_off g s + SH_STATE)"
proof -
  have "slot_off g s mod 4 = 0" using slot_fits(3) [OF assms] by presburger
  then show ?thesis using slot_in_bounds [OF assms, of 0 4]
    by (simp add: state_ref_def atomic_u32_def sh_defs)
qed

lemma seq_atomic:
  assumes "ring_ok g m"
  shows "atomic_u64 m RH_REQ_SEQ" "atomic_u32 m RH_SUBMIT_SEQ" "atomic_u64 m RH_REG_GEN"
  using ring_okD(3,4) [OF assms] by (simp_all add: atomic_u64_def atomic_u32_def in_bounds_def rh_defs size_defs)

lemma write_word_slot:
  assumes "ring_ok g m" and "s < slot_count g" and "k + 4 \<le> 32"
  shows "seg_write_u32 m (slot_off g s + k) v = store32 m (slot_off g s + k) v"
    and "seg_write_i32 m (slot_off g s + k) v = store32 m (slot_off g s + k) v"
    and "seg_read_u32 m (slot_off g s + k) = Some (load32 m (slot_off g s + k))"
    and "seg_read_i32 m (slot_off g s + k) = Some (load32 m (slot_off g s + k))"
  using slot_in_bounds [OF assms(1,2), of k 4] assms(3)
  by (simp_all add: seg_write_u32_def seg_write_i32_def write_bytes_def store32_def seg_read_u32_def seg_read_i32_def load32_def)

lemma write_id_slot:
  assumes "ring_ok g m" and "s < slot_count g"
  shows "seg_write_u64 m (slot_off g s + SH_REQ_ID) v = store64 m (slot_off g s + SH_REQ_ID) v"
    and "seg_read_u64 m (slot_off g s + SH_REQ_ID) = Some (load64 m (slot_off g s + SH_REQ_ID))"
  using slot_in_bounds [OF assms(1,2), of 24 8]
  by (simp_all add: seg_write_u64_def write_bytes_def store64_def seg_read_u64_def load64_def sh_defs)

text \<open>Reads give the view's fields.\<close>

lemma read_slot [view_simps]:
  assumes "ring_ok g m" and "s < slot_count g"
  shows "load32 m (slot_off g s + SH_STATE) = v_state (view g m s)"
    and "seg_read_u32 m (slot_off g s + SH_OPCODE) = Some (v_opcode (view g m s))"
    and "seg_read_u32 m (slot_off g s + SH_FLAGS) = Some (v_flags (view g m s))"
    and "seg_read_u32 m (slot_off g s + SH_PAYLOAD_LEN) = Some (v_len (view g m s))"
    and "seg_read_i32 m (slot_off g s + SH_STATUS) = Some (v_status (view g m s))"
    and "seg_read_u32 m (slot_off g s + SH_ACK) = Some (v_ack (view g m s))"
    and "seg_read_u64 m (slot_off g s + SH_REQ_ID) = Some (v_id (view g m s))"
    and "n \<le> unat (payload_cap g) \<Longrightarrow> read_bytes m (payload_off g s) n = Some (take n (v_data (view g m s)))"
proof -
  show "n \<le> unat (payload_cap g) \<Longrightarrow> read_bytes m (payload_off g s) n = Some (take n (v_data (view g m s)))"
    using slot_in_bounds [OF assms, of 32 n]
    by (simp add: read_bytes_def copy_to_def view_def payload_off_def size_defs rd_range_def)
qed (simp_all add: view_def write_word_slot [OF assms] write_id_slot [OF assms, unfolded sh_defs] sh_defs)

text \<open>Writes change one field of one slot.\<close>

lemma store32_slot_other:
  assumes "ring_ok g m" and "s < slot_count g" and "t < slot_count g" and "s \<noteq> t" and "k + 4 \<le> 32"
  shows "view g (store32 m (slot_off g s + k) v) t = view g m t"
  unfolding store32_def by (rule view_other [OF assms(1-4)]) (use assms(5) in simp_all)

lemma view_store32 [view_simps]:
  assumes "ring_ok g m" and "s < slot_count g" and "t < slot_count g"
  shows "view g (store32 m (slot_off g s + SH_STATE) v) t = (if t = s then (view g m s)\<lparr>v_state := v\<rparr> else view g m t)"
    and "view g (seg_write_u32 m (slot_off g s + SH_OPCODE) v) t = (if t = s then (view g m s)\<lparr>v_opcode := v\<rparr> else view g m t)"
    and "view g (seg_write_u32 m (slot_off g s + SH_FLAGS) v) t = (if t = s then (view g m s)\<lparr>v_flags := v\<rparr> else view g m t)"
    and "view g (seg_write_u32 m (slot_off g s + SH_PAYLOAD_LEN) v) t = (if t = s then (view g m s)\<lparr>v_len := v\<rparr> else view g m t)"
    and "view g (seg_write_i32 m (slot_off g s + SH_STATUS) v) t = (if t = s then (view g m s)\<lparr>v_status := v\<rparr> else view g m t)"
    and "view g (seg_write_u32 m (slot_off g s + SH_ACK) v) t = (if t = s then (view g m s)\<lparr>v_ack := v\<rparr> else view g m t)"
proof -
  have fit: "slot_off g s + 32 + unat (payload_cap g) \<le> length m" using slot_fits(1) [OF assms(1,2)] by simp
  show "view g (store32 m (slot_off g s + SH_STATE) v) t = (if t = s then (view g m s)\<lparr>v_state := v\<rparr> else view g m t)"
    using fit store32_slot_other [OF assms, of 0]
    by (simp add: view_def store32_def load32_overwrite load64_overwrite load32_store32 segc.rd_other payload_off_def size_defs sh_defs)
qed (use slot_fits(1) [OF assms(1,2)] store32_slot_other [OF assms] in \<open>simp_all add: write_word_slot [OF assms(1,2)] sh_defs,
    simp_all add: view_def store32_def load32_overwrite load64_overwrite load32_store32 segc.rd_other payload_off_def size_defs sh_defs\<close>)

lemma view_write_id [view_simps]:
  assumes "ring_ok g m" and "s < slot_count g" and "t < slot_count g"
  shows "view g (seg_write_u64 m (slot_off g s + SH_REQ_ID) v) t = (if t = s then (view g m s)\<lparr>v_id := v\<rparr> else view g m t)"
proof (cases "t = s")
  case True
  have fit: "slot_off g s + 24 + length (u64_le v) \<le> length m" using slot_fits(1) [OF assms(1,2)] by simp
  then show ?thesis unfolding write_id_slot(1) [OF assms(1,2)] unfolding store64_def SH_REQ_ID_def
    using True by (simp add: view_def load32_overwrite [OF fit] load64_store64 segc.rd_other payload_off_def size_defs sh_defs)
next
  case False
  then show ?thesis unfolding write_id_slot(1) [OF assms(1,2)] unfolding store64_def SH_REQ_ID_def
    by (simp add: view_other [OF assms])
qed

lemma view_write_payload [view_simps]:
  assumes "ring_ok g m" and "s < slot_count g" and "t < slot_count g" and "length d \<le> unat (payload_cap g)"
  shows "view g (fst (write_bytes m (payload_off g s) d)) t =
    (if t = s then (view g m s)\<lparr>v_data := d @ drop (length d) (v_data (view g m s))\<rparr> else view g m t)"
proof -
  have ib: "in_bounds m (payload_off g s) (length d)"
    using slot_in_bounds [OF assms(1,2), of 32 "length d"] assms(4) by (simp add: payload_off_def size_defs)
  have fit: "slot_off g s + 32 + unat (payload_cap g) \<le> length m" using slot_fits(1) [OF assms(1,2)] by simp
  show ?thesis
  proof (cases "t = s")
    case True
    then show ?thesis using ib fit assms(4)
      by (simp add: write_bytes_def view_def load32_overwrite load64_overwrite rd_range_front payload_off_def size_defs sh_defs)
  next
    case False
    then show ?thesis using ib assms(4)
      by (simp add: write_bytes_def view_other [OF assms(1-3)] payload_off_def size_defs)
  qed
qed

lemma view_seq [view_simps]:
  assumes "ring_ok g m" and "t < slot_count g"
  shows "view g (store64 m RH_REQ_SEQ w) t = view g m t" and "view g (store32 m RH_SUBMIT_SEQ v) t = view g m t"
    and "view g (publish_reg_generation m gen) t = view g m t" and "view g (set_worker_hint m v) t = view g m t"
  using view_header [OF assms] seq_atomic [OF assms(1)] ring_okD(3,4) [OF assms(1)]
  by (simp_all add: store64_def store32_def rh_defs publish_reg_generation_def set_worker_hint_def seg_write_u32_def write_bytes_def)

lemma ring_ok_write [view_simps]:
  assumes "ring_ok g m"
  shows "ring_ok g (seg_write_u32 m off v)" "ring_ok g (seg_write_i32 m off v)" "ring_ok g (seg_write_u64 m off w)"
    "ring_ok g (fst (write_bytes m off d))" "s < slot_count g \<Longrightarrow> ring_ok g (store32 m (slot_off g s + SH_STATE) v)"
    "ring_ok g (store64 m RH_REQ_SEQ w)" "ring_ok g (store32 m RH_SUBMIT_SEQ v)"
    "ring_ok g (publish_reg_generation m w)" "ring_ok g (set_worker_hint m v)"
proof -
  show "s < slot_count g \<Longrightarrow> ring_ok g (store32 m (slot_off g s + SH_STATE) v)"
    using slot_fits(1) [OF assms, of s] by (intro ring_ok_length [OF assms]) (simp add: sh_defs)
  have "24 + 8 \<le> length m" "32 + 4 \<le> length m" "40 + 8 \<le> length m"
    using ring_okD(3) [OF assms] by (simp_all add: size_defs)
  then show "ring_ok g (store64 m RH_REQ_SEQ w)" "ring_ok g (store32 m RH_SUBMIT_SEQ v)"
    "ring_ok g (publish_reg_generation m w)" "ring_ok g (set_worker_hint m v)"
    by (auto intro!: ring_ok_length [OF assms] simp: rh_defs publish_reg_generation_def set_worker_hint_def)
qed (auto intro: ring_ok_length [OF assms])

section \<open>The operations on one slot, alone\<close>

text \<open>\<^verbatim>\<open>publish_request\<close> fills the slot with the request and submits it; no other slot changes.\<close>

lemma publish_request_view:
  assumes ok: "ring_ok g m" and s: "s < slot_count g" and fits: "length pl \<le> unat (payload_cap g)"
  obtains m' where "publish_request m g s op fl pl = (m', Inr (load64 m RH_REQ_SEQ))" and "ring_ok g m'"
    and "\<And>t. t < slot_count g \<Longrightarrow> view g m' t =
      (if t = s then (view g m s)\<lparr>v_state := ST_SUBMITTED, v_opcode := op, v_flags := fl,
         v_len := word_of_nat (length pl), v_id := load64 m RH_REQ_SEQ, v_data := pl @ drop (length pl) (v_data (view g m s))\<rparr>
       else view g m t)"
proof -
  define m' where "m' = fst (publish_request m g s op fl pl)"
  have eq: "publish_request m g s op fl pl = (m', Inr (load64 m RH_REQ_SEQ))"
    using fits by (simp add: m'_def publish_request_def Let_def seq_atomic [where g = g] state_ref_eq s ok view_simps)
  show thesis
  proof (rule that [OF eq])
    show "ring_ok g m'" using fits ok s
      by (simp add: m'_def publish_request_def Let_def seq_atomic [where g = g] state_ref_eq view_simps)
    show "view g m' t = (if t = s then (view g m s)\<lparr>v_state := ST_SUBMITTED, v_opcode := op, v_flags := fl,
         v_len := word_of_nat (length pl), v_id := load64 m RH_REQ_SEQ, v_data := pl @ drop (length pl) (v_data (view g m s))\<rparr>
       else view g m t)" if "t < slot_count g" for t
      using fits ok s that
      by (simp add: m'_def publish_request_def Let_def seq_atomic [where g = g] state_ref_eq view_simps)
  qed
qed

text \<open>\<^verbatim>\<open>read_request\<close> reads the fields, and refuses a length above the cap.\<close>

lemma read_request_view:
  assumes "ring_ok g m" and "s < slot_count g"
  shows "read_request m g s = (let v = view g m s in
    if unat (v_len v) > unat (payload_cap g) then None
    else Some (v_opcode v, v_flags v, v_id v, take (unat (v_len v)) (v_data v)))"
  using assms by (simp add: read_request_def Let_def view_simps not_less)

text \<open>What a client reads of a response: too long a one is \<open>OVERFLOW\<close> with no payload.\<close>

definition on_wire :: "geom \<Rightarrow> u32 \<Rightarrow> bytes \<Rightarrow> u32 \<times> bytes" where
  "on_wire g status resp = (if length resp > unat (payload_cap g) then (OVERFLOW, []) else (status, resp))"

lemma take_response_view:
  assumes "ring_ok g m" and "s < slot_count g"
  shows "take_response m g s rid = (let v = view g m s in
    if v_state v \<noteq> ST_COMPLETED then Inr None
    else if v_ack v \<noteq> ucast rid then Inl BadResponse
    else if unat (v_len v) > unat (payload_cap g) then Inl BadResponse
    else Inr (Some (v_status v, take (unat (v_len v)) (v_data v))))"
  using assms by (simp add: take_response_def Let_def state_ref_eq view_simps not_less)

lemma compare_exchange_eq:
  "compare_exchange m off a b = (if load32 m off = a then (store32 m off b, Inr a) else (m, Inl (load32 m off)))"
  by (auto simp: compare_exchange_def Let_def)

lemma server_complete_view:
  assumes ok: "ring_ok g m" and s: "s < slot_count g" and st: "v_state (view g m s) = ST_PROCESSING"
    and id: "v_id (view g m s) = rid"
  obtains m' where "server_complete m g s rid status resp = (m', Inr Delivered)" and "ring_ok g m'"
    and "\<And>t. t < slot_count g \<Longrightarrow> t \<noteq> s \<Longrightarrow> view g m' t = view g m t"
    and "take_response m' g s rid = Inr (Some (on_wire g status resp))"
proof -
  define m' where "m' = fst (server_complete m g s rid status resp)"
  define long where "long \<longleftrightarrow> length resp > unat (payload_cap g)"
  define v where "v = (view g m s)\<lparr>v_state := ST_COMPLETED, v_status := fst (on_wire g status resp),
    v_len := word_of_nat (length (snd (on_wire g status resp))), v_ack := ucast rid,
    v_data := snd (on_wire g status resp) @ drop (length (snd (on_wire g status resp))) (v_data (view g m s))\<rparr>"
  have distinct: "ST_PROCESSING \<noteq> ST_ABANDONED" by (simp add: st_defs)
  have eq: "server_complete m g s rid status resp = (m', Inr Delivered)"
    using ok s st id distinct unfolding m'_def
    by (cases long) (simp_all add: long_def server_complete_def Let_def state_ref_eq compare_exchange_eq view_simps)
  have ok': "ring_ok g m'"
    using ok s st id distinct unfolding m'_def
    by (cases long) (simp_all add: long_def server_complete_def Let_def state_ref_eq compare_exchange_eq view_simps)
  have view': "view g m' t = (if t = s then v else view g m t)" if "t < slot_count g" for t
    using ok s st id distinct that unfolding m'_def v_def on_wire_def
    by (cases long) (simp_all add: long_def server_complete_def Let_def state_ref_eq compare_exchange_eq view_simps)
  have len: "length (snd (on_wire g status resp)) \<le> unat (payload_cap g)" by (simp add: on_wire_def)
  then have "length (snd (on_wire g status resp)) < 2 ^ 32"
    by (rule le_less_trans) (use unsigned_less [of "payload_cap g"] in simp)
  then have "unat (word_of_nat (length (snd (on_wire g status resp))) :: u32) = length (snd (on_wire g status resp))"
    by (rule unat_of_nat_u32)
  then have "take_response m' g s rid = Inr (Some (on_wire g status resp))"
    using len by (simp add: take_response_view [OF ok' s] view' [OF s] v_def Let_def)
  with eq ok' view' show thesis by (auto intro!: that)
qed

text \<open>A server that finds its client gone frees the slot and writes nothing.\<close>

lemma server_complete_abandoned:
  assumes "ring_ok g m" and "s < slot_count g" and "v_state (view g m s) = ST_ABANDONED" and "v_id (view g m s) = rid"
  shows "server_complete m g s rid status resp = (store32 m (slot_off g s + SH_STATE) ST_FREE, Inr Drained)"
  using assms by (simp add: server_complete_def Let_def state_ref_eq drain_def compare_exchange_eq view_simps)

text \<open>\<^verbatim>\<open>abandon\<close> returns, and leaves a slot a server has to that server.\<close>

lemma abandon_view:
  assumes "ring_ok g m" and "s < slot_count g"
  shows "abandon m g s = (let st = v_state (view g m s) in
    if st = ST_PROCESSING then Some (store32 m (slot_off g s + SH_STATE) ST_ABANDONED, Inr Retired)
    else if st = ST_ABANDONED then Some (m, Inr Retired)
    else if st \<in> {ST_CLAIMED, ST_SUBMITTED, ST_COMPLETED} then Some (store32 m (slot_off g s + SH_STATE) ST_FREE, Inr Freed)
    else Some (m, Inr Freed))"
  using assms by (auto simp: abandon_def state_ref_eq abandon_move_def compare_exchange_eq Let_def view_simps st_defs)

section \<open>A new ring\<close>

lemma seg_read_write:
  "in_bounds m off 4 \<Longrightarrow> seg_read_u32 (seg_write_u32 m off v) off = Some v"
  "in_bounds m off 8 \<Longrightarrow> seg_read_u64 (seg_write_u64 m off w) off = Some w"
  "off' + 4 \<le> off \<or> off + 4 \<le> off' \<Longrightarrow> seg_read_u32 (seg_write_u32 m off v) off' = seg_read_u32 m off'"
  "off' + 4 \<le> off \<or> off + 8 \<le> off' \<Longrightarrow> seg_read_u32 (seg_write_u64 m off w) off' = seg_read_u32 m off'"
  "off' + 8 \<le> off \<or> off + 4 \<le> off' \<Longrightarrow> seg_read_u64 (seg_write_u32 m off v) off' = seg_read_u64 m off'"
  "off' + 8 \<le> off \<or> off + 8 \<le> off' \<Longrightarrow> seg_read_u64 (seg_write_u64 m off w) off' = seg_read_u64 m off'"
  using load32_store32 [of off m v] load64_store64 [of off m w] load32_overwrite [of off "u32_le v" m off']
    load32_overwrite [of off "u64_le w" m off'] load64_overwrite [of off "u32_le v" m off'] load64_overwrite [of off "u64_le w" m off']
  by (auto simp: seg_read_u32_def seg_read_u64_def seg_write_u32_def seg_write_u64_def write_bytes_def in_bounds_def load32_def load64_def)

lemma in_bounds_write [simp]:
  "in_bounds (seg_write_u32 m off v) a k = in_bounds m a k" "in_bounds (seg_write_u64 m off w) a k = in_bounds m a k"
  by (simp_all add: in_bounds_def)

definition free_all :: "geom \<Rightarrow> nat \<Rightarrow> seg \<Rightarrow> seg" where
  "free_all g k m = fold (\<lambda>s m. seg_write_u32 m (slot_off g (word_of_nat s) + SH_STATE) ST_FREE) [0..<k] m"

lemma free_all_Suc:
  "free_all g (Suc k) m = seg_write_u32 (free_all g k m) (slot_off g (word_of_nat k) + SH_STATE) ST_FREE"
  by (simp add: free_all_def)

lemma length_free_all [simp]: "length (free_all g k m) = length m"
  by (induction k) (simp_all add: free_all_def)

lemma length_ring_init: "ring_init m n cap = (m', r) \<Longrightarrow> length m' = length m"
  by (auto simp: ring_init_def Let_def free_all_def [symmetric] split: if_splits)

lemma slot_off_far: "off + n \<le> 48 \<Longrightarrow> off + n \<le> slot_off g s + SH_STATE"
  by (simp add: slot_off_def size_defs)

lemma free_all_header:
  "off + 4 \<le> 48 \<Longrightarrow> seg_read_u32 (free_all g k m) off = seg_read_u32 m off"
  "off + 8 \<le> 48 \<Longrightarrow> seg_read_u64 (free_all g k m) off = seg_read_u64 m off"
  using slot_off_far [of off 4 g] slot_off_far [of off 8 g]
  by (induction k) (simp_all add: free_all_Suc seg_read_write, simp_all add: free_all_def)

lemma unat_u32: "unat w < 2 ^ 32" for w :: u32
  using unsigned_less [of w] by simp

lemma free_all_free:
  assumes "ring_ok g m" and "k \<le> unat (slot_count g)" and "unat t < k"
  shows "v_state (view g (free_all g k m) t) = ST_FREE"
  using assms(2,3)
proof (induction k)
  case (Suc k)
  define m' where "m' = free_all g k m"
  have ok: "ring_ok g m'" unfolding m'_def by (rule ring_ok_length [OF assms(1)]) simp
  have "k < 2 ^ 32" using Suc.prems(1) unat_u32 [of "slot_count g"] by linarith
  then have uk: "unat (word_of_nat k :: u32) = k" by (rule unat_of_nat_u32)
  have k: "word_of_nat k < slot_count g" and t: "t < slot_count g"
    using Suc.prems uk by (simp_all add: word_less_nat_alt)
  have "seg_write_u32 m' (slot_off g (word_of_nat k) + SH_STATE) ST_FREE = store32 m' (slot_off g (word_of_nat k) + SH_STATE) ST_FREE"
    by (rule write_word_slot(1) [OF ok k]) (simp add: sh_defs)
  then have eq: "view g (free_all g (Suc k) m) t =
      (if t = word_of_nat k then (view g m' (word_of_nat k))\<lparr>v_state := ST_FREE\<rparr> else view g m' t)"
    unfolding free_all_Suc m'_def [symmetric] by (simp add: view_store32(1) [OF ok k t])
  show ?case
  proof (cases "t = word_of_nat k")
    case False
    then have "unat t < k" using Suc.prems(2) uk by (metis less_Suc_eq word_unat_eq_iff)
    with Suc False show ?thesis by (simp add: eq m'_def)
  next
    case True
    with eq show ?thesis by simp
  qed
qed simp

text \<open>A ring laid out by \<^verbatim>\<open>init\<close> is one \<^verbatim>\<open>open\<close> accepts, with every slot free and the counters zero.\<close>

lemma ring_init_ok:
  assumes init: "ring_init m n cap = (m', Inr g)" and stride: "align8 (SLOT_HEADER_SIZE + unat cap) < 2 ^ 32"
    and len: "length m < 2 ^ 64"
  shows "ring_ok g m'" and "ring_open m' = Inr g" and "g = \<lparr>slot_count = n, slot_stride = word_of_nat (align8 (SLOT_HEADER_SIZE + unat cap)), payload_cap = cap\<rparr>"
    and "s < n \<Longrightarrow> v_state (view g m' s) = ST_FREE"
    and "seg_read_u64 m' RH_REQ_SEQ = Some 0" and "reg_generation m' = 0" and "worker_hint m' = 0"
proof -
  define stride where "stride = align8 (SLOT_HEADER_SIZE + unat cap)"
  define g0 where "g0 = \<lparr>slot_count = n, slot_stride = word_of_nat stride, payload_cap = cap\<rparr>"
  define m1 where "m1 = seg_write_u64 (seg_write_u32 (seg_write_u64 (seg_write_u32 (seg_write_u32 (seg_write_u32 (seg_write_u32
     (seg_write_u32 (seg_write_u32 m RH_MAGIC MAGIC) RH_VERSION VERSION) RH_SLOT_COUNT n) RH_SLOT_STRIDE (word_of_nat stride))
      RH_PAYLOAD_CAP cap) RH_WORKER_HINT 0) RH_REQ_SEQ 0) RH_SUBMIT_SEQ 0) RH_REG_GEN 0"
  have us: "unat (word_of_nat stride :: u32) = stride" using stride by (simp add: stride_def unat_of_nat_u32)
  have "stride \<le> 2 ^ 32" "unat n \<le> 2 ^ 32 - 1" using stride unat_u32 [of n] by (simp_all add: stride_def)
  then have "unat n * stride \<le> (2 ^ 32 - 1) * 2 ^ 32" by (intro mult_le_mono) simp_all
  then have "(RING_HEADER_SIZE + unat n * stride) mod 2 ^ 64 = RING_HEADER_SIZE + unat n * stride"
    by (intro mod_less) (simp add: size_defs)
  then have total: "RING_HEADER_SIZE + unat n * stride \<le> length m" and g: "g = g0" and m': "m' = free_all g0 (unat n) m1"
    using init by (auto simp: ring_init_def Let_def m1_def g0_def stride_def free_all_def split: if_splits)
  have inb: "in_bounds m k 4" if "k + 4 \<le> 48" for k using that total len by (simp add: in_bounds_def size_defs)
  have inb8: "in_bounds m k 8" if "k + 8 \<le> 48" for k using that total len by (simp add: in_bounds_def size_defs)
  have lm: "length m1 = length m" by (simp add: m1_def)
  have ok1: "ring_ok g0 m1" using total len us by (simp add: ring_ok_def g0_def lm stride_def)
  show ok: "ring_ok g m'" unfolding g m' by (rule ring_ok_length [OF ok1]) simp
  show "g = \<lparr>slot_count = n, slot_stride = word_of_nat (align8 (SLOT_HEADER_SIZE + unat cap)), payload_cap = cap\<rparr>"
    by (simp add: g g0_def stride_def)
  show "s < n \<Longrightarrow> v_state (view g m' s) = ST_FREE"
    unfolding g m' using free_all_free [OF ok1, of "unat n" s] by (simp add: g0_def word_less_nat_alt)
  have hdr: "seg_read_u32 m' RH_MAGIC = Some MAGIC" "seg_read_u32 m' RH_VERSION = Some VERSION"
    "seg_read_u32 m' RH_SLOT_COUNT = Some n" "seg_read_u32 m' RH_SLOT_STRIDE = Some (word_of_nat stride)"
    "seg_read_u32 m' RH_PAYLOAD_CAP = Some cap" "seg_read_u32 m' RH_WORKER_HINT = Some 0"
    using inb by (simp_all add: m' free_all_header rh_defs m1_def seg_read_write)
  then show "worker_hint m' = 0" by (simp add: worker_hint_def)
  show "ring_open m' = Inr g"
    using hdr total by (simp add: ring_open_def m' lm g g0_def us stride_def [symmetric])
  show "seg_read_u64 m' RH_REQ_SEQ = Some 0"
    using inb8 by (simp add: m' free_all_header rh_defs m1_def seg_read_write)
  have "seg_read_u64 m' RH_REG_GEN = Some 0"
    using inb8 by (simp add: m' free_all_header rh_defs m1_def seg_read_write)
  then show "reg_generation m' = 0"
    using seq_atomic(3) [OF ok] by (simp add: reg_generation_def seg_read_u64_def load64_def split: if_splits)
qed

section \<open>Scans\<close>

text \<open>The slot a scan looks at on its turn \<open>i\<close>, and the first turn that finds a state.\<close>

definition turn :: "geom \<Rightarrow> u32 \<Rightarrow> nat \<Rightarrow> u32" where
  "turn g start i = (start + word_of_nat i) mod slot_count g"

lemma turn_less: "slot_count g \<noteq> 0 \<Longrightarrow> turn g start i < slot_count g"
  by (simp add: turn_def word_mod_less_divisor word_gt_0)

lemma claim_scan_find:
  assumes "ring_ok g m" and "slot_count g \<noteq> 0"
  shows "claim_scan m g start is =
    (case find (\<lambda>i. v_state (view g m (turn g start i)) = ST_FREE) is of None \<Rightarrow> (m, None)
     | Some i \<Rightarrow> (store32 m (slot_off g (turn g start i) + SH_STATE) ST_CLAIMED, Some (turn g start i)))"
proof (induction "is")
  case (Cons i "is")
  have "turn g start i < slot_count g" by (rule turn_less [OF assms(2)])
  with Cons assms(1) show ?case
    by (simp add: turn_def [symmetric] state_ref_eq compare_exchange_eq view_simps Let_def)
qed simp

lemma take_scan_find:
  assumes "ring_ok g m" and "slot_count g \<noteq> 0"
  shows "take_scan m g start is =
    (case find (\<lambda>i. v_state (view g m (turn g start i)) = ST_SUBMITTED) is of None \<Rightarrow> (m, None)
     | Some i \<Rightarrow> (store32 m (slot_off g (turn g start i) + SH_STATE) ST_PROCESSING, Some (turn g start i)))"
proof (induction "is")
  case (Cons i "is")
  have "turn g start i < slot_count g" by (rule turn_less [OF assms(2)])
  with Cons assms(1) show ?case
    by (simp add: turn_def [symmetric] state_ref_eq compare_exchange_eq view_simps Let_def)
qed simp

text \<open>As long as \<open>start + i\<close> does not wrap, the turns visit every slot.\<close>

lemma unat_turn:
  assumes "unat start + unat (slot_count g) \<le> 2 ^ 32" and "i < unat (slot_count g)"
  shows "unat (turn g start i) = (unat start + i) mod unat (slot_count g)"
proof -
  have "unat (start + word_of_nat i) = unat start + i"
    using assms by (simp add: unat_word_ariths unat_of_nat)
  then show ?thesis by (simp add: turn_def unat_mod_distrib)
qed

lemma turns_cover:
  assumes "unat start + unat (slot_count g) \<le> 2 ^ 32" and "s < slot_count g"
  shows "\<exists>i < unat (slot_count g). turn g start i = s"
proof -
  let ?n = "unat (slot_count g)"
  define i where "i = (unat s + ?n - unat start mod ?n) mod ?n"
  have s: "unat s < ?n" using assms(2) by (simp add: word_less_nat_alt)
  then have i: "i < ?n" by (simp add: i_def)
  have "unat start mod ?n < ?n" using s by simp
  then have "unat start mod ?n + (unat s + ?n - unat start mod ?n) = unat s + ?n" by linarith
  then have "(unat start mod ?n + (unat s + ?n - unat start mod ?n)) mod ?n = unat s"
    using s by simp
  then have "(unat start + i) mod ?n = unat s" unfolding i_def by (simp add: mod_simps)
  then have "turn g start i = s" using unat_turn [OF assms(1) i] by (simp add: word_unat_eq_iff)
  with i show ?thesis by blast
qed

lemma find_upt_Some: "find P [0..<k] = Some i \<longleftrightarrow> i < k \<and> P i \<and> (\<forall>j<i. \<not> P j)"
  by (auto simp: find_Some_iff)

lemma find_upt_None: "find P [0..<k] = None \<longleftrightarrow> (\<forall>i<k. \<not> P i)"
  by (auto simp: find_None_iff)

section \<open>Claims\<close>

text \<open>A ring laid out by \<^verbatim>\<open>init\<close> is opened with the geometry \<^verbatim>\<open>init\<close> returned, for every slot count and
  payload capacity whose stride fits the header's 32-bit field; every slot is then free, the request counter is 0
  and neither a worker count nor a registry generation is published.\<close>

theorem init_then_open:
  assumes "ring_init m n cap = (m', Inr g)" and "align8 (SLOT_HEADER_SIZE + unat cap) < 2 ^ 32" and "length m < 2 ^ 64"
  shows "ring_open m' = Inr g \<and> slot_count g = n \<and> payload_cap g = cap \<and> (\<forall>s<n. slot_state m' g s = Some ST_FREE) \<and>
    seg_read_u64 m' RH_REQ_SEQ = Some 0 \<and> worker_hint m' = 0 \<and> reg_generation m' = 0"
proof -
  note init = ring_init_ok [OF assms]
  have "\<forall>s<n. slot_state m' g s = Some ST_FREE"
    using init(1,3,4) state_ref_eq [OF init(1)] read_slot(1) [OF init(1)] by (simp add: slot_state_def)
  with init show ?thesis by simp
qed

text \<open>\<^verbatim>\<open>claim_free_from\<close> claims the first free slot at or after \<open>start\<close>, wrapping round, and changes nothing but
  that slot's state word; when it finds none the segment is as it was and, the scan not wrapping past
  \<^verbatim>\<open>u32::MAX\<close>, no slot is free.\<close>

theorem claim_free_from_spec:
  assumes "ring_ok g m" and "slot_count g \<noteq> 0"
  shows "case claim_free_from m g start of
     (m', Some s) \<Rightarrow> s < slot_count g \<and> v_state (view g m s) = ST_FREE \<and>
       (\<exists>i. s = turn g start i \<and> (\<forall>j<i. v_state (view g m (turn g start j)) \<noteq> ST_FREE)) \<and>
       (\<forall>t < slot_count g. view g m' t = (if t = s then (view g m s)\<lparr>v_state := ST_CLAIMED\<rparr> else view g m t))
   | (m', None) \<Rightarrow> m' = m \<and>
       (unat start + unat (slot_count g) \<le> 2 ^ 32 \<longrightarrow> (\<forall>s < slot_count g. v_state (view g m s) \<noteq> ST_FREE))"
proof (cases "find (\<lambda>i. v_state (view g m (turn g start i)) = ST_FREE) [0..<unat (slot_count g)]")
  case None
  then have "\<forall>i<unat (slot_count g). v_state (view g m (turn g start i)) \<noteq> ST_FREE" by (simp add: find_upt_None)
  then show ?thesis using None turns_cover [of start g]
    by (fastforce simp: claim_free_from_def claim_scan_find [OF assms])
next
  case (Some i)
  then have eq: "claim_free_from m g start = (store32 m (slot_off g (turn g start i) + SH_STATE) ST_CLAIMED, Some (turn g start i))"
    by (simp add: claim_free_from_def claim_scan_find [OF assms])
  show ?thesis unfolding eq using Some turn_less [OF assms(2), of start i] assms(1)
    by (auto simp: find_upt_Some view_simps)
qed

text \<open>\<^verbatim>\<open>server_take_from\<close> takes the first submitted slot at or after \<open>start\<close>, wrapping round, so a worker
  that starts after the slot it last served passes no waiting slot over; it changes nothing but that slot's
  state word, and finds nothing only when no slot is submitted.\<close>

theorem server_take_from_spec:
  assumes "ring_ok g m" and "slot_count g \<noteq> 0"
  shows "case server_take_from m g start of
     (m', Some s) \<Rightarrow> s < slot_count g \<and> v_state (view g m s) = ST_SUBMITTED \<and>
       (\<exists>i. s = turn g start i \<and> (\<forall>j<i. v_state (view g m (turn g start j)) \<noteq> ST_SUBMITTED)) \<and>
       (\<forall>t< slot_count g. view g m' t = (if t = s then (view g m s)\<lparr>v_state := ST_PROCESSING\<rparr> else view g m t))
   | (m', None) \<Rightarrow> m' = m \<and>
       (unat start + unat (slot_count g) \<le> 2 ^ 32 \<longrightarrow> (\<forall>s< slot_count g. v_state (view g m s) \<noteq> ST_SUBMITTED))"
proof (cases "find (\<lambda>i. v_state (view g m (turn g start i)) = ST_SUBMITTED) [0..<unat (slot_count g)]")
  case None
  then have "\<forall>i<unat (slot_count g). v_state (view g m (turn g start i)) \<noteq> ST_SUBMITTED" by (simp add: find_upt_None)
  then show ?thesis using None turns_cover [of start g]
    by (fastforce simp: server_take_from_def take_scan_find [OF assms])
next
  case (Some i)
  then have eq: "server_take_from m g start = (store32 m (slot_off g (turn g start i) + SH_STATE) ST_PROCESSING, Some (turn g start i))"
    by (simp add: server_take_from_def take_scan_find [OF assms])
  show ?thesis unfolding eq using Some turn_less [OF assms(2), of start i] assms(1)
    by (auto simp: find_upt_Some view_simps)
qed

text \<open>C32. A call over the ring returns the handler's answer: the server that takes the slot reads the opcode, flags, id
  and payload that were published, and the client then reads the status and payload the server completed it
  with, or \<^verbatim>\<open>i32::MIN\<close> and no payload when the response exceeds the capacity; no other slot changes, the slot is
  free again at the end and the next request gets another id.\<close>

theorem call_roundtrip:
  assumes "ring_ok g m" and "s < slot_count g" and "length pl \<le> unat (payload_cap g)"
  shows "\<exists>m1 m2 m3 id. publish_request m g s op fl pl = (m1, Inr id) \<and> slot_state m1 g s = Some ST_SUBMITTED \<and>
      m2 = store32 m1 (slot_off g s + SH_STATE) ST_PROCESSING \<and>
      read_request m2 g s = Some (op, fl, id, pl) \<and>
      server_complete m2 g s id status resp = (m3, Inr Delivered) \<and>
      take_response m3 g s id = Inr (Some (on_wire g status resp)) \<and>
      (\<exists>m4. free_slot m3 g s = (m4, Inr ()) \<and> slot_state m4 g s = Some ST_FREE \<and>
        (\<forall>t < slot_count g. t \<noteq> s \<longrightarrow> view g m4 t = view g m t))"
proof -
  note s = assms(2)
  obtain m1 where p: "publish_request m g s op fl pl = (m1, Inr (load64 m RH_REQ_SEQ))" and ok1: "ring_ok g m1"
    and v1: "\<And>t. t < slot_count g \<Longrightarrow> view g m1 t =
      (if t = s then (view g m s)\<lparr>v_state := ST_SUBMITTED, v_opcode := op, v_flags := fl,
         v_len := word_of_nat (length pl), v_id := load64 m RH_REQ_SEQ, v_data := pl @ drop (length pl) (v_data (view g m s))\<rparr>
       else view g m t)"
    by (rule publish_request_view [OF assms, of op fl]) (rule that; blast)
  define m2 where "m2 = store32 m1 (slot_off g s + SH_STATE) ST_PROCESSING"
  have ok2: "ring_ok g m2" using ok1 s by (simp add: m2_def view_simps)
  have v2: "view g m2 t = (if t = s then (view g m1 s)\<lparr>v_state := ST_PROCESSING\<rparr> else view g m1 t)" if "t < slot_count g" for t
    using ok1 s that by (simp add: m2_def view_simps)
  obtain m3 where c: "server_complete m2 g s (load64 m RH_REQ_SEQ) status resp = (m3, Inr Delivered)" and ok3: "ring_ok g m3"
    and v3: "\<And>t. t < slot_count g \<Longrightarrow> t \<noteq> s \<Longrightarrow> view g m3 t = view g m2 t"
    and r: "take_response m3 g s (load64 m RH_REQ_SEQ) = Inr (Some (on_wire g status resp))"
    by (rule server_complete_view [OF ok2 s, of "load64 m RH_REQ_SEQ" status resp])
      (use v1 [OF s] v2 [OF s] in \<open>simp_all add: that\<close>)
  have "unat (word_of_nat (length pl) :: u32) = length pl"
    using assms(3) unat_u32 [of "payload_cap g"] by (intro unat_of_nat_u32) linarith
  then have rd: "read_request m2 g s = Some (op, fl, load64 m RH_REQ_SEQ, pl)"
    using assms(3) by (simp add: read_request_view [OF ok2 s] v2 [OF s] v1 [OF s] Let_def)
  have st: "slot_state m1 g s = Some ST_SUBMITTED"
    using ok1 s v1 [OF s] by (simp add: slot_state_def state_ref_eq view_simps)
  let ?m4 = "store32 m3 (slot_off g s + SH_STATE) ST_FREE"
  have ok4: "ring_ok g ?m4" using ok3 s by (simp add: view_simps)
  have "free_slot m3 g s = (?m4, Inr ())" using ok3 s by (simp add: free_slot_def state_ref_eq)
  moreover have "slot_state ?m4 g s = Some ST_FREE"
    using ok3 ok4 s by (simp add: slot_state_def state_ref_eq read_slot(1) view_store32(1))
  moreover have "view g ?m4 t = view g m t" if "t < slot_count g" "t \<noteq> s" for t
    using ok3 s that v3 v2 v1 by (simp add: view_simps)
  ultimately show ?thesis using p st rd c r unfolding m2_def by blast
qed

section \<open>Witnesses\<close>

text \<open>A ring of one slot with a payload capacity of 8 bytes.\<close>

definition demo_geom :: geom where
  "demo_geom = \<lparr>slot_count = 1, slot_stride = 40, payload_cap = 8\<rparr>"

lemma demo_align: "align8 40 = 40"
  by (simp add: align8_eq)

lemma demo_init: "\<exists>m. ring_init (replicate 4200 0) 1 8 = (m, Inr demo_geom)"
  by (simp add: ring_init_def Let_def size_defs demo_align demo_geom_def)

lemma demo_ring:
  obtains m where "ring_init (replicate 4200 0) 1 8 = (m, Inr demo_geom)" and "ring_ok demo_geom m"
proof -
  obtain m where init: "ring_init (replicate 4200 0) 1 8 = (m, Inr demo_geom)" using demo_init by blast
  show thesis by (rule that [OF init], rule ring_init_ok(1) [OF init]) (simp_all add: size_defs demo_align)
qed

theorem init_then_open_witness:
  "\<exists>m. ring_init (replicate 4200 0) 1 8 = (m, Inr demo_geom) \<and> align8 (SLOT_HEADER_SIZE + unat (8 :: u32)) < 2 ^ 32 \<and>
     ring_open m = Inr demo_geom \<and> slot_state m demo_geom 0 = Some ST_FREE"
proof -
  obtain m where init: "ring_init (replicate 4200 0) 1 8 = (m, Inr demo_geom)" using demo_init by blast
  have stride: "align8 (SLOT_HEADER_SIZE + unat (8 :: u32)) < 2 ^ 32" and len: "length (replicate 4200 (0 :: u8)) < 2 ^ 64"
    by (simp_all add: size_defs demo_align)
  from init_then_open [OF init stride len] init stride show ?thesis by auto
qed

theorem claim_free_from_spec_witness:
  "\<exists>m. ring_ok demo_geom m \<and> slot_count demo_geom \<noteq> 0 \<and>
     (case claim_free_from m demo_geom 0 of (m', Some s) \<Rightarrow> s < slot_count demo_geom
      | (m', None) \<Rightarrow> v_state (view demo_geom m 0) \<noteq> ST_FREE)"
proof (rule demo_ring)
  fix m
  assume ok: "ring_ok demo_geom m"
  have n: "slot_count demo_geom \<noteq> 0" by (simp add: demo_geom_def)
  show ?thesis using claim_free_from_spec [OF ok n, of 0] ok n
    by (intro exI [of _ m]) (auto simp: demo_geom_def split: prod.splits option.splits)
qed

theorem server_take_from_spec_witness:
  "\<exists>m. ring_ok demo_geom m \<and> slot_count demo_geom \<noteq> 0 \<and>
     (case server_take_from m demo_geom 0 of (m', Some s) \<Rightarrow> s < slot_count demo_geom
      | (m', None) \<Rightarrow> v_state (view demo_geom m 0) \<noteq> ST_SUBMITTED)"
proof (rule demo_ring)
  fix m
  assume ok: "ring_ok demo_geom m"
  have n: "slot_count demo_geom \<noteq> 0" by (simp add: demo_geom_def)
  show ?thesis using server_take_from_spec [OF ok n, of 0] ok n
    by (intro exI [of _ m]) (auto simp: demo_geom_def split: prod.splits option.splits)
qed

theorem call_roundtrip_witness:
  "\<exists>m m1 rid. ring_ok demo_geom m \<and> (0 :: u32) < slot_count demo_geom \<and> length [7 :: u8] \<le> unat (payload_cap demo_geom) \<and>
     publish_request m demo_geom 0 1 0 [7] = (m1, Inr rid)"
proof (rule demo_ring)
  fix m
  assume ok: "ring_ok demo_geom m"
  have h: "(0 :: u32) < slot_count demo_geom" "length [7 :: u8] \<le> unat (payload_cap demo_geom)" by (simp_all add: demo_geom_def)
  from call_roundtrip [OF ok h, of 1 0 5 "[1]"] ok h show ?thesis by blast
qed

end
