(* ===== verification/Ring_Machine.thy ===== *)
theory Ring_Machine
  imports Ring
begin

text \<open>
  Several client and server threads on one ring. A thread is a program counter with its local variables; a step is
  one access to the shared bytes, in the order \<^verbatim>\<open>ring.rs\<close> and \<^verbatim>\<open>endpoint.rs\<close> make them: the statements of
  \<^verbatim>\<open>publish_request\<close>, \<^verbatim>\<open>take_response\<close>, \<^verbatim>\<open>free_slot\<close> and \<^verbatim>\<open>abandon\<close> for a request in flight, and those of
  \<^verbatim>\<open>server_take\<close>, \<^verbatim>\<open>read_request\<close> and \<^verbatim>\<open>server_complete\<close> for a worker in \<^verbatim>\<open>serve_one\<close>. Threads interleave in any
  order. A caller of \<^verbatim>\<open>submit_many_held\<close> is one client of this machine for each request of its batch.

  The handler is a parameter: \<open>answers r id x\<close> holds when \<open>x\<close> is an answer it may give to the request \<open>r\<close> with id
  \<open>id\<close>, the bytes it puts into the slot's arena bank included. A failed attempt to claim or take a slot changes
  nothing and is not a step. The machine is sequentially consistent; \<open>no_data_race\<close> shows that the accesses
  that are not atomic in the code are never concurrent.
\<close>

section \<open>Threads\<close>

record request =
  rq_op :: u32
  rq_flags :: u32
  rq_payload :: bytes

text \<open>What a handler does with a request: the status and payload it returns, and what it put in the bank.\<close>

record answer =
  an_status :: u32
  an_resp :: bytes
  an_bulk :: bytes

record call =
  c_slot :: u32
  c_req :: request
  c_id :: u64

text \<open>The next access of a client: \<open>P_Id\<close> is the write of the request id, \<open>P_Bump\<close> the count of submissions,
  \<open>P_Wait\<close> the load of the state, \<open>P_Bank\<close> the copy out of the arena, \<open>P_Free\<close> the store that frees the slot,
  \<open>P_Abandon\<close> and \<open>P_Swap\<close> the load and the compare-and-swap of \<^verbatim>\<open>abandon\<close>.\<close>

datatype cpoint =
    P_Claimed | P_Opcode | P_Flags | P_Len | P_Id | P_Payload | P_State | P_Bump | P_Wait
  | P_Ack | P_Status | P_RLen u32 | P_RData u32 nat | P_Bank u32 bytes | P_Free u32 bytes bytes
  | P_Abandon ipc_error | P_Swap ipc_error u32 u32 abandoned

datatype cpc = C_Idle | C_Run call cpoint | C_Done request u64 u32 bytes bytes | C_Failed ipc_error abandoned

datatype spoint =
    Q_Opcode | Q_Flags u32 | Q_Id u32 u32 | Q_Len u32 u32 u64 | Q_Payload u32 u32 u64 nat
  | Q_Handle request u64 | Q_Fill request u64 answer | Q_Check request u64 answer | Q_Load request u64 answer
  | Q_Data request u64 answer | Q_Status request u64 answer | Q_WLen request u64 answer | Q_WAck request u64 answer
  | Q_Cas request u64 answer | Q_Drain | Q_Broken

datatype spc = S_Idle "completion option" | S_Run u32 spoint

fun cslot :: "cpc \<Rightarrow> u32 option" where
  "cslot (C_Run k pt) = Some (c_slot k)"
| "cslot _ = None"

fun sslot :: "spc \<Rightarrow> u32 option" where
  "sslot (S_Run s q) = Some s"
| "sslot _ = None"

section \<open>Steps\<close>

abbreviation state_at :: "geom \<Rightarrow> seg \<Rightarrow> u32 \<Rightarrow> u32" where
  "state_at g m s \<equiv> load32 m (slot_off g s + SH_STATE)"

abbreviation set_state :: "geom \<Rightarrow> seg \<Rightarrow> u32 \<Rightarrow> u32 \<Rightarrow> seg" where
  "set_state g m s v \<equiv> store32 m (slot_off g s + SH_STATE) v"

inductive client_step :: "geom \<Rightarrow> data_arena \<Rightarrow> seg \<Rightarrow> cpc \<Rightarrow> seg \<Rightarrow> cpc \<Rightarrow> bool" for g a where
  claim: "cslot p = None \<Longrightarrow> length (rq_payload r) \<le> unat (payload_cap g) \<Longrightarrow> s < slot_count g \<Longrightarrow>
    state_at g m s = ST_FREE \<Longrightarrow>
    client_step g a m p (set_state g m s ST_CLAIMED) (C_Run \<lparr>c_slot = s, c_req = r, c_id = 0\<rparr> P_Claimed)"
| new_id: "client_step g a m (C_Run k P_Claimed)
    (store64 m RH_REQ_SEQ (load64 m RH_REQ_SEQ + 1)) (C_Run (k\<lparr>c_id := load64 m RH_REQ_SEQ\<rparr>) P_Opcode)"
| put_opcode: "client_step g a m (C_Run k P_Opcode)
    (seg_write_u32 m (slot_off g (c_slot k) + SH_OPCODE) (rq_op (c_req k))) (C_Run k P_Flags)"
| put_flags: "client_step g a m (C_Run k P_Flags)
    (seg_write_u32 m (slot_off g (c_slot k) + SH_FLAGS) (rq_flags (c_req k))) (C_Run k P_Len)"
| put_len: "client_step g a m (C_Run k P_Len)
    (seg_write_u32 m (slot_off g (c_slot k) + SH_PAYLOAD_LEN) (word_of_nat (length (rq_payload (c_req k))))) (C_Run k P_Id)"
| put_id: "client_step g a m (C_Run k P_Id)
    (seg_write_u64 m (slot_off g (c_slot k) + SH_REQ_ID) (c_id k)) (C_Run k P_Payload)"
| put_payload: "client_step g a m (C_Run k P_Payload)
    (fst (write_bytes m (payload_off g (c_slot k)) (rq_payload (c_req k)))) (C_Run k P_State)"
| submit: "client_step g a m (C_Run k P_State) (set_state g m (c_slot k) ST_SUBMITTED) (C_Run k P_Bump)"
| bump: "client_step g a m (C_Run k P_Bump)
    (store32 m RH_SUBMIT_SEQ (load32 m RH_SUBMIT_SEQ + 1)) (C_Run k P_Wait)"
| wait: "state_at g m (c_slot k) \<noteq> ST_COMPLETED \<Longrightarrow> client_step g a m (C_Run k P_Wait) m (C_Run k P_Wait)"
| completed: "state_at g m (c_slot k) = ST_COMPLETED \<Longrightarrow> client_step g a m (C_Run k P_Wait) m (C_Run k P_Ack)"
| give_up: "e \<in> {Timeout, RingFull} \<Longrightarrow> client_step g a m (C_Run k P_Wait) m (C_Run k (P_Abandon e))"
| ack: "seg_read_u32 m (slot_off g (c_slot k) + SH_ACK) = Some (ucast (c_id k)) \<Longrightarrow>
    client_step g a m (C_Run k P_Ack) m (C_Run k P_Status)"
| bad_ack: "seg_read_u32 m (slot_off g (c_slot k) + SH_ACK) \<noteq> Some (ucast (c_id k)) \<Longrightarrow>
    client_step g a m (C_Run k P_Ack) m (C_Run k (P_Abandon BadResponse))"
| get_status: "seg_read_i32 m (slot_off g (c_slot k) + SH_STATUS) = Some st \<Longrightarrow>
    client_step g a m (C_Run k P_Status) m (C_Run k (P_RLen st))"
| get_len: "seg_read_u32 m (slot_off g (c_slot k) + SH_PAYLOAD_LEN) = Some n \<Longrightarrow> unat n \<le> unat (payload_cap g) \<Longrightarrow>
    client_step g a m (C_Run k (P_RLen st)) m (C_Run k (P_RData st (unat n)))"
| bad_len: "seg_read_u32 m (slot_off g (c_slot k) + SH_PAYLOAD_LEN) = Some n \<Longrightarrow> unat n > unat (payload_cap g) \<Longrightarrow>
    client_step g a m (C_Run k (P_RLen st)) m (C_Run k (P_Abandon BadResponse))"
| get_payload: "read_bytes m (payload_off g (c_slot k)) n = Some d \<Longrightarrow>
    client_step g a m (C_Run k (P_RData st n)) m (C_Run k (P_Bank st d))"
| copy_bank: "n \<le> bank_size a \<Longrightarrow> copy_to m (bank_mapping_offset a (c_slot k)) n = Some bk \<Longrightarrow>
    client_step g a m (C_Run k (P_Bank st d)) m (C_Run k (P_Free st d bk))"
| drop_held: "e \<in> {Timeout, RingFull} \<Longrightarrow> client_step g a m (C_Run k (P_Bank st d)) m (C_Run k (P_Abandon e))"
| release: "client_step g a m (C_Run k (P_Free st d bk)) (set_state g m (c_slot k) ST_FREE)
    (C_Done (c_req k) (c_id k) st d bk)"
| leave: "abandon_move (state_at g m (c_slot k)) = Inl o1 \<Longrightarrow> client_step g a m (C_Run k (P_Abandon e)) m (C_Failed e o1)"
| choose: "abandon_move (state_at g m (c_slot k)) = Inr (old, new, o1) \<Longrightarrow>
    client_step g a m (C_Run k (P_Abandon e)) m (C_Run k (P_Swap e old new o1))"
| swap: "state_at g m (c_slot k) = old \<Longrightarrow>
    client_step g a m (C_Run k (P_Swap e old new o1)) (set_state g m (c_slot k) new) (C_Failed e o1)"
| again: "state_at g m (c_slot k) \<noteq> old \<Longrightarrow>
    client_step g a m (C_Run k (P_Swap e old new o1)) m (C_Run k (P_Abandon e))"

inductive server_step :: "geom \<Rightarrow> data_arena \<Rightarrow> (request \<Rightarrow> u64 \<Rightarrow> answer \<Rightarrow> bool) \<Rightarrow> seg \<Rightarrow> spc \<Rightarrow> seg \<Rightarrow> spc \<Rightarrow> bool"
  for g a answers where
  grab: "s < slot_count g \<Longrightarrow> state_at g m s = ST_SUBMITTED \<Longrightarrow>
    server_step g a answers m (S_Idle o1) (set_state g m s ST_PROCESSING) (S_Run s Q_Opcode)"
| rd_opcode: "seg_read_u32 m (slot_off g s + SH_OPCODE) = Some op \<Longrightarrow>
    server_step g a answers m (S_Run s Q_Opcode) m (S_Run s (Q_Flags op))"
| rd_flags: "seg_read_u32 m (slot_off g s + SH_FLAGS) = Some fl \<Longrightarrow>
    server_step g a answers m (S_Run s (Q_Flags op)) m (S_Run s (Q_Id op fl))"
| rd_id: "seg_read_u64 m (slot_off g s + SH_REQ_ID) = Some rid \<Longrightarrow>
    server_step g a answers m (S_Run s (Q_Id op fl)) m (S_Run s (Q_Len op fl rid))"
| rd_len: "seg_read_u32 m (slot_off g s + SH_PAYLOAD_LEN) = Some n \<Longrightarrow> unat n \<le> unat (payload_cap g) \<Longrightarrow>
    server_step g a answers m (S_Run s (Q_Len op fl rid)) m (S_Run s (Q_Payload op fl rid (unat n)))"
| rd_bad_len: "seg_read_u32 m (slot_off g s + SH_PAYLOAD_LEN) = Some n \<Longrightarrow> unat n > unat (payload_cap g) \<Longrightarrow>
    server_step g a answers m (S_Run s (Q_Len op fl rid)) m (S_Run s Q_Broken)"
| rd_payload: "read_bytes m (payload_off g s) n = Some d \<Longrightarrow>
    server_step g a answers m (S_Run s (Q_Payload op fl rid n)) m
      (S_Run s (Q_Handle \<lparr>rq_op = op, rq_flags = fl, rq_payload = d\<rparr> rid))"
| handle: "answers r rid x \<Longrightarrow> length (an_bulk x) \<le> bank_size a \<Longrightarrow>
    server_step g a answers m (S_Run s (Q_Handle r rid)) m (S_Run s (Q_Fill r rid x))"
| fill: "server_step g a answers m (S_Run s (Q_Fill r rid x))
    (fst (write_bytes m (bank_mapping_offset a s) (an_bulk x))) (S_Run s (Q_Check r rid x))"
| check: "seg_read_u64 m (slot_off g s + SH_REQ_ID) = Some rid \<Longrightarrow>
    server_step g a answers m (S_Run s (Q_Check r rid x)) m (S_Run s (Q_Load r rid x))"
| other_id: "seg_read_u64 m (slot_off g s + SH_REQ_ID) \<noteq> Some rid \<Longrightarrow>
    server_step g a answers m (S_Run s (Q_Check r rid x)) m (S_Idle (Some Stale))"
| wanted: "state_at g m s = ST_PROCESSING \<Longrightarrow>
    server_step g a answers m (S_Run s (Q_Load r rid x)) m (S_Run s (Q_Data r rid x))"
| unwanted: "state_at g m s = ST_ABANDONED \<Longrightarrow>
    server_step g a answers m (S_Run s (Q_Load r rid x)) m (S_Run s Q_Drain)"
| not_ours: "state_at g m s \<notin> {ST_PROCESSING, ST_ABANDONED} \<Longrightarrow>
    server_step g a answers m (S_Run s (Q_Load r rid x)) m (S_Idle (Some Stale))"
| wr_payload: "length (an_resp x) \<le> unat (payload_cap g) \<Longrightarrow>
    server_step g a answers m (S_Run s (Q_Data r rid x))
      (fst (write_bytes m (payload_off g s) (an_resp x))) (S_Run s (Q_Status r rid x))"
| too_long: "length (an_resp x) > unat (payload_cap g) \<Longrightarrow>
    server_step g a answers m (S_Run s (Q_Data r rid x)) m (S_Run s (Q_Status r rid x))"
| wr_status: "server_step g a answers m (S_Run s (Q_Status r rid x))
    (seg_write_i32 m (slot_off g s + SH_STATUS) (fst (on_wire g (an_status x) (an_resp x)))) (S_Run s (Q_WLen r rid x))"
| wr_len: "server_step g a answers m (S_Run s (Q_WLen r rid x))
    (seg_write_u32 m (slot_off g s + SH_PAYLOAD_LEN) (word_of_nat (length (snd (on_wire g (an_status x) (an_resp x))))))
    (S_Run s (Q_WAck r rid x))"
| wr_ack: "server_step g a answers m (S_Run s (Q_WAck r rid x))
    (seg_write_u32 m (slot_off g s + SH_ACK) (ucast rid)) (S_Run s (Q_Cas r rid x))"
| publish: "state_at g m s = ST_PROCESSING \<Longrightarrow>
    server_step g a answers m (S_Run s (Q_Cas r rid x)) (set_state g m s ST_COMPLETED) (S_Idle (Some Delivered))"
| gave_up: "state_at g m s = ST_ABANDONED \<Longrightarrow>
    server_step g a answers m (S_Run s (Q_Cas r rid x)) m (S_Run s Q_Drain)"
| lost: "state_at g m s \<notin> {ST_PROCESSING, ST_ABANDONED} \<Longrightarrow>
    server_step g a answers m (S_Run s (Q_Cas r rid x)) m (S_Idle (Some Stale))"
| drained: "state_at g m s = ST_ABANDONED \<Longrightarrow>
    server_step g a answers m (S_Run s Q_Drain) (set_state g m s ST_FREE) (S_Idle (Some Drained))"
| not_drained: "state_at g m s \<noteq> ST_ABANDONED \<Longrightarrow>
    server_step g a answers m (S_Run s Q_Drain) m (S_Idle (Some Stale))"

record sys =
  mem :: seg
  cl :: "nat \<Rightarrow> cpc"
  sv :: "nat \<Rightarrow> spc"

datatype agent = Client nat | Server nat

inductive ring_step :: "geom \<Rightarrow> data_arena \<Rightarrow> (request \<Rightarrow> u64 \<Rightarrow> answer \<Rightarrow> bool) \<Rightarrow> sys \<Rightarrow> agent \<Rightarrow> sys \<Rightarrow> bool"
  for g a answers where
  by_client: "client_step g a (mem x) (cl x c) m p \<Longrightarrow>
    ring_step g a answers x (Client c) (x\<lparr>mem := m, cl := (cl x)(c := p)\<rparr>)"
| by_server: "server_step g a answers (mem x) (sv x k) m q \<Longrightarrow>
    ring_step g a answers x (Server k) (x\<lparr>mem := m, sv := (sv x)(k := q)\<rparr>)"

text \<open>The director lays the arena out behind the ring, one bank for each slot.\<close>

definition arena_ok :: "geom \<Rightarrow> data_arena \<Rightarrow> seg \<Rightarrow> bool" where
  "arena_ok g a m \<longleftrightarrow> banks a = unat (slot_count g) \<and>
     RING_HEADER_SIZE + unat (slot_count g) * unat (slot_stride g) \<le> mapping_offset a \<and>
     mapping_offset a + banks a * bank_size a \<le> length m"

inductive reach :: "geom \<Rightarrow> data_arena \<Rightarrow> (request \<Rightarrow> u64 \<Rightarrow> answer \<Rightarrow> bool) \<Rightarrow> sys \<Rightarrow> bool" for g a answers where
  start: "ring_init m n cap = (m', Inr g) \<Longrightarrow> align8 (SLOT_HEADER_SIZE + unat cap) < 2 ^ 32 \<Longrightarrow> length m < 2 ^ 64 \<Longrightarrow>
    arena_ok g a m' \<Longrightarrow> reach g a answers \<lparr>mem = m', cl = \<lambda>_. C_Idle, sv = \<lambda>_. S_Idle None\<rparr>"
| step: "reach g a answers x \<Longrightarrow> ring_step g a answers x w y \<Longrightarrow> reach g a answers y"

section \<open>Banks\<close>

definition bank :: "data_arena \<Rightarrow> seg \<Rightarrow> u32 \<Rightarrow> bytes" where
  "bank a m s = rd_range m (bank_mapping_offset a s) (bank_size a)"

definition mem_ok :: "geom \<Rightarrow> data_arena \<Rightarrow> seg \<Rightarrow> bool" where
  "mem_ok g a m \<longleftrightarrow> ring_ok g m \<and> arena_ok g a m"

lemma mem_ok_length: "mem_ok g a m \<Longrightarrow> length m' = length m \<Longrightarrow> mem_ok g a m'"
  using ring_ok_length [of g m m'] by (auto simp: mem_ok_def arena_ok_def)

lemma bank_fits:
  assumes "mem_ok g a m" and "s < slot_count g"
  shows "bank_mapping_offset a s + bank_size a \<le> length m" and "mapping_offset a \<le> bank_mapping_offset a s"
proof -
  have "unat s < banks a" using assms by (simp add: mem_ok_def arena_ok_def word_less_nat_alt)
  then have "bank_index a s + 1 \<le> banks a" by (simp add: bank_index_def)
  then have "(bank_index a s + 1) * bank_size a \<le> banks a * bank_size a" by (rule mult_le_mono1)
  then show "bank_mapping_offset a s + bank_size a \<le> length m"
    using assms(1) by (auto simp: mem_ok_def arena_ok_def bank_mapping_offset_def)
qed (simp add: bank_mapping_offset_def)

lemma slot_below_bank:
  assumes "mem_ok g a m" and "s < slot_count g" and "t < slot_count g"
  shows "slot_off g s + (32 + unat (payload_cap g)) \<le> bank_mapping_offset a t"
proof -
  have ok: "ring_ok g m" using assms(1) by (simp add: mem_ok_def)
  have "unat s + 1 \<le> unat (slot_count g)" using assms(2) by (simp add: word_less_nat_alt Suc_le_eq)
  then have "(unat s + 1) * unat (slot_stride g) \<le> unat (slot_count g) * unat (slot_stride g)" by (rule mult_le_mono1)
  then have "slot_off g s + (32 + unat (payload_cap g)) \<le> mapping_offset a"
    using ring_okD(1) [OF ok] assms(1) by (simp add: slot_off_def mem_ok_def arena_ok_def size_defs)
  then show ?thesis using bank_fits(2) [OF assms(1,3)] by linarith
qed

text \<open>A write inside a slot or the header keeps every bank; a write inside a bank keeps every slot and the other
  banks.\<close>

lemma bank_low:
  assumes "off + length d \<le> length m" and "off + length d \<le> bank_mapping_offset a t"
  shows "bank a (overwrite m off d) t = bank a m t"
  unfolding bank_def by (rule segc.rd_other) (use assms in auto)

lemma bank_slot [view_simps]:
  assumes "mem_ok g a m" and "s < slot_count g" and "t < slot_count g"
  shows "bank a (set_state g m s v) t = bank a m t"
    and "bank a (seg_write_u32 m (slot_off g s + SH_OPCODE) v) t = bank a m t"
    and "bank a (seg_write_u32 m (slot_off g s + SH_FLAGS) v) t = bank a m t"
    and "bank a (seg_write_u32 m (slot_off g s + SH_PAYLOAD_LEN) v) t = bank a m t"
    and "bank a (seg_write_i32 m (slot_off g s + SH_STATUS) v) t = bank a m t"
    and "bank a (seg_write_u32 m (slot_off g s + SH_ACK) v) t = bank a m t"
    and "bank a (seg_write_u64 m (slot_off g s + SH_REQ_ID) w) t = bank a m t"
    and "length d \<le> unat (payload_cap g) \<Longrightarrow> bank a (fst (write_bytes m (payload_off g s) d)) t = bank a m t"
proof -
  have ok: "ring_ok g m" using assms(1) by (simp add: mem_ok_def)
  have low: "bank a (overwrite m (slot_off g s + k) d) t = bank a m t" if "k + length d \<le> 32 + unat (payload_cap g)" for k d
    using slot_fits(1) [OF ok assms(2)] slot_below_bank [OF assms] that by (intro bank_low) linarith+
  have word: "bank a (store32 m (slot_off g s + k) v) t = bank a m t" if "k + 4 \<le> 32" for k
    unfolding store32_def by (rule low) (use that in simp)
  show "bank a (set_state g m s v) t = bank a m t" by (rule word) (simp add: sh_defs)
  have u32: "bank a (seg_write_u32 m (slot_off g s + k) v) t = bank a m t"
    "bank a (seg_write_i32 m (slot_off g s + k) v) t = bank a m t" if "k + 4 \<le> 32" for k
    using word [OF that] by (simp_all add: write_word_slot [OF ok assms(2) that])
  show "bank a (seg_write_u32 m (slot_off g s + SH_OPCODE) v) t = bank a m t"
    "bank a (seg_write_u32 m (slot_off g s + SH_FLAGS) v) t = bank a m t"
    "bank a (seg_write_u32 m (slot_off g s + SH_PAYLOAD_LEN) v) t = bank a m t"
    "bank a (seg_write_i32 m (slot_off g s + SH_STATUS) v) t = bank a m t"
    "bank a (seg_write_u32 m (slot_off g s + SH_ACK) v) t = bank a m t"
    by (rule u32, simp add: sh_defs)+
  show "bank a (seg_write_u64 m (slot_off g s + SH_REQ_ID) w) t = bank a m t"
    unfolding write_id_slot(1) [OF ok assms(2)] store64_def by (rule low) (simp add: sh_defs)
  show "length d \<le> unat (payload_cap g) \<Longrightarrow> bank a (fst (write_bytes m (payload_off g s) d)) t = bank a m t"
    using low [of 32 d] by (simp add: write_bytes_def payload_off_def size_defs)
qed

lemma bank_header [view_simps]:
  assumes "mem_ok g a m" and "t < slot_count g"
  shows "bank a (store64 m RH_REQ_SEQ w) t = bank a m t" and "bank a (store32 m RH_SUBMIT_SEQ v) t = bank a m t"
proof -
  have "48 \<le> bank_mapping_offset a t" "48 \<le> length m"
    using slot_below_bank [OF assms(1) assms(2) assms(2)] bank_fits [OF assms] slot_fits(2) [of g m t] assms
    by (auto simp: mem_ok_def)
  then show "bank a (store64 m RH_REQ_SEQ w) t = bank a m t" "bank a (store32 m RH_SUBMIT_SEQ v) t = bank a m t"
    by (auto intro!: bank_low simp: store64_def store32_def rh_defs)
qed

lemma write_bank_eq:
  assumes "mem_ok g a m" and "s < slot_count g" and "length d \<le> bank_size a"
  shows "fst (write_bytes m (bank_mapping_offset a s) d) = overwrite m (bank_mapping_offset a s) d"
  using bank_fits(1) [OF assms(1,2)] ring_okD(4) [of g m] assms
  by (simp add: write_bytes_def in_bounds_def mem_ok_def)

lemma view_bank [view_simps]:
  assumes "mem_ok g a m" and "s < slot_count g" and "t < slot_count g" and "length d \<le> bank_size a"
  shows "view g (fst (write_bytes m (bank_mapping_offset a s) d)) t = view g m t"
proof -
  have fit: "bank_mapping_offset a s + length d \<le> length m" using bank_fits(1) [OF assms(1,2)] assms(4) by linarith
  have "slot_off g t + (32 + unat (payload_cap g)) \<le> bank_mapping_offset a s"
    by (rule slot_below_bank [OF assms(1,3,2)])
  then show ?thesis using fit unfolding write_bank_eq [OF assms(1,2,4)]
    by (simp add: view_def sh_defs load32_overwrite load64_overwrite segc.rd_other payload_off_def size_defs)
qed

lemma bank_write [view_simps]:
  assumes "mem_ok g a m" and "s < slot_count g" and "t < slot_count g" and "length d \<le> bank_size a"
  shows "bank a (fst (write_bytes m (bank_mapping_offset a s) d)) t =
    (if t = s then d @ drop (length d) (bank a m s) else bank a m t)"
proof (cases "t = s")
  case True
  then show ?thesis unfolding write_bank_eq [OF assms(1,2,4)] bank_def
    using bank_fits(1) [OF assms(1,2)] assms(4) by (simp add: rd_range_front)
next
  case False
  have "bank_index a s \<noteq> bank_index a t"
    using assms(1-3) False by (intro bank_index_inj) (auto simp: mem_ok_def arena_ok_def word_less_nat_alt)
  from banks_apart [OF this] False show ?thesis unfolding write_bank_eq [OF assms(1,2,4)] bank_def
    using bank_fits(1) [OF assms(1,2)] assms(4) by (simp, intro segc.rd_other) linarith+
qed

lemma mem_ok_ring [simp]: "mem_ok g a m \<Longrightarrow> ring_ok g m"
  by (simp add: mem_ok_def)

lemma mem_ok_write [view_simps]:
  assumes "mem_ok g a m"
  shows "mem_ok g a (seg_write_u32 m off v)" "mem_ok g a (seg_write_i32 m off v)" "mem_ok g a (seg_write_u64 m off w)"
    "mem_ok g a (fst (write_bytes m off d))" "s < slot_count g \<Longrightarrow> mem_ok g a (set_state g m s v)"
    "mem_ok g a (store64 m RH_REQ_SEQ w)" "mem_ok g a (store32 m RH_SUBMIT_SEQ v)"
proof -
  have ok: "ring_ok g m" using assms by simp
  have "24 + 8 \<le> length m" "32 + 4 \<le> length m" using ring_okD(3) [OF ok] by (simp_all add: size_defs)
  then show "mem_ok g a (store64 m RH_REQ_SEQ w)" "mem_ok g a (store32 m RH_SUBMIT_SEQ v)"
    by (auto intro!: mem_ok_length [OF assms] simp: rh_defs)
  show "s < slot_count g \<Longrightarrow> mem_ok g a (set_state g m s v)"
    using slot_fits(1) [OF ok, of s] by (intro mem_ok_length [OF assms]) (simp add: sh_defs)
qed (auto intro: mem_ok_length [OF assms])

section \<open>The invariant\<close>

text \<open>How much of a request is in its slot when its client is at a point before the submission, and all of it.\<close>

fun level :: "cpoint \<Rightarrow> nat" where
  "level P_Claimed = 1"
| "level P_Opcode = 1"
| "level P_Flags = 2"
| "level P_Len = 3"
| "level P_Id = 4"
| "level P_Payload = 5"
| "level P_State = 6"
| "level _ = 0"

definition written :: "slot_view \<Rightarrow> call \<Rightarrow> nat \<Rightarrow> bool" where
  "written v k n \<longleftrightarrow> (2 \<le> n \<longrightarrow> v_opcode v = rq_op (c_req k)) \<and> (3 \<le> n \<longrightarrow> v_flags v = rq_flags (c_req k)) \<and>
     (4 \<le> n \<longrightarrow> v_len v = word_of_nat (length (rq_payload (c_req k)))) \<and> (5 \<le> n \<longrightarrow> v_id v = c_id k) \<and>
     (6 \<le> n \<longrightarrow> take (length (rq_payload (c_req k))) (v_data v) = rq_payload (c_req k))"

text \<open>A client that waits for, or gives up on, a request it submitted.\<close>

fun waiting :: "cpoint \<Rightarrow> bool" where
  "waiting P_Bump = True"
| "waiting P_Wait = True"
| "waiting (P_Abandon e) = (e \<noteq> BadResponse)"
| "waiting (P_Swap e old new o1) = (e \<noteq> BadResponse \<and> abandon_move old = Inr (old, new, o1))"
| "waiting _ = False"

text \<open>A client that reads its response, with what it has read so far.\<close>

fun reading :: "slot_view \<Rightarrow> bytes \<Rightarrow> cpoint \<Rightarrow> bool" where
  "reading v b P_Ack = True"
| "reading v b P_Status = True"
| "reading v b (P_RLen st) = (st = v_status v)"
| "reading v b (P_RData st n) = (st = v_status v \<and> n = unat (v_len v))"
| "reading v b (P_Bank st d) = (st = v_status v \<and> d = take (unat (v_len v)) (v_data v))"
| "reading v b (P_Free st d bk) = (st = v_status v \<and> d = take (unat (v_len v)) (v_data v) \<and> bk = take (length bk) b)"
| "reading v b _ = False"

text \<open>The response to a call is in its slot, and what the handler put in the bank is there.\<close>

definition responded :: "geom \<Rightarrow> (request \<Rightarrow> u64 \<Rightarrow> answer \<Rightarrow> bool) \<Rightarrow> slot_view \<Rightarrow> bytes \<Rightarrow> call \<Rightarrow> answer \<Rightarrow> bool" where
  "responded g answers v b k x \<longleftrightarrow> answers (c_req k) (c_id k) x \<and> v_ack v = ucast (c_id k) \<and>
     v_status v = fst (on_wire g (an_status x) (an_resp x)) \<and>
     unat (v_len v) = length (snd (on_wire g (an_status x) (an_resp x))) \<and>
     take (unat (v_len v)) (v_data v) = snd (on_wire g (an_status x) (an_resp x)) \<and>
     take (length (an_bulk x)) b = an_bulk x"

text \<open>What a server holding the slot of a call has read and written.\<close>

fun serving :: "geom \<Rightarrow> (request \<Rightarrow> u64 \<Rightarrow> answer \<Rightarrow> bool) \<Rightarrow> nat \<Rightarrow> slot_view \<Rightarrow> bytes \<Rightarrow> call \<Rightarrow> spoint \<Rightarrow> bool" where
  "serving g answers bsz v b k Q_Opcode = written v k 6"
| "serving g answers bsz v b k (Q_Flags op) = (written v k 6 \<and> op = rq_op (c_req k))"
| "serving g answers bsz v b k (Q_Id op fl) = (written v k 6 \<and> op = rq_op (c_req k) \<and> fl = rq_flags (c_req k))"
| "serving g answers bsz v b k (Q_Len op fl rid) =
     (written v k 6 \<and> op = rq_op (c_req k) \<and> fl = rq_flags (c_req k) \<and> rid = c_id k)"
| "serving g answers bsz v b k (Q_Payload op fl rid n) =
     (written v k 6 \<and> op = rq_op (c_req k) \<and> fl = rq_flags (c_req k) \<and> rid = c_id k \<and> n = length (rq_payload (c_req k)))"
| "serving g answers bsz v b k (Q_Handle r rid) = (v_id v = c_id k \<and> r = c_req k \<and> rid = c_id k)"
| "serving g answers bsz v b k (Q_Fill r rid x) =
     (v_id v = c_id k \<and> r = c_req k \<and> rid = c_id k \<and> answers r rid x \<and> length (an_bulk x) \<le> bsz)"
| "serving g answers bsz v b k (Q_Check r rid x) =
     (v_id v = c_id k \<and> r = c_req k \<and> rid = c_id k \<and> answers r rid x \<and> take (length (an_bulk x)) b = an_bulk x)"
| "serving g answers bsz v b k (Q_Load r rid x) =
     (v_id v = c_id k \<and> r = c_req k \<and> rid = c_id k \<and> answers r rid x \<and> take (length (an_bulk x)) b = an_bulk x)"
| "serving g answers bsz v b k (Q_Data r rid x) =
     (v_id v = c_id k \<and> r = c_req k \<and> rid = c_id k \<and> answers r rid x \<and> take (length (an_bulk x)) b = an_bulk x)"
| "serving g answers bsz v b k (Q_Status r rid x) =
     (v_id v = c_id k \<and> r = c_req k \<and> rid = c_id k \<and> answers r rid x \<and> take (length (an_bulk x)) b = an_bulk x \<and>
      (let d = snd (on_wire g (an_status x) (an_resp x)) in take (length d) (v_data v) = d))"
| "serving g answers bsz v b k (Q_WLen r rid x) =
     (v_id v = c_id k \<and> r = c_req k \<and> rid = c_id k \<and> answers r rid x \<and> take (length (an_bulk x)) b = an_bulk x \<and>
      (let (st, d) = on_wire g (an_status x) (an_resp x) in take (length d) (v_data v) = d \<and> v_status v = st))"
| "serving g answers bsz v b k (Q_WAck r rid x) =
     (v_id v = c_id k \<and> r = c_req k \<and> rid = c_id k \<and> answers r rid x \<and> take (length (an_bulk x)) b = an_bulk x \<and>
      (let (st, d) = on_wire g (an_status x) (an_resp x) in
        take (length d) (v_data v) = d \<and> v_status v = st \<and> unat (v_len v) = length d))"
| "serving g answers bsz v b k (Q_Cas r rid x) = (r = c_req k \<and> rid = c_id k \<and> responded g answers v b k x)"
| "serving g answers bsz v b k Q_Drain = True"
| "serving g answers bsz v b k Q_Broken = False"

text \<open>A slot, given the client and the server that hold it.\<close>

fun slot_ok :: "geom \<Rightarrow> (request \<Rightarrow> u64 \<Rightarrow> answer \<Rightarrow> bool) \<Rightarrow> nat \<Rightarrow> slot_view \<Rightarrow> bytes \<Rightarrow> cpc option \<Rightarrow> spc option \<Rightarrow> bool" where
  "slot_ok g answers bsz v b None None = (v_state v = ST_FREE)"
| "slot_ok g answers bsz v b (Some (C_Run k pt)) None =
     (length (rq_payload (c_req k)) \<le> unat (payload_cap g) \<and>
      (v_state v = ST_CLAIMED \<and> 1 \<le> level pt \<and> written v k (level pt) \<or>
       v_state v = ST_SUBMITTED \<and> waiting pt \<and> written v k 6 \<or>
       v_state v = ST_COMPLETED \<and> (waiting pt \<or> reading v b pt) \<and> (\<exists>x. responded g answers v b k x)))"
| "slot_ok g answers bsz v b (Some (C_Run k pt)) (Some (S_Run s q)) =
     (length (rq_payload (c_req k)) \<le> unat (payload_cap g) \<and> v_state v = ST_PROCESSING \<and> waiting pt \<and> q \<noteq> Q_Drain \<and>
      serving g answers bsz v b k q)"
| "slot_ok g answers bsz v b None (Some (S_Run s q)) =
     (v_state v = ST_ABANDONED \<and>
      (\<exists>k. length (rq_payload (c_req k)) \<le> unat (payload_cap g) \<and> serving g answers bsz v b k q))"
| "slot_ok g answers bsz v b _ _ = False"

end
