(* ===== verification/Ring_Inv.thy ===== *)
theory Ring_Inv
  imports Ring_Machine
begin

text \<open>
  The invariant of the machine of \<^verbatim>\<open>Ring_Machine\<close> and its consequences. A slot's state word says who holds it: a
  client alone while it is claimed, submitted or completed, a client and a server while it is in processing, a
  server alone once it is abandoned, nobody while it is free. Every step of a thread keeps the invariant of the
  one slot it touches and no other slot changes, so the invariant holds in every reachable state.
\<close>


section \<open>Every step keeps its slot\<close>

text \<open>A thread's program counter, if the thread holds the slot.\<close>

definition held :: "u32 \<Rightarrow> cpc \<Rightarrow> cpc option" where
  "held s p = (if cslot p = Some s then Some p else None)"

definition sheld :: "u32 \<Rightarrow> spc \<Rightarrow> spc option" where
  "sheld s q = (if sslot q = Some s then Some q else None)"

definition same_elsewhere :: "geom \<Rightarrow> data_arena \<Rightarrow> seg \<Rightarrow> seg \<Rightarrow> u32 \<Rightarrow> bool" where
  "same_elsewhere g a m m' s \<longleftrightarrow> mem_ok g a m' \<and>
     (\<forall>t < slot_count g. t \<noteq> s \<longrightarrow> view g m' t = view g m t \<and> bank a m' t = bank a m t)"

lemma so_cases:
  "(so = None \<Longrightarrow> P) \<Longrightarrow> (\<And>s q. so = Some (S_Run s q) \<Longrightarrow> P) \<Longrightarrow> (\<And>x. so = Some (S_Idle x) \<Longrightarrow> P) \<Longrightarrow> P"
  by (metis option.exhaust spc.exhaust)

lemma co_cases:
  "(co = None \<Longrightarrow> P) \<Longrightarrow> (\<And>k pt. co = Some (C_Run k pt) \<Longrightarrow> P) \<Longrightarrow> (\<And>p. co = Some p \<Longrightarrow> cslot p = None \<Longrightarrow> P) \<Longrightarrow> P"
  by (metis option.exhaust cpc.exhaust cslot.simps)

lemma slot_ok_rest: "cslot p = None \<Longrightarrow> \<not> slot_ok g answers bsz v b (Some p) so"
  by (cases p; cases so rule: so_cases) auto

lemma slot_ok_payload:
  "slot_ok g answers bsz v b (Some (C_Run k pt)) so \<Longrightarrow> length (rq_payload (c_req k)) \<le> unat (payload_cap g)"
  by (cases so rule: so_cases) auto

lemma on_wire_fits [simp]: "length (snd (on_wire g st d)) \<le> unat (payload_cap g)"
  by (simp add: on_wire_def)

lemma on_wire_fits_not [simp]: "\<not> unat (payload_cap g) < length (snd (on_wire g st d))"
  by (simp add: not_less)

lemma unat_cap_len: "n \<le> unat (payload_cap g) \<Longrightarrow> unat (word_of_nat n :: u32) = n"
  using unat_u32 [of "payload_cap g"] by (intro unat_of_nat_u32) linarith

lemma unat_on_wire [simp]: "unat (word_of_nat (length (snd (on_wire g st d))) :: u32) = length (snd (on_wire g st d))"
  by (rule unat_cap_len) (rule on_wire_fits)

lemma on_wire_payload:
  "length d \<le> unat (payload_cap g) \<Longrightarrow> on_wire g st d = (st, d)"
  "unat (payload_cap g) < length d \<Longrightarrow> on_wire g st d = (OVERFLOW, [])"
  by (simp_all add: on_wire_def)

lemma serving_state [simp]: "serving g answers bsz (v\<lparr>v_state := st\<rparr>) b k q = serving g answers bsz v b k q"
  by (cases q) (simp_all add: written_def responded_def)

lemma copy_bank_eq:
  assumes "copy_to m (bank_mapping_offset a s) n = Some bk" and "n \<le> bank_size a"
  shows "bk = take (length bk) (bank a m s)"
  using assms by (auto simp: copy_to_def bank_def rd_range_def in_bounds_def min_def split: if_splits)

lemma client_step_elsewhere:
  assumes "client_step g a m p m' p'" and "mem_ok g a m" and "cslot p = Some s \<or> cslot p' = Some s" and "s < slot_count g"
    and "slot_ok g answers bsz (view g m s) (bank a m s) (held s p) so"
  shows "same_elsewhere g a m m' s"
proof -
  have "length (rq_payload (c_req k)) \<le> unat (payload_cap g)" if "p = C_Run k pt" for k pt
    using assms(3,5) slot_ok_payload that assms(1) by (cases "c_slot k = s") (auto simp: held_def elim: client_step.cases)
  with assms(1-4) show ?thesis
    by (induction rule: client_step.induct) (simp_all add: same_elsewhere_def view_simps)
qed

lemma client_step_slot:
  assumes "client_step g a m p m' p'" and "mem_ok g a m" and "cslot p = Some s \<or> cslot p' = Some s" and "s < slot_count g"
    and "slot_ok g answers bsz (view g m s) (bank a m s) (held s p) so"
  shows "slot_ok g answers bsz (view g m' s) (bank a m' s) (held s p') so"
proof (cases so rule: so_cases)
  case 1
  with assms show ?thesis
    by (induction rule: client_step.induct)
      (auto simp: held_def view_simps written_def responded_def abandon_move_def copy_bank_eq split: if_splits)
next
  case (2 t q)
  with assms show ?thesis
    by (induction rule: client_step.induct)
      (auto simp: held_def view_simps abandon_move_def split: if_splits)
next
  case 3
  with assms show ?thesis
    by (cases "held s p" rule: co_cases) (auto simp: slot_ok_rest)
qed

lemma server_step_elsewhere:
  assumes "server_step g a answers m q m' q'" and "mem_ok g a m" and "sslot q = Some s \<or> sslot q' = Some s" and "s < slot_count g"
    and "slot_ok g answers (bank_size a) (view g m s) (bank a m s) co (sheld s q)"
  shows "same_elsewhere g a m m' s"
proof (cases co rule: co_cases)
  case 1
  with assms show ?thesis
    by (induction rule: server_step.induct) (auto simp: sheld_def same_elsewhere_def view_simps)
next
  case 2
  with assms show ?thesis
    by (induction rule: server_step.induct) (auto simp: sheld_def same_elsewhere_def view_simps)
next
  case 3
  with assms(5) show ?thesis by (simp add: slot_ok_rest)
qed

lemma server_step_slot:
  assumes "server_step g a answers m q m' q'" and "mem_ok g a m" and "sslot q = Some s \<or> sslot q' = Some s" and "s < slot_count g"
    and "slot_ok g answers (bank_size a) (view g m s) (bank a m s) co (sheld s q)"
  shows "slot_ok g answers (bank_size a) (view g m' s) (bank a m' s) co (sheld s q')"
proof (cases co rule: co_cases)
  case 1
  with assms show ?thesis
    by (induction rule: server_step.induct)
      (auto simp: sheld_def view_simps written_def responded_def unat_cap_len Let_def case_prod_beta on_wire_payload)
next
  case 2
  with assms show ?thesis
    by (induction rule: server_step.induct)
      (auto simp: sheld_def view_simps written_def responded_def unat_cap_len Let_def case_prod_beta on_wire_payload)
next
  case 3
  with assms(5) show ?thesis by (simp add: slot_ok_rest)
qed

section \<open>The invariant of the system\<close>

text \<open>What a client that has finished knows: its response answers its own request, and it never saw another's.\<close>

fun finished_ok :: "geom \<Rightarrow> (request \<Rightarrow> u64 \<Rightarrow> answer \<Rightarrow> bool) \<Rightarrow> cpc \<Rightarrow> bool" where
  "finished_ok g answers (C_Done r rid st d bk) =
     (\<exists>x. answers r rid x \<and> (st, d) = on_wire g (an_status x) (an_resp x) \<and>
        (length bk \<le> length (an_bulk x) \<longrightarrow> bk = take (length bk) (an_bulk x)))"
| "finished_ok g answers (C_Failed e o1) = (e \<noteq> BadResponse)"
| "finished_ok g answers _ = True"

text \<open>\<open>co\<close> and \<open>so\<close> name the client and the server that hold a slot.\<close>

definition owned :: "geom \<Rightarrow> data_arena \<Rightarrow> (request \<Rightarrow> u64 \<Rightarrow> answer \<Rightarrow> bool) \<Rightarrow> sys \<Rightarrow> (u32 \<Rightarrow> nat option) \<Rightarrow> (u32 \<Rightarrow> nat option) \<Rightarrow> bool" where
  "owned g a answers x co so \<longleftrightarrow>
     (\<forall>c s. cslot (cl x c) = Some s \<longleftrightarrow> co s = Some c) \<and> (\<forall>k s. sslot (sv x k) = Some s \<longleftrightarrow> so s = Some k) \<and>
     (\<forall>s. co s \<noteq> None \<or> so s \<noteq> None \<longrightarrow> s < slot_count g) \<and>
     (\<forall>s < slot_count g. slot_ok g answers (bank_size a) (view g (mem x) s) (bank a (mem x) s)
        (map_option (cl x) (co s)) (map_option (sv x) (so s)))"

definition ring_inv :: "geom \<Rightarrow> data_arena \<Rightarrow> (request \<Rightarrow> u64 \<Rightarrow> answer \<Rightarrow> bool) \<Rightarrow> sys \<Rightarrow> bool" where
  "ring_inv g a answers x \<longleftrightarrow> mem_ok g a (mem x) \<and> (\<exists>co so. owned g a answers x co so) \<and>
     (\<forall>c. finished_ok g answers (cl x c)) \<and> (\<forall>k. sv x k \<noteq> S_Idle (Some Stale))"

lemma client_step_moves:
  "client_step g a m p m' p' \<Longrightarrow>
   \<exists>s. (cslot p = Some s \<or> cslot p = None \<and> s < slot_count g \<and> state_at g m s = ST_FREE \<and> cslot p' = Some s) \<and>
       (cslot p' = Some s \<or> cslot p' = None)"
  by (induction rule: client_step.induct) auto

lemma server_step_moves:
  "server_step g a answers m q m' q' \<Longrightarrow>
   \<exists>s. (sslot q = Some s \<or> sslot q = None \<and> s < slot_count g \<and> state_at g m s = ST_SUBMITTED \<and> sslot q' = Some s) \<and>
       (sslot q' = Some s \<or> sslot q' = None)"
  by (induction rule: server_step.induct) auto

lemma responded_finished:
  assumes "responded g answers v b k x" and "bk = take (length bk) b"
  shows "finished_ok g answers (C_Done (c_req k) (c_id k) (v_status v) (take (unat (v_len v)) (v_data v)) bk)"
proof -
  have "bk = take (length bk) (an_bulk x)" if "length bk \<le> length (an_bulk x)"
    using assms that unfolding responded_def by (metis min.absorb1 take_take)
  with assms(1) show ?thesis by (auto simp: responded_def)
qed

lemma client_step_finished:
  assumes "client_step g a m p m' p'" and "mem_ok g a m" and "cslot p = Some s \<Longrightarrow> s < slot_count g"
    and "cslot p = Some s \<Longrightarrow> slot_ok g answers bsz (view g m s) (bank a m s) (Some p) so" and "cslot p = Some s \<or> cslot p = None"
  shows "finished_ok g answers p'"
proof (cases "cslot p' = None \<and> p' \<noteq> C_Idle")
  case True
  then have s: "cslot p = Some s" using assms(1,5) by (auto elim: client_step.cases)
  show ?thesis
  proof (cases so rule: so_cases)
    case 1
    with assms(1,2) assms(3,4) [OF s] s show ?thesis
      by (induction rule: client_step.induct) (auto simp: view_simps abandon_move_def simp del: finished_ok.simps(1) intro: responded_finished)
  next
    case 2
    with assms(1,2) assms(3,4) [OF s] s show ?thesis
      by (induction rule: client_step.induct) (auto simp: view_simps abandon_move_def)
  next
    case 3
    with assms(4) [OF s] show ?thesis by (cases p) (auto simp: slot_ok_rest)
  qed
next
  case False
  then show ?thesis by (cases p') auto
qed

lemma server_step_not_stale:
  assumes "server_step g a answers m q m' q'" and "mem_ok g a m" and "sslot q = Some s \<Longrightarrow> s < slot_count g"
    and "sslot q = Some s \<Longrightarrow> slot_ok g answers bsz (view g m s) (bank a m s) co (Some q)" and "sslot q = Some s \<or> sslot q = None"
  shows "q' \<noteq> S_Idle (Some Stale)"
proof
  assume stale: "q' = S_Idle (Some Stale)"
  then have s: "sslot q = Some s" using assms(1,5) by (auto elim: server_step.cases)
  show False
  proof (cases co rule: co_cases)
    case 1
    with assms(1,2) assms(3,4) [OF s] s stale show ?thesis
      by (induction rule: server_step.induct) (auto simp: responded_def view_simps)
  next
    case 2
    with assms(1,2) assms(3,4) [OF s] s stale show ?thesis
      by (induction rule: server_step.induct) (auto simp: responded_def view_simps)
  next
    case 3
    with assms(4) [OF s] show ?thesis by (auto simp: slot_ok_rest)
  qed
qed

lemma slot_ok_free: "slot_ok g answers bsz v b co so \<Longrightarrow> v_state v = ST_FREE \<Longrightarrow> co = None \<and> so = None"
  by (cases co rule: co_cases; cases so rule: so_cases) (auto simp: slot_ok_rest)

lemma slot_ok_submitted: "slot_ok g answers bsz v b co so \<Longrightarrow> v_state v = ST_SUBMITTED \<Longrightarrow> so = None"
  by (cases co rule: co_cases; cases so rule: so_cases) (auto simp: slot_ok_rest)

text \<open>One thread moves: it takes, keeps or gives up slot \<open>s\<close>.\<close>

lemma owner_update:
  assumes own: "\<And>c s. f (P c) = Some s \<longleftrightarrow> co s = Some c" and old: "f (P c) = Some s \<or> f (P c) = None \<and> co s = None"
    and new: "f p = Some s \<or> f p = None"
  shows "f ((P(c := p)) c') = Some t \<longleftrightarrow> (co(s := if f p = Some s then Some c else None)) t = Some c'"
    and "t \<noteq> s \<Longrightarrow> map_option (P(c := p)) ((co(s := if f p = Some s then Some c else None)) t) = map_option P (co t)"
proof -
  have other: "co t \<noteq> Some c" if "t \<noteq> s"
  proof
    assume "co t = Some c"
    then have "f (P c) = Some t" by (simp only: own)
    with old that show False by simp
  qed
  have mine: "f (P c') \<noteq> Some s" if "c' \<noteq> c"
  proof
    assume "f (P c') = Some s"
    then have "co s = Some c'" by (simp only: own)
    moreover have "f (P c) = Some s \<longrightarrow> co s = Some c" by (simp only: own simp_thms)
    ultimately show False using old that by auto
  qed
  show "f ((P(c := p)) c') = Some t \<longleftrightarrow> (co(s := if f p = Some s then Some c else None)) t = Some c'"
  proof (cases "c' = c")
    case True
    then show ?thesis using new other by auto
  next
    case False
    then show ?thesis using mine by (auto simp: own)
  qed
  show "t \<noteq> s \<Longrightarrow> map_option (P(c := p)) ((co(s := if f p = Some s then Some c else None)) t) = map_option P (co t)"
    using other by (cases "co t") auto
qed

text \<open>The one slot a step of a client touches, before and after.\<close>

lemma client_step_at:
  assumes step: "client_step g a (mem x) (cl x c) m p" and ok: "mem_ok g a (mem x)" and own: "owned g a answers x co so"
  obtains s where "s < slot_count g" and "cslot (cl x c) = Some s \<or> cslot (cl x c) = None \<and> co s = None"
    and "cslot p = Some s \<or> cslot p = None" and "same_elsewhere g a (mem x) m s" and "finished_ok g answers p"
    and "slot_ok g answers (bank_size a) (view g m s) (bank a m s) (held s p) (map_option (sv x) (so s))"
proof -
  note owns = own [unfolded owned_def]
  obtain s where from_s: "cslot (cl x c) = Some s \<or>
      cslot (cl x c) = None \<and> s < slot_count g \<and> state_at g (mem x) s = ST_FREE \<and> cslot p = Some s"
    and to_s: "cslot p = Some s \<or> cslot p = None"
    using client_step_moves [OF step] by auto
  have s: "s < slot_count g" using from_s owns by auto
  have slot: "slot_ok g answers (bank_size a) (view g (mem x) s) (bank a (mem x) s) (map_option (cl x) (co s)) (map_option (sv x) (so s))"
    using s owns by blast
  have hold: "map_option (cl x) (co s) = held s (cl x c)"
    using from_s owns slot_ok_free [OF slot] ok s by (auto simp: held_def view_simps)
  have st: "cslot (cl x c) = Some s \<or> cslot p = Some s" using from_s by blast
  have free: "cslot (cl x c) = Some s \<or> cslot (cl x c) = None \<and> co s = None"
    using from_s slot_ok_free [OF slot] ok s by (auto simp: view_simps)
  have "finished_ok g answers p"
    using client_step_finished [OF step ok, of s answers "bank_size a" "map_option (sv x) (so s)"] s slot hold from_s
    by (auto simp: held_def)
  then show thesis
    using that [OF s free to_s client_step_elsewhere [OF step ok st s slot [unfolded hold]] _
      client_step_slot [OF step ok st s slot [unfolded hold]]] by blast
qed

lemma client_step_inv:
  assumes step: "client_step g a (mem x) (cl x c) m p" and inv: "ring_inv g a answers x"
  shows "ring_inv g a answers (x\<lparr>mem := m, cl := (cl x)(c := p)\<rparr>)"
proof -
  from inv obtain co so where ok: "mem_ok g a (mem x)" and own: "owned g a answers x co so"
    and fin: "\<And>c. finished_ok g answers (cl x c)" and live: "\<And>k. sv x k \<noteq> S_Idle (Some Stale)"
    by (auto simp: ring_inv_def)
  note owns = own [unfolded owned_def]
  obtain s where s: "s < slot_count g" and free: "cslot (cl x c) = Some s \<or> cslot (cl x c) = None \<and> co s = None"
    and to_s: "cslot p = Some s \<or> cslot p = None" and same: "same_elsewhere g a (mem x) m s" and fin': "finished_ok g answers p"
    and slot: "slot_ok g answers (bank_size a) (view g m s) (bank a m s) (held s p) (map_option (sv x) (so s))"
    by (rule client_step_at [OF step ok own]) (rule that)
  define co' where "co' = co(s := if cslot p = Some s then Some c else None)"
  let ?x = "x\<lparr>mem := m, cl := (cl x)(c := p)\<rparr>"
  have iff: "cslot (cl x c) = Some s \<longleftrightarrow> co s = Some c" for c s using owns by blast
  have upd: "cslot (((cl x)(c := p)) c') = Some t \<longleftrightarrow> co' t = Some c'"
    "t \<noteq> s \<Longrightarrow> map_option ((cl x)(c := p)) (co' t) = map_option (cl x) (co t)" for c' t
    unfolding co'_def by (rule owner_update [of cslot "cl x" co c s p, OF iff free to_s], assumption?)+
  have "slot_ok g answers (bank_size a) (view g m t) (bank a m t) (map_option (cl ?x) (co' t)) (map_option (sv ?x) (so t))"
    if "t < slot_count g" for t
  proof (cases "t = s")
    case True
    then show ?thesis using slot by (simp add: co'_def held_def split: if_splits)
  next
    case False
    then have "map_option (cl ?x) (co' t) = map_option (cl x) (co t)" using upd(2) by simp
    then show ?thesis using False that owns same by (simp add: same_elsewhere_def)
  qed
  moreover have "cslot (cl ?x c') = Some t \<longleftrightarrow> co' t = Some c'" for c' t using upd(1) by simp
  ultimately have "owned g a answers ?x co' so"
    using owns s by (auto simp: owned_def co'_def)
  then show ?thesis using same fin fin' live by (auto simp: ring_inv_def same_elsewhere_def)
qed

lemma server_step_at:
  assumes step: "server_step g a answers (mem x) (sv x k) m q" and ok: "mem_ok g a (mem x)" and own: "owned g a answers x co so"
  obtains s where "s < slot_count g" and "sslot (sv x k) = Some s \<or> sslot (sv x k) = None \<and> so s = None"
    and "sslot q = Some s \<or> sslot q = None" and "same_elsewhere g a (mem x) m s" and "q \<noteq> S_Idle (Some Stale)"
    and "slot_ok g answers (bank_size a) (view g m s) (bank a m s) (map_option (cl x) (co s)) (sheld s q)"
    and "sslot (sv x k) = Some s \<or> sslot q = Some s" and "map_option (sv x) (so s) = sheld s (sv x k)"
proof -
  note owns = own [unfolded owned_def]
  obtain s where from_s: "sslot (sv x k) = Some s \<or>
      sslot (sv x k) = None \<and> s < slot_count g \<and> state_at g (mem x) s = ST_SUBMITTED \<and> sslot q = Some s"
    and to_s: "sslot q = Some s \<or> sslot q = None"
    using server_step_moves [OF step] by auto
  have s: "s < slot_count g" using from_s owns by auto
  have slot: "slot_ok g answers (bank_size a) (view g (mem x) s) (bank a (mem x) s) (map_option (cl x) (co s)) (map_option (sv x) (so s))"
    using s owns by blast
  have hold: "map_option (sv x) (so s) = sheld s (sv x k)"
    using from_s owns slot_ok_submitted [OF slot] ok s by (auto simp: sheld_def view_simps)
  have st: "sslot (sv x k) = Some s \<or> sslot q = Some s" using from_s by blast
  have free: "sslot (sv x k) = Some s \<or> sslot (sv x k) = None \<and> so s = None"
    using from_s slot_ok_submitted [OF slot] ok s by (auto simp: view_simps)
  have "q \<noteq> S_Idle (Some Stale)"
    using server_step_not_stale [OF step ok, of s "bank_size a" "map_option (cl x) (co s)"] s slot hold from_s
    by (auto simp: sheld_def)
  then show thesis
    using that [OF s free to_s server_step_elsewhere [OF step ok st s slot [unfolded hold]] _
      server_step_slot [OF step ok st s slot [unfolded hold]] st hold] by blast
qed

lemma server_step_inv:
  assumes step: "server_step g a answers (mem x) (sv x k) m q" and inv: "ring_inv g a answers x"
  shows "ring_inv g a answers (x\<lparr>mem := m, sv := (sv x)(k := q)\<rparr>)"
proof -
  from inv obtain co so where ok: "mem_ok g a (mem x)" and own: "owned g a answers x co so"
    and fin: "\<And>c. finished_ok g answers (cl x c)" and live: "\<And>k. sv x k \<noteq> S_Idle (Some Stale)"
    by (auto simp: ring_inv_def)
  note owns = own [unfolded owned_def]
  obtain s where s: "s < slot_count g" and free: "sslot (sv x k) = Some s \<or> sslot (sv x k) = None \<and> so s = None"
    and to_s: "sslot q = Some s \<or> sslot q = None" and same: "same_elsewhere g a (mem x) m s" and live': "q \<noteq> S_Idle (Some Stale)"
    and slot: "slot_ok g answers (bank_size a) (view g m s) (bank a m s) (map_option (cl x) (co s)) (sheld s q)"
    by (rule server_step_at [OF step ok own]) (rule that)
  define so' where "so' = so(s := if sslot q = Some s then Some k else None)"
  let ?x = "x\<lparr>mem := m, sv := (sv x)(k := q)\<rparr>"
  have iff: "sslot (sv x k) = Some s \<longleftrightarrow> so s = Some k" for k s using owns by blast
  have upd: "sslot (((sv x)(k := q)) k') = Some t \<longleftrightarrow> so' t = Some k'"
    "t \<noteq> s \<Longrightarrow> map_option ((sv x)(k := q)) (so' t) = map_option (sv x) (so t)" for k' t
    unfolding so'_def by (rule owner_update [of sslot "sv x" so k s q, OF iff free to_s], assumption?)+
  have "slot_ok g answers (bank_size a) (view g m t) (bank a m t) (map_option (cl ?x) (co t)) (map_option (sv ?x) (so' t))"
    if "t < slot_count g" for t
  proof (cases "t = s")
    case True
    then show ?thesis using slot by (simp add: so'_def sheld_def split: if_splits)
  next
    case False
    then have "map_option (sv ?x) (so' t) = map_option (sv x) (so t)" using upd(2) by simp
    then show ?thesis using False that owns same by (simp add: same_elsewhere_def)
  qed
  moreover have "sslot (sv ?x k') = Some t \<longleftrightarrow> so' t = Some k'" for k' t using upd(1) by simp
  ultimately have "owned g a answers ?x co so'"
    using owns s by (auto simp: owned_def so'_def)
  then show ?thesis using same fin live live' by (auto simp: ring_inv_def same_elsewhere_def)
qed

lemma ring_step_inv: "ring_step g a answers x w y \<Longrightarrow> ring_inv g a answers x \<Longrightarrow> ring_inv g a answers y"
  by (induction rule: ring_step.induct) (auto intro: client_step_inv server_step_inv)

lemma reach_inv: "reach g a answers x \<Longrightarrow> ring_inv g a answers x"
proof (induction rule: reach.induct)
  case (start m n cap m')
  note init = ring_init_ok [OF start(1-3)]
  have "slot_count g = n" using init(3) by simp
  then have "owned g a answers \<lparr>mem = m', cl = \<lambda>_. C_Idle, sv = \<lambda>_. S_Idle None\<rparr> (\<lambda>_. None) (\<lambda>_. None)"
    using init(4) by (simp add: owned_def)
  then show ?case using init(1) start(4) by (auto simp: ring_inv_def mem_ok_def)
next
  case step
  then show ?case by (blast intro: ring_step_inv)
qed

section \<open>Reading the invariant\<close>

lemma inv_slot:
  assumes "ring_inv g a answers x"
  obtains co so where "mem_ok g a (mem x)" and "\<And>c s. cslot (cl x c) = Some s \<longleftrightarrow> co s = Some c"
    and "\<And>k s. sslot (sv x k) = Some s \<longleftrightarrow> so s = Some k" and "\<And>c s. cslot (cl x c) = Some s \<Longrightarrow> s < slot_count g"
    and "\<And>k s. sslot (sv x k) = Some s \<Longrightarrow> s < slot_count g"
    and "\<And>s. s < slot_count g \<Longrightarrow> slot_ok g answers (bank_size a) (view g (mem x) s) (bank a (mem x) s)
      (map_option (cl x) (co s)) (map_option (sv x) (so s))"
proof -
  from assms obtain co so where ok: "mem_ok g a (mem x)" and own: "owned g a answers x co so"
    by (auto simp: ring_inv_def)
  have co: "cslot (cl x c) = Some s \<longleftrightarrow> co s = Some c" for c s using own unfolding owned_def by blast
  have so: "sslot (sv x k) = Some s \<longleftrightarrow> so s = Some k" for k s using own unfolding owned_def by blast
  have less: "co s \<noteq> None \<or> so s \<noteq> None \<Longrightarrow> s < slot_count g" for s using own unfolding owned_def by blast
  show thesis
  proof (rule that [OF ok co so])
    show "s < slot_count g" if "cslot (cl x c) = Some s" for c s using that less [of s] by (simp add: co)
    show "s < slot_count g" if "sslot (sv x k) = Some s" for k s using that less [of s] by (simp add: so)
  qed (use own in \<open>simp add: owned_def\<close>)
qed

lemma inv_client:
  assumes "ring_inv g a answers x" and "cslot (cl x c) = Some s"
  obtains so where "s < slot_count g"
    and "slot_ok g answers (bank_size a) (view g (mem x) s) (bank a (mem x) s) (Some (cl x c)) (map_option (sv x) so)"
    and "\<And>k. sslot (sv x k) = Some s \<longleftrightarrow> so = Some k"
proof (rule inv_slot [OF assms(1)])
  fix co so
  assume co: "\<And>c s. cslot (cl x c) = Some s \<longleftrightarrow> co s = Some c" and so: "\<And>k s. sslot (sv x k) = Some s \<longleftrightarrow> so s = Some k"
    and less: "\<And>c s. cslot (cl x c) = Some s \<Longrightarrow> s < slot_count g"
    and slot: "\<And>s. s < slot_count g \<Longrightarrow> slot_ok g answers (bank_size a) (view g (mem x) s) (bank a (mem x) s)
      (map_option (cl x) (co s)) (map_option (sv x) (so s))"
  have s: "s < slot_count g" and c: "co s = Some c" using less [OF assms(2)] co [of c s] assms(2) by simp_all
  show thesis by (rule that [OF s _ so]) (use slot [OF s] c in simp)
qed

lemma inv_server:
  assumes "ring_inv g a answers x" and "sslot (sv x k) = Some s"
  obtains co where "s < slot_count g"
    and "slot_ok g answers (bank_size a) (view g (mem x) s) (bank a (mem x) s) (map_option (cl x) co) (Some (sv x k))"
    and "\<And>c. cslot (cl x c) = Some s \<longleftrightarrow> co = Some c"
proof (rule inv_slot [OF assms(1)])
  fix co so
  assume co: "\<And>c s. cslot (cl x c) = Some s \<longleftrightarrow> co s = Some c" and so: "\<And>k s. sslot (sv x k) = Some s \<longleftrightarrow> so s = Some k"
    and less: "\<And>k s. sslot (sv x k) = Some s \<Longrightarrow> s < slot_count g"
    and slot: "\<And>s. s < slot_count g \<Longrightarrow> slot_ok g answers (bank_size a) (view g (mem x) s) (bank a (mem x) s)
      (map_option (cl x) (co s)) (map_option (sv x) (so s))"
  have s: "s < slot_count g" and k: "so s = Some k" using less [OF assms(2)] so [of k s] assms(2) by simp_all
  show thesis by (rule that [OF s _ co]) (use slot [OF s] k in simp)
qed

lemma inv_exclusive:
  assumes "ring_inv g a answers x"
  shows "cslot (cl x c) = Some s \<Longrightarrow> cslot (cl x c') = Some s \<Longrightarrow> c = c'"
    and "sslot (sv x k) = Some s \<Longrightarrow> sslot (sv x k') = Some s \<Longrightarrow> k = k'"
  using assms by (auto elim: inv_client inv_server intro: inv_slot)

end
