(* ===== verification/Ring_Live.thy ===== *)
theory Ring_Live
  imports Ring_Inv
begin

text \<open>
  Progress on the ring, and the claims about the machine. The locale \<open>progress\<close> is the argument for both kinds of
  thread: a rank that the thread's own steps lower and nobody's steps raise bounds the steps it takes while it is
  busy. It is interpreted for a worker that serves a request and for a client that gives one up.
\<close>

section \<open>Runs\<close>

inductive run_while :: "('s \<Rightarrow> 'l \<Rightarrow> 's \<Rightarrow> bool) \<Rightarrow> ('s \<Rightarrow> bool) \<Rightarrow> 's \<Rightarrow> 'l list \<Rightarrow> 's \<Rightarrow> bool" for step busy where
  stop: "busy x \<Longrightarrow> run_while step busy x [] x"
| more: "busy x \<Longrightarrow> step x w y \<Longrightarrow> run_while step busy y ws z \<Longrightarrow> run_while step busy x (w # ws) z"

locale progress =
  fixes step :: "'s \<Rightarrow> 'l \<Rightarrow> 's \<Rightarrow> bool" and inv :: "'s \<Rightarrow> bool" and me :: 'l and busy :: "'s \<Rightarrow> bool" and rank :: "'s \<Rightarrow> nat"
  assumes keeps: "step x w y \<Longrightarrow> inv x \<Longrightarrow> inv y"
    and mine: "step x me y \<Longrightarrow> inv x \<Longrightarrow> busy x \<Longrightarrow> busy y \<Longrightarrow> rank y < rank x"
    and others: "step x w y \<Longrightarrow> inv x \<Longrightarrow> busy x \<Longrightarrow> busy y \<Longrightarrow> rank y \<le> rank x"
begin

lemma run_busy: "run_while step busy x ws y \<Longrightarrow> busy x \<and> busy y"
  by (induction rule: run_while.induct) auto

lemma busy_inv: "run_while step busy x ws y \<Longrightarrow> inv x \<Longrightarrow> inv y"
  by (induction rule: run_while.induct) (auto intro: keeps)

lemma own_steps: "run_while step busy x ws y \<Longrightarrow> inv x \<Longrightarrow> count_list ws me + rank y \<le> rank x"
proof (induction rule: run_while.induct)
  case (more x w y ws z)
  have y: "busy y" "inv y" using more run_busy keeps by auto
  have "rank y < rank x" if "w = me" using mine more y(1) that by auto
  moreover have "rank y \<le> rank x" using others more y(1) by auto
  ultimately show ?case using more.IH [OF y(2)] by auto
qed simp

end

section \<open>Workers\<close>

fun srank :: "spc \<Rightarrow> nat" where
  "srank (S_Run s Q_Opcode) = 15"
| "srank (S_Run s (Q_Flags op)) = 14"
| "srank (S_Run s (Q_Id op fl)) = 13"
| "srank (S_Run s (Q_Len op fl rid)) = 12"
| "srank (S_Run s (Q_Payload op fl rid n)) = 11"
| "srank (S_Run s (Q_Handle r rid)) = 10"
| "srank (S_Run s (Q_Fill r rid x)) = 9"
| "srank (S_Run s (Q_Check r rid x)) = 8"
| "srank (S_Run s (Q_Load r rid x)) = 7"
| "srank (S_Run s (Q_Data r rid x)) = 6"
| "srank (S_Run s (Q_Status r rid x)) = 5"
| "srank (S_Run s (Q_WLen r rid x)) = 4"
| "srank (S_Run s (Q_WAck r rid x)) = 3"
| "srank (S_Run s (Q_Cas r rid x)) = 2"
| "srank (S_Run s Q_Drain) = 1"
| "srank (S_Run s Q_Broken) = 0"
| "srank (S_Idle o1) = 0"

lemma server_step_rank: "server_step g a answers m q m' q' \<Longrightarrow> sslot q \<noteq> None \<Longrightarrow> srank q' < srank q \<or> sslot q' = None"
  by (induction rule: server_step.induct) auto

interpretation serve: progress "ring_step g a answers" "ring_inv g a answers" "Server k"
  "\<lambda>x. sslot (sv x k) \<noteq> None" "\<lambda>x. srank (sv x k)" for g a answers k
proof
  fix x w y
  assume step: "ring_step g a answers x w y" and inv: "ring_inv g a answers x"
  then show "ring_inv g a answers y" by (rule ring_step_inv)
  assume "sslot (sv x k) \<noteq> None" "sslot (sv y k) \<noteq> None"
  with step show "srank (sv y k) \<le> srank (sv x k)"
    by (cases rule: ring_step.cases) (auto dest!: server_step_rank intro: less_imp_le)
next
  fix x y
  assume "ring_step g a answers x (Server k) y" "sslot (sv x k) \<noteq> None" "sslot (sv y k) \<noteq> None"
  then show "srank (sv y k) < srank (sv x k)"
    by (cases rule: ring_step.cases) (auto dest!: server_step_rank)
qed

text \<open>A busy worker can always take its next step, if the handler always gives an answer that fits the bank.\<close>

lemma server_enabled:
  assumes "ring_inv g a answers x" and "sslot (sv x k) = Some s" and "\<And>r rid. \<exists>z. answers r rid z \<and> length (an_bulk z) \<le> bank_size a"
  shows "\<exists>m q. server_step g a answers (mem x) (sv x k) m q"
proof -
  obtain co where s: "s < slot_count g"
    and slot: "slot_ok g answers (bank_size a) (view g (mem x) s) (bank a (mem x) s) (map_option (cl x) co) (Some (sv x k))"
    by (rule inv_server [OF assms(1,2)])
  obtain q where q: "sv x k = S_Run s q" using assms(2) by (cases "sv x k") auto
  have serving: "\<exists>c. length (rq_payload (c_req c)) \<le> unat (payload_cap g) \<and> serving g answers (bank_size a) (view g (mem x) s) (bank a (mem x) s) c q"
    using slot unfolding q by (cases "map_option (cl x) co" rule: co_cases) (auto simp: slot_ok_rest)
  have rd: "ring_ok g (mem x)" using assms(1) by (auto simp: ring_inv_def)
  have "\<exists>m q'. server_step g a answers (mem x) (S_Run s q) m q'"
  proof (cases q)
    case Q_Opcode
    then show ?thesis using read_slot(2) [OF rd s] by (blast intro: rd_opcode)
  next
    case Q_Flags
    then show ?thesis using read_slot(3) [OF rd s] by (blast intro: rd_flags)
  next
    case Q_Id
    then show ?thesis using read_slot(7) [OF rd s] by (blast intro: rd_id)
  next
    case Q_Len
    then show ?thesis using read_slot(4) [OF rd s] by (metis not_le rd_len rd_bad_len)
  next
    case (Q_Payload op fl rid n)
    then have "n \<le> unat (payload_cap g)" using serving by auto
    then show ?thesis using Q_Payload read_slot(8) [OF rd s, of n] by (blast intro: rd_payload)
  next
    case (Q_Handle r rid)
    then show ?thesis using assms(3) [of r rid] by (blast intro: handle)
  next
    case (Q_Check r rid z)
    then show ?thesis by (metis check other_id)
  next
    case (Q_Load r rid z)
    then show ?thesis by (metis empty_iff insertE wanted unwanted not_ours)
  next
    case (Q_Data r rid z)
    then show ?thesis by (metis not_le wr_payload too_long)
  next
    case (Q_Cas r rid z)
    then show ?thesis by (metis empty_iff insertE publish gave_up lost)
  next
    case Q_Drain
    then show ?thesis by (metis drained not_drained)
  next
    case Q_Broken
    then show ?thesis using serving by simp
  qed (blast intro: server_step.intros)+
  then show ?thesis unfolding q .
qed

section \<open>Clients that give up\<close>

text \<open>How often a server may still move the state of a submitted slot.\<close>

definition moves_left :: "u32 \<Rightarrow> nat" where
  "moves_left st = (if st = ST_SUBMITTED then 2 else if st = ST_PROCESSING then 1 else 0)"

fun giving_up :: "cpc \<Rightarrow> bool" where
  "giving_up (C_Run k (P_Abandon e)) = True"
| "giving_up (C_Run k (P_Swap e old new o1)) = True"
| "giving_up _ = False"

fun crank :: "geom \<Rightarrow> seg \<Rightarrow> cpc \<Rightarrow> nat" where
  "crank g m (C_Run k (P_Abandon e)) = 2 * moves_left (state_at g m (c_slot k)) + 2"
| "crank g m (C_Run k (P_Swap e old new o1)) = 2 * moves_left old + 1"
| "crank g m _ = 0"

text \<open>The state a client saw before its compare-and-swap is the slot's, or one the slot has moved on from.\<close>

fun saw :: "geom \<Rightarrow> seg \<Rightarrow> cpc \<Rightarrow> bool" where
  "saw g m (C_Run k (P_Swap e old new o1)) =
     (state_at g m (c_slot k) = old \<or> moves_left (state_at g m (c_slot k)) < moves_left old)"
| "saw g m _ = True"

definition live_inv :: "geom \<Rightarrow> data_arena \<Rightarrow> (request \<Rightarrow> u64 \<Rightarrow> answer \<Rightarrow> bool) \<Rightarrow> sys \<Rightarrow> bool" where
  "live_inv g a answers x \<longleftrightarrow> ring_inv g a answers x \<and> (\<forall>c. saw g (mem x) (cl x c))"

text \<open>What another thread's step may do to the state of the slot a client holds.\<close>

definition moved_on :: "u32 \<Rightarrow> u32 \<Rightarrow> bool" where
  "moved_on st st' \<longleftrightarrow> st' = st \<or> moves_left st' < moves_left st"

lemma server_step_state:
  assumes "server_step g a answers m q m' q'" and "mem_ok g a m" and "sslot q = Some s \<or> sslot q' = Some s" and "s < slot_count g"
    and "slot_ok g answers (bank_size a) (view g m s) (bank a m s) (Some (C_Run k pt)) (sheld s q)"
  shows "moved_on (v_state (view g m s)) (v_state (view g m' s))"
  using assms by (induction rule: server_step.induct) (auto simp: sheld_def moved_on_def moves_left_def view_simps)

lemma client_inv_elsewhere:
  assumes step: "client_step g a (mem x) (cl x c') m p" and inv: "ring_inv g a answers x"
    and s: "cslot (cl x c) = Some s" and "c' \<noteq> c"
  shows "view g m s = view g (mem x) s"
proof -
  from inv obtain co so where ok: "mem_ok g a (mem x)" and own: "owned g a answers x co so" by (auto simp: ring_inv_def)
  have co: "cslot (cl x c) = Some s \<longleftrightarrow> co s = Some c" for c s using own unfolding owned_def by blast
  have sn: "s < slot_count g" using own s co [of c s] unfolding owned_def by simp
  obtain t where t: "cslot (cl x c') = Some t \<or> cslot (cl x c') = None \<and> co t = None" and same: "same_elsewhere g a (mem x) m t"
    by (rule client_step_at [OF step ok own]) (rule that)
  have "s \<noteq> t" using t s co [of c s] co [of c' t] assms(4) by auto
  with same sn show ?thesis by (simp add: same_elsewhere_def)
qed

lemma server_inv_state:
  assumes step: "server_step g a answers (mem x) (sv x k) m q" and inv: "ring_inv g a answers x" and s: "cslot (cl x c) = Some s"
  shows "moved_on (v_state (view g (mem x) s)) (v_state (view g m s))"
proof -
  from inv obtain co so where ok: "mem_ok g a (mem x)" and own: "owned g a answers x co so" by (auto simp: ring_inv_def)
  have co: "co s = Some c" and sn: "s < slot_count g" using own s unfolding owned_def by auto
  obtain kc pt where p: "cl x c = C_Run kc pt" using s by (cases "cl x c") auto
  obtain t where same: "same_elsewhere g a (mem x) m t" and st: "sslot (sv x k) = Some t \<or> sslot q = Some t"
    and hold: "map_option (sv x) (so t) = sheld t (sv x k)"
    by (rule server_step_at [OF step ok own]) (rule that)
  show ?thesis
  proof (cases "t = s")
    case True
    have "slot_ok g answers (bank_size a) (view g (mem x) s) (bank a (mem x) s) (Some (C_Run kc pt)) (sheld s (sv x k))"
      using own sn co p hold True unfolding owned_def by (metis option.simps(9))
    from server_step_state [OF step ok st [unfolded True] sn this] show ?thesis .
  next
    case False
    with same sn show ?thesis by (simp add: same_elsewhere_def moved_on_def)
  qed
qed

lemma client_step_live:
  assumes "client_step g a m p m' p'" and "ring_ok g m" and "cslot p = Some s \<longrightarrow> s < slot_count g" and "saw g m p"
  shows "saw g m' p'" and "giving_up p \<Longrightarrow> giving_up p' \<Longrightarrow> crank g m' p' < crank g m p"
  using assms
  by (induction rule: client_step.induct) (auto simp: abandon_move_def split: if_splits)

lemma saw_moved:
  assumes "saw g m p" and "\<And>s. cslot p = Some s \<Longrightarrow> moved_on (state_at g m s) (state_at g m' s)"
  shows "saw g m' p" and "crank g m' p \<le> crank g m p"
  using assms by (induction g m p rule: saw.induct) (auto simp: moved_on_def)

lemma live_step:
  assumes step: "ring_step g a answers x w y" and inv: "live_inv g a answers x"
  shows "live_inv g a answers y"
    and "giving_up (cl x c) \<Longrightarrow> giving_up (cl y c) \<Longrightarrow> crank g (mem y) (cl y c) \<le> crank g (mem x) (cl x c)"
    and "w = Client c \<Longrightarrow> giving_up (cl x c) \<Longrightarrow> giving_up (cl y c) \<Longrightarrow> crank g (mem y) (cl y c) < crank g (mem x) (cl x c)"
proof -
  have ri: "ring_inv g a answers x" and saw: "\<And>c. saw g (mem x) (cl x c)" using inv by (auto simp: live_inv_def)
  have ri': "ring_inv g a answers y" by (rule ring_step_inv [OF step ri])
  have ok: "ring_ok g (mem x)" "ring_ok g (mem y)" using ri ri' by (auto simp: ring_inv_def)
  have less: "cslot (cl x c) = Some s \<Longrightarrow> s < slot_count g" for c s by (rule inv_client [OF ri])
  have mine: "saw g (mem y) (cl y c) \<and> (giving_up (cl x c) \<longrightarrow> giving_up (cl y c) \<longrightarrow> crank g (mem y) (cl y c) < crank g (mem x) (cl x c))"
    if "w = Client c" for c
    using step that client_step_live [OF _ ok(1) _ saw [of c]] less [of c] by (cases rule: ring_step.cases) fastforce+
  have other: "cl y c = cl x c \<and> saw g (mem y) (cl x c) \<and> crank g (mem y) (cl x c) \<le> crank g (mem x) (cl x c)"
    if "w \<noteq> Client c" for c
  proof -
    have eq: "cl y c = cl x c" using step that by (cases rule: ring_step.cases) auto
    have "moved_on (state_at g (mem x) s) (state_at g (mem y) s)" if s: "cslot (cl x c) = Some s" for s
      using step
    proof (cases rule: ring_step.cases)
      case (by_client c' m p)
      then have "view g m s = view g (mem x) s" using client_inv_elsewhere [OF _ ri s] \<open>w \<noteq> Client c\<close> by auto
      then show ?thesis using by_client ok less [OF s] by (simp add: moved_on_def view_simps)
    next
      case (by_server k m q)
      then show ?thesis using server_inv_state [OF _ ri s] ok less [OF s] by (simp add: view_simps)
    qed
    with saw_moved [OF saw [of c]] eq show ?thesis by blast
  qed
  show "live_inv g a answers y" using mine other ri' unfolding live_inv_def by metis
  show "giving_up (cl x c) \<Longrightarrow> giving_up (cl y c) \<Longrightarrow> crank g (mem y) (cl y c) \<le> crank g (mem x) (cl x c)"
    using mine [of c] other [of c] by (cases "w = Client c") auto
  show "w = Client c \<Longrightarrow> giving_up (cl x c) \<Longrightarrow> giving_up (cl y c) \<Longrightarrow> crank g (mem y) (cl y c) < crank g (mem x) (cl x c)"
    using mine [of c] by auto
qed

interpretation leave: progress "ring_step g a answers" "live_inv g a answers" "Client c"
  "\<lambda>x. giving_up (cl x c)" "\<lambda>x. crank g (mem x) (cl x c)" for g a answers c
  by unfold_locales (auto intro: live_step)

end
