(* ===== verification/Ring_Claims.thy ===== *)
theory Ring_Claims
  imports Ring_Live
begin

text \<open>
  The claims about threads on a ring, and what ties the machine to the operations of \<^verbatim>\<open>Ring\<close>: a thread whose steps
  nobody interleaves with computes what the operation computes.
\<close>

section \<open>Threads that run alone\<close>

definition client_alone :: "geom \<Rightarrow> data_arena \<Rightarrow> seg \<Rightarrow> cpc \<Rightarrow> seg \<Rightarrow> cpc \<Rightarrow> bool" where
  "client_alone g a m p m' p' \<longleftrightarrow> (\<lambda>x y. client_step g a (fst x) (snd x) (fst y) (snd y))\<^sup>*\<^sup>* (m, p) (m', p')"

definition server_alone :: "geom \<Rightarrow> data_arena \<Rightarrow> (request \<Rightarrow> u64 \<Rightarrow> answer \<Rightarrow> bool) \<Rightarrow> seg \<Rightarrow> spc \<Rightarrow> seg \<Rightarrow> spc \<Rightarrow> bool" where
  "server_alone g a answers m q m' q' \<longleftrightarrow> (\<lambda>x y. server_step g a answers (fst x) (snd x) (fst y) (snd y))\<^sup>*\<^sup>* (m, q) (m', q')"

lemma client_alone_refl: "client_alone g a m p m p"
  by (simp add: client_alone_def)

lemma client_alone_step: "client_step g a m p m1 p1 \<Longrightarrow> client_alone g a m1 p1 m' p' \<Longrightarrow> client_alone g a m p m' p'"
  unfolding client_alone_def by (rule converse_rtranclp_into_rtranclp) auto

lemma server_alone_refl: "server_alone g a answers m q m q"
  by (simp add: server_alone_def)

lemma server_alone_step:
  "server_step g a answers m q m1 q1 \<Longrightarrow> server_alone g a answers m1 q1 m' q' \<Longrightarrow> server_alone g a answers m q m' q'"
  unfolding server_alone_def by (rule converse_rtranclp_into_rtranclp) auto

lemma reach_client_alone:
  assumes "reach g a answers x" and "client_alone g a (mem x) (cl x c) m p"
  shows "reach g a answers (x\<lparr>mem := m, cl := (cl x)(c := p)\<rparr>)"
proof -
  have "reach g a answers (x\<lparr>mem := fst y, cl := (cl x)(c := snd y)\<rparr>)"
    if "(\<lambda>x y. client_step g a (fst x) (snd x) (fst y) (snd y))\<^sup>*\<^sup>* (mem x, cl x c) y" for y
    using that
  proof (induction rule: rtranclp_induct)
    case base
    then show ?case using assms(1) by simp
  next
    case (step y z)
    then have "ring_step g a answers (x\<lparr>mem := fst y, cl := (cl x)(c := snd y)\<rparr>) (Client c) (x\<lparr>mem := fst z, cl := (cl x)(c := snd z)\<rparr>)"
      using by_client [of g a "x\<lparr>mem := fst y, cl := (cl x)(c := snd y)\<rparr>" c "fst z" "snd z" answers] by simp
    with step.IH show ?case by (rule reach.step)
  qed
  from this [of "(m, p)"] assms(2) show ?thesis by (simp add: client_alone_def)
qed

lemma reach_server_alone:
  assumes "reach g a answers x" and "server_alone g a answers (mem x) (sv x k) m q"
  shows "reach g a answers (x\<lparr>mem := m, sv := (sv x)(k := q)\<rparr>)"
proof -
  have "reach g a answers (x\<lparr>mem := fst y, sv := (sv x)(k := snd y)\<rparr>)"
    if "(\<lambda>x y. server_step g a answers (fst x) (snd x) (fst y) (snd y))\<^sup>*\<^sup>* (mem x, sv x k) y" for y
    using that
  proof (induction rule: rtranclp_induct)
    case base
    then show ?case using assms(1) by simp
  next
    case (step y z)
    then have "ring_step g a answers (x\<lparr>mem := fst y, sv := (sv x)(k := snd y)\<rparr>) (Server k) (x\<lparr>mem := fst z, sv := (sv x)(k := snd z)\<rparr>)"
      using by_server [of g a answers "x\<lparr>mem := fst y, sv := (sv x)(k := snd y)\<rparr>" k "fst z" "snd z"] by simp
    with step.IH show ?case by (rule reach.step)
  qed
  from this [of "(m, q)"] assms(2) show ?thesis by (simp add: server_alone_def)
qed

text \<open>A client that runs alone does what \<^verbatim>\<open>publish_request\<close>, \<^verbatim>\<open>take_response\<close> and \<^verbatim>\<open>abandon\<close> do.\<close>

lemma publish_alone:
  assumes ok: "ring_ok g m" and s: "s < slot_count g"
    and eq: "publish_request m g s (rq_op r) (rq_flags r) (rq_payload r) = (m', Inr rid)"
  shows "client_alone g a m (C_Run \<lparr>c_slot = s, c_req = r, c_id = 0\<rparr> P_Claimed) m' (C_Run \<lparr>c_slot = s, c_req = r, c_id = rid\<rparr> P_Wait)"
proof -
  have fits: "length (rq_payload r) \<le> unat (payload_cap g)" using eq by (auto simp: publish_request_def split: if_splits)
  show ?thesis
    by (rule client_alone_step [OF new_id], rule client_alone_step [OF put_opcode], rule client_alone_step [OF put_flags],
        rule client_alone_step [OF put_len], rule client_alone_step [OF put_id], rule client_alone_step [OF put_payload],
        rule client_alone_step [OF submit], rule client_alone_step [OF bump])
      (use eq fits ok s in \<open>auto simp: publish_request_def Let_def seq_atomic [where g = g] state_ref_eq view_simps client_alone_refl\<close>)
qed

lemma response_alone:
  assumes ok: "ring_ok g m" and s: "c_slot k < slot_count g" and eq: "take_response m g (c_slot k) (c_id k) = Inr (Some (st, d))"
  shows "client_alone g a m (C_Run k P_Wait) m (C_Run k (P_Bank st d))"
proof -
  let ?v = "view g m (c_slot k)"
  have v: "v_state ?v = ST_COMPLETED" "v_ack ?v = ucast (c_id k)" "unat (v_len ?v) \<le> unat (payload_cap g)"
    "st = v_status ?v" "d = take (unat (v_len ?v)) (v_data ?v)"
    using eq by (auto simp: take_response_view [OF ok s] Let_def split: if_splits)
  note rd = read_slot [OF ok s]
  show ?thesis
    by (rule client_alone_step [OF completed], use rd v in simp, rule client_alone_step [OF ack], use rd v in simp,
        rule client_alone_step [OF get_status [OF rd(5)]], rule client_alone_step [OF get_len [OF rd(4) v(3)]],
        rule client_alone_step [OF get_payload [OF rd(8) [OF v(3)]]])
      (use v in \<open>simp add: client_alone_refl\<close>)
qed

lemma abandon_alone:
  assumes ok: "ring_ok g m" and s: "c_slot k < slot_count g" and eq: "abandon m g (c_slot k) = Some (m', Inr o1)"
  shows "client_alone g a m (C_Run k (P_Abandon e)) m' (C_Failed e o1)"
proof (cases "abandon_move (state_at g m (c_slot k))")
  case (Inl o2)
  then have "m' = m" "o2 = o1" using eq by (auto simp: abandon_def state_ref_eq [OF ok s])
  with Inl show ?thesis by (auto intro: client_alone_step leave client_alone_refl)
next
  case (Inr move)
  obtain old new o2 where move: "move = (old, new, o2)" by (cases move)
  have old: "old = state_at g m (c_slot k)" using Inr move by (auto simp: abandon_move_def split: if_splits)
  then have "m' = set_state g m (c_slot k) new" "o2 = o1"
    using eq Inr move by (auto simp: abandon_def state_ref_eq [OF ok s] compare_exchange_eq)
  with Inr move old show ?thesis
    by (auto intro: client_alone_step [OF choose] client_alone_step [OF swap] client_alone_refl)
qed

text \<open>A server that runs alone reads what \<^verbatim>\<open>read_request\<close> reads and leaves what \<^verbatim>\<open>server_complete\<close> leaves.\<close>

lemma read_alone:
  assumes ok: "ring_ok g m" and s: "s < slot_count g" and eq: "read_request m g s = Some (op, fl, rid, d)"
  shows "server_alone g a answers m (S_Run s Q_Opcode) m (S_Run s (Q_Handle \<lparr>rq_op = op, rq_flags = fl, rq_payload = d\<rparr> rid))"
proof -
  let ?v = "view g m s"
  have v: "unat (v_len ?v) \<le> unat (payload_cap g)" "op = v_opcode ?v" "fl = v_flags ?v" "rid = v_id ?v"
    "d = take (unat (v_len ?v)) (v_data ?v)"
    using eq by (auto simp: read_request_view [OF ok s] Let_def split: if_splits)
  note rd = read_slot [OF ok s]
  show ?thesis
    by (rule server_alone_step [OF rd_opcode [OF rd(2)]], rule server_alone_step [OF rd_flags [OF rd(3)]],
        rule server_alone_step [OF rd_id [OF rd(7)]], rule server_alone_step [OF rd_len [OF rd(4) v(1)]],
        rule server_alone_step [OF rd_payload [OF rd(8) [OF v(1)]]])
      (use v in \<open>simp add: server_alone_refl\<close>)
qed

lemma write_response_alone:
  assumes ok: "ring_ok g m" and s: "s < slot_count g" and st: "v_state (view g m s) = ST_PROCESSING" and id: "v_id (view g m s) = rid"
    and eq: "server_complete m g s rid (an_status x) (an_resp x) = (m', Inr out)"
  shows "server_alone g a answers m (S_Run s (Q_Data r rid x)) m' (S_Idle (Some out))"
proof -
  define m1 where "m1 = (if length (an_resp x) > unat (payload_cap g) then m else fst (write_bytes m (payload_off g s) (an_resp x)))"
  have data: "server_step g a answers m (S_Run s (Q_Data r rid x)) m1 (S_Run s (Q_Status r rid x))"
    unfolding m1_def by (auto intro: wr_payload too_long)
  have ok1: "ring_ok g m1" and st1: "v_state (view g m1 s) = ST_PROCESSING"
    using ok s st by (auto simp: m1_def view_simps)
  define m2 where "m2 = seg_write_u32 (seg_write_u32 (seg_write_i32 m1 (slot_off g s + SH_STATUS) (fst (on_wire g (an_status x) (an_resp x))))
    (slot_off g s + SH_PAYLOAD_LEN) (word_of_nat (length (snd (on_wire g (an_status x) (an_resp x)))))) (slot_off g s + SH_ACK) (ucast rid)"
  have st2: "state_at g m2 s = ST_PROCESSING" using ok1 s st1 by (simp add: m2_def view_simps)
  have m': "m' = set_state g m2 s ST_COMPLETED" "out = Delivered"
    using eq ok s st id st2 unfolding m2_def m1_def
    by (auto simp: server_complete_def Let_def state_ref_eq compare_exchange_eq on_wire_def view_simps split: if_splits)
  show ?thesis unfolding m'
    by (rule server_alone_step [OF data], rule server_alone_step [OF wr_status], rule server_alone_step [OF wr_len],
        rule server_alone_step [OF wr_ack], fold m2_def, rule server_alone_step [OF publish [OF st2]], rule server_alone_refl)
qed

lemma complete_alone:
  assumes ok: "ring_ok g m" and s: "s < slot_count g"
    and eq: "server_complete m g s rid (an_status x) (an_resp x) = (m', Inr out)"
  shows "server_alone g a answers m (S_Run s (Q_Check r rid x)) m' (S_Idle (Some out))"
proof (cases "v_id (view g m s) = rid")
  case False
  then have "m' = m" "out = Stale" using eq ok s by (auto simp: server_complete_def Let_def state_ref_eq view_simps)
  moreover have "server_step g a answers m (S_Run s (Q_Check r rid x)) m (S_Idle (Some Stale))"
    using False by (intro other_id) (simp add: read_slot(7) [OF ok s])
  ultimately show ?thesis by (auto intro: server_alone_step server_alone_refl)
next
  case True
  have to_load: "server_step g a answers m (S_Run s (Q_Check r rid x)) m (S_Run s (Q_Load r rid x))"
    using True by (intro check) (simp add: read_slot(7) [OF ok s])
  note state = read_slot(1) [OF ok s]
  have "server_alone g a answers m (S_Run s (Q_Load r rid x)) m' (S_Idle (Some out))"
  proof (cases "v_state (view g m s) \<in> {ST_PROCESSING, ST_ABANDONED}")
    case False
    then have "m' = m" "out = Stale" using eq ok s True by (auto simp: server_complete_def Let_def state_ref_eq view_simps)
    with False show ?thesis by (auto intro!: server_alone_step [OF not_ours] server_alone_refl simp: state)
  next
    case True2: True
    show ?thesis
    proof (cases "v_state (view g m s) = ST_PROCESSING")
      case True3: True
      then show ?thesis
        by (auto intro: server_alone_step [OF wanted] write_response_alone [OF ok s True3 True eq] simp: state)
    next
      case False
      then have ab: "v_state (view g m s) = ST_ABANDONED" using True2 by simp
      then have "m' = set_state g m s ST_FREE" "out = Drained"
        using server_complete_abandoned [OF ok s ab True] eq by auto
      moreover have "state_at g m s = ST_ABANDONED" using ab state by simp
      ultimately show ?thesis
        by (auto intro: server_alone_step [OF unwanted] server_alone_step [OF drained] server_alone_refl)
    qed
  qed
  with to_load show ?thesis by (rule server_alone_step)
qed

text \<open>A whole call, one thread at a time.\<close>

lemma client_alone_trans: "client_alone g a m p m1 p1 \<Longrightarrow> client_alone g a m1 p1 m' p' \<Longrightarrow> client_alone g a m p m' p'"
  unfolding client_alone_def by (rule rtranclp_trans)

lemma server_alone_trans:
  "server_alone g a answers m q m1 q1 \<Longrightarrow> server_alone g a answers m1 q1 m' q' \<Longrightarrow> server_alone g a answers m q m' q'"
  unfolding server_alone_def by (rule rtranclp_trans)

lemma serve_alone:
  assumes ok: "mem_ok g a m" and s: "s < slot_count g" and st: "v_state (view g m s) = ST_SUBMITTED"
    and rd: "read_request m g s = Some (rq_op r, rq_flags r, rid, rq_payload r)" and z: "answers r rid z" "length (an_bulk z) \<le> bank_size a"
  obtains m' where "server_alone g a answers m (S_Idle o1) m' (S_Idle (Some Delivered))"
    and "take_response m' g s rid = Inr (Some (on_wire g (an_status z) (an_resp z)))"
proof -
  have rok: "ring_ok g m" using ok by simp
  let ?m1 = "set_state g m s ST_PROCESSING" and ?r = "\<lparr>rq_op = rq_op r, rq_flags = rq_flags r, rq_payload = rq_payload r\<rparr>"
  let ?m2 = "fst (write_bytes ?m1 (bank_mapping_offset a s) (an_bulk z))"
  have ok1: "mem_ok g a ?m1" and ok2: "mem_ok g a ?m2" using ok s by (simp_all add: view_simps)
  have v1: "view g ?m1 s = (view g m s)\<lparr>v_state := ST_PROCESSING\<rparr>" using rok s by (simp add: view_simps)
  have v2: "view g ?m2 s = view g ?m1 s" by (rule view_bank [OF ok1 s s z(2)])
  have rd1: "read_request ?m1 g s = Some (rq_op r, rq_flags r, rid, rq_payload r)"
    using rd ok1 rok s by (simp add: read_request_view v1 Let_def split: if_splits)
  have id: "v_id (view g m s) = rid" using rd rok s by (auto simp: read_request_view Let_def split: if_splits)
  obtain m' where c: "server_complete ?m2 g s rid (an_status z) (an_resp z) = (m', Inr Delivered)" and ok': "ring_ok g m'"
    and t: "take_response m' g s rid = Inr (Some (on_wire g (an_status z) (an_resp z)))"
    by (rule server_complete_view [of g ?m2 s rid "an_status z" "an_resp z"]) (use ok2 s v2 v1 id that in auto)
  have "server_alone g a answers m (S_Idle o1) ?m1 (S_Run s (Q_Handle ?r rid))"
    by (rule server_alone_step [OF grab [OF s]]) (use st rok s ok1 rd1 in \<open>auto simp: view_simps intro: read_alone\<close>)
  moreover have "server_alone g a answers ?m1 (S_Run s (Q_Handle ?r rid)) ?m2 (S_Run s (Q_Check ?r rid z))"
    using server_alone_step [OF handle [of answers ?r rid z a] server_alone_step [OF fill server_alone_refl]] z by (cases r) simp
  moreover have "server_alone g a answers ?m2 (S_Run s (Q_Check ?r rid z)) m' (S_Idle (Some Delivered))"
    by (rule complete_alone [OF _ s c]) (use ok2 in simp)
  ultimately have alone: "server_alone g a answers m (S_Idle o1) m' (S_Idle (Some Delivered))"
    by (meson server_alone_trans)
  then show thesis using that [OF _ t] by blast
qed

lemma submit_reaches:
  assumes x: "reach g a answers x" and idle: "cl x c = C_Idle" and s: "s < slot_count g"
    and free: "v_state (view g (mem x) s) = ST_FREE" and fits: "length (rq_payload r) \<le> unat (payload_cap g)"
  obtains m rid where "reach g a answers (x\<lparr>mem := m, cl := (cl x)(c := C_Run \<lparr>c_slot = s, c_req = r, c_id = rid\<rparr> P_Wait)\<rparr>)"
    and "mem_ok g a m" and "v_state (view g m s) = ST_SUBMITTED"
    and "read_request m g s = Some (rq_op r, rq_flags r, rid, rq_payload r)"
proof -
  have rx: "ring_ok g (mem x)" using reach_inv [OF x] by (auto simp: ring_inv_def)
  have stx: "state_at g (mem x) s = ST_FREE" using free by (simp add: read_slot(1) [OF rx s])
  let ?m0 = "set_state g (mem x) s ST_CLAIMED"
  have ok0: "ring_ok g ?m0" using rx s by (simp add: view_simps)
  obtain m1 where pub: "publish_request ?m0 g s (rq_op r) (rq_flags r) (rq_payload r) = (m1, Inr (load64 ?m0 RH_REQ_SEQ))" and ok1: "ring_ok g m1"
    and v: "\<And>t. t < slot_count g \<Longrightarrow> view g m1 t =
      (if t = s then (view g ?m0 s)\<lparr>v_state := ST_SUBMITTED, v_opcode := rq_op r, v_flags := rq_flags r,
         v_len := word_of_nat (length (rq_payload r)), v_id := load64 ?m0 RH_REQ_SEQ,
         v_data := rq_payload r @ drop (length (rq_payload r)) (v_data (view g ?m0 s))\<rparr> else view g ?m0 t)"
    by (rule publish_request_view [OF ok0 s fits, of "rq_op r" "rq_flags r"]) (rule that; blast)
  note v1 = v [OF s, simplified]
  define rid where "rid = load64 ?m0 RH_REQ_SEQ"
  have "client_alone g a (mem x) (cl x c) m1 (C_Run \<lparr>c_slot = s, c_req = r, c_id = rid\<rparr> P_Wait)"
    by (rule client_alone_step [OF claim [of _ r g s]]) (use idle fits s stx publish_alone [OF ok0 s pub] in \<open>auto simp: rid_def\<close>)
  from reach_client_alone [OF x this]
  have x1: "reach g a answers (x\<lparr>mem := m1, cl := (cl x)(c := C_Run \<lparr>c_slot = s, c_req = r, c_id = rid\<rparr> P_Wait)\<rparr>)" .
  show thesis
  proof (rule that [OF x1])
    show "mem_ok g a m1" using reach_inv [OF x1] by (simp add: ring_inv_def)
    show "read_request m1 g s = Some (rq_op r, rq_flags r, rid, rq_payload r)"
      using fits by (simp add: read_request_view [OF ok1 s] v1 Let_def rid_def unat_cap_len)
  qed (use v1 in simp)
qed

lemma call_reaches:
  assumes x: "reach g a answers x" and idle: "cl x c = C_Idle" "sv x k = S_Idle None" and s: "s < slot_count g"
    and free: "v_state (view g (mem x) s) = ST_FREE" and fits: "length (rq_payload r) \<le> unat (payload_cap g)"
    and z: "\<And>rid. answers r rid z" "length (an_bulk z) \<le> bank_size a"
  shows "\<exists>m rid. reach g a answers (x\<lparr>mem := m, cl := (cl x)(c := C_Done r rid (fst (on_wire g (an_status z) (an_resp z)))
      (snd (on_wire g (an_status z) (an_resp z))) []), sv := (sv x)(k := S_Idle (Some Delivered))\<rparr>)"
proof (rule submit_reaches [OF x idle(1) s free fits])
  fix m1 rid
  let ?k = "\<lparr>c_slot = s, c_req = r, c_id = rid\<rparr>" and ?w = "on_wire g (an_status z) (an_resp z)"
  assume x1: "reach g a answers (x\<lparr>mem := m1, cl := (cl x)(c := C_Run ?k P_Wait)\<rparr>)" and ok1: "mem_ok g a m1"
    and st1: "v_state (view g m1 s) = ST_SUBMITTED" and rd: "read_request m1 g s = Some (rq_op r, rq_flags r, rid, rq_payload r)"
  obtain m2 where srv: "server_alone g a answers m1 (S_Idle None) m2 (S_Idle (Some Delivered))"
    and t: "take_response m2 g s rid = Inr (Some ?w)"
    by (rule serve_alone [where answers = answers and z = z, OF ok1 s st1 rd]) (use z in \<open>auto intro: that\<close>)
  let ?x2 = "x\<lparr>mem := m2, cl := (cl x)(c := C_Run ?k P_Wait), sv := (sv x)(k := S_Idle (Some Delivered))\<rparr>"
  have x2: "reach g a answers ?x2"
    using reach_server_alone [OF x1, of k m2 "S_Idle (Some Delivered)"] srv idle(2) by (cases x) simp
  then have ok2: "mem_ok g a m2" using reach_inv [OF x2] by (simp add: ring_inv_def)
  have "client_alone g a m2 (C_Run ?k P_Wait) m2 (C_Run ?k (P_Bank (fst ?w) (snd ?w)))"
    by (rule response_alone) (use ok2 s t in auto)
  moreover have "client_step g a m2 (C_Run ?k (P_Bank (fst ?w) (snd ?w))) m2 (C_Run ?k (P_Free (fst ?w) (snd ?w) []))"
    by (rule copy_bank [of 0]) (use bank_fits(1) [OF ok2 s] ring_okD(4) [of g m2] ok2 in \<open>simp_all add: copy_to_def in_bounds_def\<close>)
  moreover have "client_alone g a m2 (C_Run ?k (P_Free (fst ?w) (snd ?w) [])) (set_state g m2 s ST_FREE) (C_Done r rid (fst ?w) (snd ?w) [])"
    using client_alone_step [OF release client_alone_refl, of g a m2 ?k] by simp
  ultimately have "client_alone g a (mem ?x2) (cl ?x2 c) (set_state g m2 s ST_FREE) (C_Done r rid (fst ?w) (snd ?w) [])"
    by (auto intro: client_alone_trans client_alone_step)
  from reach_client_alone [OF x2 this] show ?thesis by (intro exI [of _ "set_state g m2 s ST_FREE"] exI [of _ rid]) (cases x, simp)
qed

section \<open>Claims\<close>

text \<open>C1. Whatever the interleaving of any number of clients and workers, timeouts included, a client that gets a
  response gets the answer the handler gave to its own request: the status and payload it reads are the ones its
  request was answered with (or \<^verbatim>\<open>i32::MIN\<close> when they did not fit), and bytes it copies out of its arena bank,
  as far as the handler filled it, are the ones the handler put there for this request. No client is ever shown
  another's reply (\<^verbatim>\<open>BadResponse\<close>) and no worker finds its slot taken over (\<^verbatim>\<open>Stale\<close>).\<close>

theorem own_answer:
  assumes "reach g a answers x"
  shows "(cl x c = C_Done r rid st d bk \<longrightarrow> (\<exists>z. answers r rid z \<and> (st, d) = on_wire g (an_status z) (an_resp z) \<and>
      (length bk \<le> length (an_bulk z) \<longrightarrow> bk = take (length bk) (an_bulk z)))) \<and>
    cl x c \<noteq> C_Failed BadResponse o1 \<and> sv x k \<noteq> S_Idle (Some Stale)"
proof -
  have "finished_ok g answers (cl x c)" "sv x k \<noteq> S_Idle (Some Stale)"
    using reach_inv [OF assms] by (auto simp: ring_inv_def)
  then show ?thesis by auto
qed

text \<open>C7. A slot's state word says who holds it: exactly one client while it is claimed, submitted, in processing or
  completed, exactly one worker while it is in processing or abandoned, and nobody precisely when it is free; so
  a slot is never claimed twice and none is lost.\<close>

theorem slot_owners:
  assumes "reach g a answers x" and "s < slot_count g"
  shows "((\<exists>!c. cslot (cl x c) = Some s) \<longleftrightarrow> v_state (view g (mem x) s) \<in> {ST_CLAIMED, ST_SUBMITTED, ST_PROCESSING, ST_COMPLETED}) \<and>
    ((\<exists>!k. sslot (sv x k) = Some s) \<longleftrightarrow> v_state (view g (mem x) s) \<in> {ST_PROCESSING, ST_ABANDONED}) \<and>
    ((\<forall>c k. cslot (cl x c) \<noteq> Some s \<and> sslot (sv x k) \<noteq> Some s) \<longleftrightarrow> v_state (view g (mem x) s) = ST_FREE)"
proof -
  obtain co so where co: "\<And>c s. cslot (cl x c) = Some s \<longleftrightarrow> co s = Some c"
    and so: "\<And>k s. sslot (sv x k) = Some s \<longleftrightarrow> so s = Some k"
    and ok: "\<And>s. s < slot_count g \<Longrightarrow> slot_ok g answers (bank_size a) (view g (mem x) s) (bank a (mem x) s)
      (map_option (cl x) (co s)) (map_option (sv x) (so s))"
    by (rule inv_slot [OF reach_inv [OF assms(1)]]) (rule that)
  have slot: "slot_ok g answers (bank_size a) (view g (mem x) s) (bank a (mem x) s) (map_option (cl x) (co s)) (map_option (sv x) (so s))"
    by (rule ok [OF assms(2)])
  have "co s \<noteq> None \<longleftrightarrow> v_state (view g (mem x) s) \<in> {ST_CLAIMED, ST_SUBMITTED, ST_PROCESSING, ST_COMPLETED}"
    "so s \<noteq> None \<longleftrightarrow> v_state (view g (mem x) s) \<in> {ST_PROCESSING, ST_ABANDONED}"
    "co s = None \<and> so s = None \<longleftrightarrow> v_state (view g (mem x) s) = ST_FREE"
    using slot by (cases "map_option (cl x) (co s)" rule: co_cases; cases "map_option (sv x) (so s)" rule: so_cases; auto simp: slot_ok_rest)+
  then show ?thesis by (auto simp: co so)
qed

text \<open>The slot whose header, payload or bank the next access of a thread reads or writes with no atomic operation.\<close>

fun c_touch :: "cpc \<Rightarrow> u32 option" where
  "c_touch (C_Run k P_Opcode) = Some (c_slot k)"
| "c_touch (C_Run k P_Flags) = Some (c_slot k)"
| "c_touch (C_Run k P_Len) = Some (c_slot k)"
| "c_touch (C_Run k P_Id) = Some (c_slot k)"
| "c_touch (C_Run k P_Payload) = Some (c_slot k)"
| "c_touch (C_Run k P_Ack) = Some (c_slot k)"
| "c_touch (C_Run k P_Status) = Some (c_slot k)"
| "c_touch (C_Run k (P_RLen st)) = Some (c_slot k)"
| "c_touch (C_Run k (P_RData st n)) = Some (c_slot k)"
| "c_touch (C_Run k (P_Bank st d)) = Some (c_slot k)"
| "c_touch _ = None"

fun s_touch :: "spc \<Rightarrow> u32 option" where
  "s_touch (S_Run s Q_Drain) = None"
| "s_touch (S_Run s (Q_Load r rid x)) = None"
| "s_touch (S_Run s (Q_Cas r rid x)) = None"
| "s_touch (S_Run s Q_Broken) = None"
| "s_touch (S_Run s q) = Some s"
| "s_touch (S_Idle o1) = None"

text \<open>C6. The accesses the code makes without atomic operations never race: while a client is about to read or write
  the header, payload or bank of a slot no worker holds that slot, and no two clients and no two workers are
  about to touch the same slot.\<close>

theorem no_data_race:
  assumes "reach g a answers x"
  shows "(c_touch (cl x c) = Some s \<longrightarrow> sslot (sv x k) \<noteq> Some s) \<and>
    (c_touch (cl x c) = Some s \<and> c_touch (cl x c') = Some s \<longrightarrow> c' = c) \<and>
    (s_touch (sv x k) = Some s \<and> s_touch (sv x k') = Some s \<longrightarrow> k' = k)"
proof -
  note inv = reach_inv [OF assms]
  have c_hold: "c_touch p = Some t \<Longrightarrow> cslot p = Some t" for p t by (induction p rule: c_touch.induct) auto
  have s_hold: "s_touch q = Some t \<Longrightarrow> sslot q = Some t" for q t by (induction q rule: s_touch.induct) auto
  have "sslot (sv x k) \<noteq> Some s" if touch: "c_touch (cl x c) = Some s"
  proof
    assume k: "sslot (sv x k) = Some s"
    obtain so where slot: "slot_ok g answers (bank_size a) (view g (mem x) s) (bank a (mem x) s) (Some (cl x c)) (map_option (sv x) so)"
      and so: "\<And>k. sslot (sv x k) = Some s \<longleftrightarrow> so = Some k"
      by (rule inv_client [OF inv c_hold [OF touch]]) (rule that)
    obtain t q where "sv x k = S_Run t q" using k by (cases "sv x k") auto
    then have "slot_ok g answers (bank_size a) (view g (mem x) s) (bank a (mem x) s) (Some (cl x c)) (Some (S_Run t q))"
      using slot so [of k] k by simp
    then show False using touch by (cases "cl x c" rule: c_touch.cases) auto
  qed
  then show ?thesis by (blast dest: c_hold s_hold intro: inv_exclusive [OF inv])
qed

lemma reach_live: "reach g a answers x \<Longrightarrow> live_inv g a answers x"
proof (induction rule: reach.induct)
  case (start m n cap m')
  then show ?case using reach_inv [OF reach.start [OF start]] by (simp add: live_inv_def)
next
  case step
  then show ?case by (blast intro: live_step)
qed




section \<open>Witnesses\<close>

text \<open>The ring of one slot, its arena bank behind it, and a handler with one answer.\<close>

definition demo_arena :: data_arena where
  "demo_arena = arena_new 88 4096 1"

definition demo_answer :: answer where
  "demo_answer = \<lparr>an_status = 5, an_resp = [1, 2, 3], an_bulk = [9]\<rparr>"

definition demo_handler :: "request \<Rightarrow> u64 \<Rightarrow> answer \<Rightarrow> bool" where
  "demo_handler r rid z \<longleftrightarrow> z = demo_answer"

definition demo_request :: request where
  "demo_request = \<lparr>rq_op = 1, rq_flags = 0, rq_payload = [7]\<rparr>"

lemma demo_reach:
  obtains m where "reach demo_geom demo_arena demo_handler \<lparr>mem = m, cl = \<lambda>_. C_Idle, sv = \<lambda>_. S_Idle None\<rparr>"
    and "v_state (view demo_geom m 0) = ST_FREE" and "ring_ok demo_geom m"
proof -
  obtain m where init: "ring_init (replicate 4200 0) 1 8 = (m, Inr demo_geom)" using demo_init by blast
  have stride: "align8 (SLOT_HEADER_SIZE + unat (8 :: u32)) < 2 ^ 32" and len: "length (replicate 4200 (0 :: u8)) < 2 ^ 64"
    by (simp_all add: size_defs demo_align)
  note ok = ring_init_ok [OF init stride len]
  have "length m = 4200" using length_ring_init [OF init] by simp
  then have "arena_ok demo_geom demo_arena m"
    by (simp add: arena_ok_def demo_geom_def demo_arena_def arena_new_def size_defs)
  then show thesis using that [OF reach.start [OF init stride len]] ok by simp
qed

lemma demo_busy:
  obtains x m k where "reach demo_geom demo_arena demo_handler x" and "x = \<lparr>mem = m, cl = (\<lambda>_. C_Idle)(0 := C_Run k P_Wait), sv = \<lambda>_. S_Idle None\<rparr>"
    and "c_slot k = 0" and "v_state (view demo_geom m 0) = ST_SUBMITTED" and "ring_ok demo_geom m"
proof (rule demo_reach)
  fix m
  assume m: "reach demo_geom demo_arena demo_handler \<lparr>mem = m, cl = \<lambda>_. C_Idle, sv = \<lambda>_. S_Idle None\<rparr>"
    and free: "v_state (view demo_geom m 0) = ST_FREE"
  show thesis
    by (rule submit_reaches [OF m, of 0 0 demo_request])
      (use free in \<open>auto simp: demo_geom_def demo_request_def intro: that\<close>)
qed

theorem own_answer_witness:
  "\<exists>x rid. reach demo_geom demo_arena demo_handler x \<and> cl x 0 = C_Done demo_request rid 5 [1, 2, 3] [] \<and>
     (\<exists>z. demo_handler demo_request rid z \<and> (5, [1, 2, 3]) = on_wire demo_geom (an_status z) (an_resp z)) \<and>
     sv x 0 \<noteq> S_Idle (Some Stale)"
proof (rule demo_reach)
  fix m
  assume m: "reach demo_geom demo_arena demo_handler \<lparr>mem = m, cl = \<lambda>_. C_Idle, sv = \<lambda>_. S_Idle None\<rparr>"
    and free: "v_state (view demo_geom m 0) = ST_FREE"
  have wire: "on_wire demo_geom (an_status demo_answer) (an_resp demo_answer) = (5, [1, 2, 3])"
    by (simp add: on_wire_def demo_geom_def demo_answer_def)
  obtain m' rid where x: "reach demo_geom demo_arena demo_handler
      \<lparr>mem = m', cl = (\<lambda>_. C_Idle)(0 := C_Done demo_request rid 5 [1, 2, 3] []), sv = (\<lambda>_. S_Idle None)(0 := S_Idle (Some Delivered))\<rparr>" (is "reach _ _ _ ?x")
    using call_reaches [OF m, of 0 0 0 demo_request demo_answer] free
    by (auto simp: wire demo_handler_def) (auto simp: demo_geom_def demo_request_def demo_answer_def demo_arena_def arena_new_def)
  show ?thesis
    using own_answer [OF x, of 0 demo_request rid 5 "[1, 2, 3]" "[]" Freed 0] x
    by (intro exI [of _ ?x] exI [of _ rid]) auto
qed

theorem slot_owners_witness:
  "\<exists>x. reach demo_geom demo_arena demo_handler x \<and> (0 :: u32) < slot_count demo_geom \<and>
     (\<exists>!c. cslot (cl x c) = Some 0) \<and> \<not> (\<exists>!k. sslot (sv x k) = Some 0)"
proof (rule demo_busy)
  fix x m k
  assume x: "reach demo_geom demo_arena demo_handler x" and eq: "x = \<lparr>mem = m, cl = (\<lambda>_. C_Idle)(0 := C_Run k P_Wait), sv = \<lambda>_. S_Idle None\<rparr>"
    and st: "v_state (view demo_geom m 0) = ST_SUBMITTED"
  have less: "(0 :: u32) < slot_count demo_geom" by (simp add: demo_geom_def)
  show ?thesis using slot_owners [OF x less] x less st by (intro exI [of _ x]) (simp add: eq)
qed

theorem no_data_race_witness:
  "\<exists>x. reach demo_geom demo_arena demo_handler x \<and> c_touch (cl x 0) = Some 0 \<and> sslot (sv x 0) \<noteq> Some 0"
proof (rule demo_reach)
  fix m
  let ?x = "\<lparr>mem = m, cl = \<lambda>_. C_Idle, sv = \<lambda>_. S_Idle None\<rparr>"
  assume m: "reach demo_geom demo_arena demo_handler ?x" and free: "v_state (view demo_geom m 0) = ST_FREE" and ok: "ring_ok demo_geom m"
  have less: "(0 :: u32) < slot_count demo_geom" by (simp add: demo_geom_def)
  have "state_at demo_geom m 0 = ST_FREE" using free by (simp add: read_slot(1) [OF ok less])
  then have "client_alone demo_geom demo_arena m C_Idle
      (store64 (set_state demo_geom m 0 ST_CLAIMED) RH_REQ_SEQ (load64 (set_state demo_geom m 0 ST_CLAIMED) RH_REQ_SEQ + 1))
      (C_Run \<lparr>c_slot = 0, c_req = demo_request, c_id = load64 (set_state demo_geom m 0 ST_CLAIMED) RH_REQ_SEQ\<rparr> P_Opcode)"
    using client_alone_step [OF claim [of C_Idle demo_request demo_geom 0 m demo_arena] client_alone_step [OF new_id client_alone_refl]]
    by (simp add: less) (simp add: demo_geom_def demo_request_def)
  then obtain y where y: "reach demo_geom demo_arena demo_handler y" "c_touch (cl y 0) = Some 0"
    using reach_client_alone [OF m, of 0] by fastforce
  show ?thesis using no_data_race [OF y(1), of 0 0 0] y by blast
qed




end
