(* ===== verification/Ring_Wait.thy ===== *)
theory Ring_Wait
  imports Ring
begin

text \<open>
  The two waits of \<^verbatim>\<open>vfs-ipc/src/endpoint.rs\<close>: for a free slot (\<^verbatim>\<open>claim_slot_from\<close>) and for a response
  (\<^verbatim>\<open>await_response\<close>). What the other threads do is a sequence of observations: \<open>look i\<close> is what the ring says on
  turn \<open>i\<close> of the loop, and \<open>clock i\<close> what the notifier's clock has advanced by since the wait began if it is
  read on that turn, in nanoseconds. Both loops spin first and read the clock once every so many turns; past
  \<^verbatim>\<open>CLIENT_SPIN_BUDGET\<close> they read it on every turn. \<open>fuel\<close> bounds the turns; \<open>wait_ends\<close> gives how much is
  enough.
\<close>

definition CLIENT_SPIN_BUDGET :: nat where "CLIENT_SPIN_BUDGET = 1000000"

text \<open>One turn of a wait that has not been answered: it ends, or goes on with a new count and mode.\<close>

definition wait_turn :: "u32 \<Rightarrow> nat \<Rightarrow> nat \<Rightarrow> u32 \<Rightarrow> bool \<Rightarrow> (u32 \<times> bool) option" where
  "wait_turn period deadline waited tries idle =
     (if idle then (if waited > deadline then None else Some (tries, True))
      else
        (let tries = tries + 1 in
         if tries mod period = 0 then (if waited > deadline then None else Some (tries, waited \<ge> CLIENT_SPIN_BUDGET))
         else Some (tries, False)))"

fun claim_wait :: "nat \<Rightarrow> (nat \<Rightarrow> u32 option) \<Rightarrow> (nat \<Rightarrow> nat) \<Rightarrow> nat \<Rightarrow> nat \<Rightarrow> u32 \<Rightarrow> bool \<Rightarrow> (ipc_error + u32) option" where
  "claim_wait 0 look clock deadline i tries idle = None"
| "claim_wait (Suc fuel) look clock deadline i tries idle =
     (case look i of
        Some s \<Rightarrow> Some (Inr s)
      | None \<Rightarrow>
          (case wait_turn 256 deadline (clock i) tries idle of
             None \<Rightarrow> Some (Inl RingFull)
           | Some (tries, idle) \<Rightarrow> claim_wait fuel look clock deadline (Suc i) tries idle))"

definition claim_slot_from :: "nat \<Rightarrow> (nat \<Rightarrow> u32 option) \<Rightarrow> (nat \<Rightarrow> nat) \<Rightarrow> nat \<Rightarrow> (ipc_error + u32) option" where
  "claim_slot_from fuel look clock deadline = claim_wait fuel look clock deadline 0 0 False"

fun await_wait :: "nat \<Rightarrow> (nat \<Rightarrow> ipc_error + (u32 \<times> bytes) option) \<Rightarrow> (nat \<Rightarrow> nat) \<Rightarrow> nat \<Rightarrow> nat \<Rightarrow> u32 \<Rightarrow> bool \<Rightarrow>
    (ipc_error + u32 \<times> bytes) option" where
  "await_wait 0 look clock deadline i tries idle = None"
| "await_wait (Suc fuel) look clock deadline i tries idle =
     (case look i of
        Inl e \<Rightarrow> Some (Inl e)
      | Inr (Some r) \<Rightarrow> Some (Inr r)
      | Inr None \<Rightarrow>
          (case wait_turn 4096 deadline (clock i) tries idle of
             None \<Rightarrow> Some (Inl Timeout)
           | Some (tries, idle) \<Rightarrow> await_wait fuel look clock deadline (Suc i) tries idle))"

definition await_response :: "nat \<Rightarrow> (nat \<Rightarrow> ipc_error + (u32 \<times> bytes) option) \<Rightarrow> (nat \<Rightarrow> nat) \<Rightarrow> nat \<Rightarrow> (ipc_error + u32 \<times> bytes) option" where
  "await_response fuel look clock deadline = await_wait fuel look clock deadline 0 0 False"

section \<open>The waits end\<close>

text \<open>The loop both are instances of: \<open>found\<close> ends it with a result, \<open>err\<close> is the error of the deadline.\<close>

fun wait_loop :: "u32 \<Rightarrow> 'r \<Rightarrow> nat \<Rightarrow> (nat \<Rightarrow> 'r option) \<Rightarrow> (nat \<Rightarrow> nat) \<Rightarrow> nat \<Rightarrow> nat \<Rightarrow> u32 \<Rightarrow> bool \<Rightarrow> 'r option" where
  "wait_loop period err 0 found clock deadline i tries idle = None"
| "wait_loop period err (Suc fuel) found clock deadline i tries idle =
     (case found i of
        Some r \<Rightarrow> Some r
      | None \<Rightarrow>
          (case wait_turn period deadline (clock i) tries idle of
             None \<Rightarrow> Some err
           | Some (tries, idle) \<Rightarrow> wait_loop period err fuel found clock deadline (Suc i) tries idle))"

lemma claim_wait_eq:
  "claim_wait fuel look clock deadline i tries idle =
   wait_loop 256 (Inl RingFull) fuel (\<lambda>i. map_option Inr (look i)) clock deadline i tries idle"
  by (induction fuel arbitrary: i tries idle) (auto split: option.splits)

definition answered :: "ipc_error + 'r option \<Rightarrow> (ipc_error + 'r) option" where
  "answered x = (case x of Inl e \<Rightarrow> Some (Inl e) | Inr r \<Rightarrow> map_option Inr r)"

lemma await_wait_eq:
  "await_wait fuel look clock deadline i tries idle =
   wait_loop 4096 (Inl Timeout) fuel (\<lambda>i. answered (look i)) clock deadline i tries idle"
  by (induction fuel arbitrary: i tries idle) (auto simp: answered_def split: option.splits sum.splits)

text \<open>What a wait returns: the first result the ring gave, or the error after a turn past the deadline.\<close>

lemma wait_result:
  assumes "wait_loop period err fuel found clock deadline i tries idle = Some r"
  shows "\<exists>j\<ge>i. (\<forall>k. i \<le> k \<and> k < j \<longrightarrow> found k = None) \<and>
    (found j = Some r \<or> found j = None \<and> r = err \<and> clock j > deadline)"
  using assms
proof (induction fuel arbitrary: i tries idle)
  case (Suc fuel)
  show ?case
  proof (cases "found i")
    case None
    show ?thesis
    proof (cases "wait_turn period deadline (clock i) tries idle")
      case timed_out: None
      then have "clock i > deadline" by (auto simp: wait_turn_def Let_def split: if_splits)
      with timed_out None Suc.prems show ?thesis by (intro exI [of _ i]) auto
    next
      case (Some st)
      then obtain tries' idle' where "wait_loop period err fuel found clock deadline (Suc i) tries' idle' = Some r"
        using None Suc.prems by (cases st) auto
      from Suc.IH [OF this] obtain j where "j \<ge> Suc i" "\<forall>k. Suc i \<le> k \<and> k < j \<longrightarrow> found k = None"
        "found j = Some r \<or> found j = None \<and> r = err \<and> clock j > deadline" by blast
      moreover have "found k = None" if "i \<le> k" "k < j" for k
        using that None calculation(2) by (cases "k = i") auto
      ultimately show ?thesis by (intro exI [of _ j]) auto
    qed
  qed (use Suc.prems in auto)
qed simp

text \<open>How many turns are left before the clock is read next, and that it is read by then.\<close>

definition until_look :: "u32 \<Rightarrow> u32 \<Rightarrow> bool \<Rightarrow> nat" where
  "until_look period tries idle = (if idle then 1 else unat period - unat tries mod unat period)"

lemma tries_Suc:
  fixes tries period :: u32
  assumes "0 < unat period" and "unat period dvd 2 ^ 32"
  shows "unat (tries + 1) mod unat period = Suc (unat tries) mod unat period"
proof -
  have "unat (tries + 1) = Suc (unat tries) mod 2 ^ 32" by (simp add: unat_word_ariths)
  then show ?thesis using assms(2) by (simp add: mod_mod_cancel)
qed

text \<open>A turn that does not end the wait brings the next look at the clock one turn closer, or was one.\<close>

lemma wait_turn_Some:
  assumes "0 < unat period" and "unat period dvd 2 ^ 32" and "wait_turn period deadline waited tries idle = Some (tries', idle')"
  shows "until_look period tries' idle' < until_look period tries idle \<or> waited \<le> deadline"
    and "until_look period tries' idle' \<le> unat period"
proof -
  have z: "(tries + 1) mod period = 0 \<longleftrightarrow> Suc (unat tries) mod unat period = 0"
    using tries_Suc [OF assms(1,2), of tries] by (simp add: word_unat_eq_iff unat_mod_distrib)
  have lt: "unat tries mod unat period < unat period" using assms(1) by simp
  show "until_look period tries' idle' < until_look period tries idle \<or> waited \<le> deadline"
    using assms(3) z lt tries_Suc [OF assms(1,2), of tries]
    by (auto simp: wait_turn_def until_look_def Let_def mod_Suc split: if_splits)
  show "until_look period tries' idle' \<le> unat period" using assms(1) by (simp add: until_look_def)
qed

lemma wait_turn_None:
  assumes "0 < unat period" and "unat period dvd 2 ^ 32" and "until_look period tries idle = 1" and "waited > deadline"
  shows "wait_turn period deadline waited tries idle = None"
proof -
  have "unat tries mod unat period < unat period" using assms(1) by simp
  then have "\<not> idle \<Longrightarrow> Suc (unat tries) mod unat period = 0" using assms(3) by (auto simp: until_look_def mod_Suc split: if_splits)
  then have "\<not> idle \<Longrightarrow> (tries + 1) mod period = 0"
    using tries_Suc [OF assms(1,2), of tries] by (simp add: word_unat_eq_iff unat_mod_distrib)
  then show ?thesis using assms(4) by (simp add: wait_turn_def Let_def)
qed

lemma until_look_pos: "0 < unat period \<Longrightarrow> 1 \<le> until_look period tries idle"
  by (simp add: until_look_def Suc_le_eq)

lemma wait_ends:
  assumes period: "0 < unat period" "unat period dvd 2 ^ 32" and late: "\<And>j. T \<le> j \<Longrightarrow> clock j > deadline"
    and fuel: "(if i < T then T - i + unat period else until_look period tries idle) \<le> fuel"
  shows "\<exists>r. wait_loop period err fuel found clock deadline i tries idle = Some r"
  using fuel
proof (induction fuel arbitrary: i tries idle)
  case 0
  then show ?case using until_look_pos [OF period(1), of tries idle] period(1) by (auto split: if_splits)
next
  case (Suc fuel)
  show ?case
  proof (cases "found i = None \<and> wait_turn period deadline (clock i) tries idle \<noteq> None")
    case True
    then obtain tries' idle' where turn: "wait_turn period deadline (clock i) tries idle = Some (tries', idle')" by auto
    have "(if Suc i < T then T - Suc i + unat period else until_look period tries' idle') \<le> fuel"
    proof (cases "i < T")
      case True
      then show ?thesis using Suc.prems wait_turn_Some(2) [OF period turn] by auto
    next
      case False
      then have "clock i > deadline" using late by simp
      then show ?thesis using False Suc.prems wait_turn_Some(1) [OF period turn] by auto
    qed
    from Suc.IH [OF this] True turn show ?thesis by simp
  qed (auto split: option.splits)
qed

section \<open>Claims\<close>

text \<open>C33. Waiting for a response ends: if the clock passes the deadline by turn \<open>T\<close> and stays past it, the wait returns
  within 4096 turns more, whatever the ring does; and it returns the first response or ring error it sees, or
  \<^verbatim>\<open>Timeout\<close> on a turn past the deadline on which there was still no response.\<close>

theorem await_response_ends:
  assumes "\<And>j. T \<le> j \<Longrightarrow> clock j > deadline"
  shows "\<exists>r j. await_response (T + 4096) look clock deadline = Some r \<and> (\<forall>k<j. look k = Inr None) \<and>
    (case look j of Inl e \<Rightarrow> r = Inl e | Inr (Some resp) \<Rightarrow> r = Inr resp | Inr None \<Rightarrow> r = Inl Timeout \<and> clock j > deadline)"
proof -
  have "\<exists>r. wait_loop (4096 :: u32) (Inl Timeout) (T + 4096) (\<lambda>i. answered (look i)) clock deadline 0 0 False = Some r"
    by (rule wait_ends [of 4096 T]) (use assms in \<open>auto simp: until_look_def\<close>)
  then obtain r where r: "await_response (T + 4096) look clock deadline = Some r"
    by (auto simp: await_response_def await_wait_eq)
  then have "wait_loop 4096 (Inl Timeout) (T + 4096) (\<lambda>i. answered (look i)) clock deadline 0 0 False = Some r"
    by (simp only: await_response_def await_wait_eq)
  from wait_result [OF this] obtain j where j: "\<forall>k. k < j \<longrightarrow> answered (look k) = None"
    "answered (look j) = Some r \<or> answered (look j) = None \<and> r = Inl Timeout \<and> clock j > deadline"
    by auto
  have none: "answered x = None \<longleftrightarrow> x = Inr None" for x :: "ipc_error + (u32 \<times> bytes) option"
    by (auto simp: answered_def split: sum.splits)
  from r j show ?thesis unfolding none
    by (intro exI [of _ r] exI [of _ j]) (auto simp: answered_def split: sum.splits option.splits)
qed

text \<open>Waiting for a free slot ends within 256 turns of the deadline, with the first slot it could claim or with
  \<^verbatim>\<open>RingFull\<close> past the deadline.\<close>

theorem claim_slot_from_ends:
  assumes "\<And>j. T \<le> j \<Longrightarrow> clock j > deadline"
  shows "\<exists>r j. claim_slot_from (T + 256) look clock deadline = Some r \<and> (\<forall>k<j. look k = None) \<and>
    (case look j of Some s \<Rightarrow> r = Inr s | None \<Rightarrow> r = Inl RingFull \<and> clock j > deadline)"
proof -
  have "\<exists>r. wait_loop (256 :: u32) (Inl RingFull) (T + 256) (\<lambda>i. map_option Inr (look i)) clock deadline 0 0 False = Some r"
    by (rule wait_ends [of 256 T]) (use assms in \<open>auto simp: until_look_def\<close>)
  then obtain r where r: "claim_slot_from (T + 256) look clock deadline = Some r"
    by (auto simp: claim_slot_from_def claim_wait_eq)
  then have "wait_loop 256 (Inl RingFull) (T + 256) (\<lambda>i. map_option Inr (look i)) clock deadline 0 0 False = Some r"
    by (simp only: claim_slot_from_def claim_wait_eq)
  from wait_result [OF this] obtain j where "\<forall>k. k < j \<longrightarrow> look k = None"
    and j: "map_option Inr (look j) = Some r \<or> look j = None \<and> r = Inl RingFull \<and> clock j > deadline"
    by auto
  moreover have "case look j of Some s \<Rightarrow> r = Inr s | None \<Rightarrow> r = Inl RingFull \<and> clock j > deadline"
    using j by (cases "look j") auto
  ultimately show ?thesis using r by blast
qed

theorem await_response_ends_witness:
  "\<exists>r. await_response (10 + 4096) (\<lambda>i. if i = 3 then Inr (Some (0, [1])) else Inr None) (\<lambda>j. j * 500000) 4000000 = Some r"
  using await_response_ends [of 10 4000000 "\<lambda>j. j * 500000" "\<lambda>i. if i = 3 then Inr (Some (0, [1])) else Inr None"] by auto

end
