(* ===== verification/Provider.thy ===== *)
theory Provider
  imports Status Vpath
begin

text \<open>
  The provider contract (\<^verbatim>\<open>vfs-provider/src/\<close>): capabilities (\<^verbatim>\<open>caps.rs\<close>), the trait (\<^verbatim>\<open>provider.rs\<close>, \<^verbatim>\<open>model.rs\<close>,
  \<^verbatim>\<open>path.rs\<close>) and the table of open handles (\<^verbatim>\<open>handle_table.rs\<close>). A provider is a record of its methods. They run
  in a world \<^typ>\<open>'w\<close> that holds whatever state the providers of a session have, and return it changed. A reader is
  handed its buffer's bytes and returns them with the count it filled. A poisoned lock is not modelled: no panic
  holds one in this model.
\<close>

section \<open>Capabilities\<close>

datatype access = SeqRead | Read | ReadWrite

instantiation access :: linorder
begin

definition access_rank :: "access \<Rightarrow> nat" where
  "access_rank a = (case a of SeqRead \<Rightarrow> 0 | Read \<Rightarrow> 1 | ReadWrite \<Rightarrow> 2)"

definition less_eq_access :: "access \<Rightarrow> access \<Rightarrow> bool" where "a \<le> b \<longleftrightarrow> access_rank a \<le> access_rank b"

definition less_access :: "access \<Rightarrow> access \<Rightarrow> bool" where "a < b \<longleftrightarrow> access_rank a < access_rank b"

instance
  by standard (auto simp: less_eq_access_def less_access_def access_rank_def split: access.splits)

end

datatype case_match = Insensitive | Sensitive

record capabilities =
  cap_access :: access
  cap_immutable :: bool
  cap_slow :: bool
  cap_preferred_block :: "u32 option"
  cap_case :: case_match

definition caps_read_only :: capabilities where
  "caps_read_only = \<lparr>cap_access = Read, cap_immutable = False, cap_slow = False, cap_preferred_block = None, cap_case = Insensitive\<rparr>"

definition caps_validate :: "capabilities \<Rightarrow> bool" where
  "caps_validate c \<longleftrightarrow> \<not> (cap_access c = ReadWrite \<and> cap_immutable c)"

definition caps_seekable :: "capabilities \<Rightarrow> capabilities" where
  "caps_seekable c = c\<lparr>cap_access := if cap_access c = SeqRead then Read else cap_access c\<rparr>"

definition caps_cached :: "capabilities \<Rightarrow> capabilities" where
  "caps_cached c = c\<lparr>cap_slow := False\<rparr>"

definition caps_read_only_clamp :: "capabilities \<Rightarrow> capabilities" where
  "caps_read_only_clamp c = c\<lparr>cap_access := if cap_access c = ReadWrite then Read else cap_access c\<rparr>"

definition caps_both :: "capabilities \<Rightarrow> capabilities \<Rightarrow> capabilities" where
  "caps_both acc c =
     \<lparr>cap_access = min (cap_access acc) (cap_access c), cap_immutable = (cap_immutable acc \<and> cap_immutable c),
      cap_slow = (cap_slow acc \<or> cap_slow c),
      cap_preferred_block =
        (case (cap_preferred_block acc, cap_preferred_block c) of
           (Some a, Some b) \<Rightarrow> Some (min a b)
         | (None, b) \<Rightarrow> b
         | (a, None) \<Rightarrow> a),
      cap_case = (if cap_case acc = Insensitive \<and> cap_case c = Insensitive then Insensitive else Sensitive)\<rparr>"

definition caps_weakest :: "capabilities list \<Rightarrow> capabilities" where
  "caps_weakest cs = (case cs of [] \<Rightarrow> caps_read_only | c # cs \<Rightarrow> foldl caps_both c cs)"

section \<open>The trait\<close>

record stat =
  st_kind :: u8
  st_size :: u64
  st_mtime :: u64

record dir_entry =
  de_name :: rstr
  de_stat :: stat

record set_attrs =
  sa_mtime :: "u64 option"
  sa_size :: "u64 option"

record v_path =
  vp_root :: u32
  vp_rel :: rstr

definition VPath :: "u32 \<Rightarrow> rstr \<Rightarrow> v_path" where
  "VPath root rel = \<lparr>vp_root = root, vp_rel = rel\<rparr>"

text \<open>What runs in a state, changes it and may fail with a status.\<close>

type_synonym ('s, 'a) act = "'s \<Rightarrow> 's \<times> (u32 + 'a)"

record 'w provider =
  pv_caps :: capabilities
  pv_getattr :: "v_path \<Rightarrow> ('w, stat option) act"
  pv_readdir :: "v_path \<Rightarrow> ('w, dir_entry list) act"
  pv_open :: "v_path \<Rightarrow> u32 \<Rightarrow> ('w, u64 \<times> u64 \<times> bool) act"
  pv_close :: "u64 \<Rightarrow> ('w, unit) act"
  pv_read_at :: "u64 \<Rightarrow> u64 \<Rightarrow> bytes \<Rightarrow> 'w \<Rightarrow> 'w \<times> bytes \<times> (u32 + nat)"
  pv_read_next :: "u64 \<Rightarrow> bytes \<Rightarrow> 'w \<Rightarrow> 'w \<times> bytes \<times> (u32 + nat)"
  pv_write_at :: "u64 \<Rightarrow> u64 \<Rightarrow> bytes \<Rightarrow> ('w, nat) act"
  pv_set_len :: "u64 \<Rightarrow> u64 \<Rightarrow> ('w, unit) act"
  pv_flush :: "u64 \<Rightarrow> ('w, unit) act"
  pv_mkdir :: "v_path \<Rightarrow> ('w, unit) act"
  pv_remove :: "v_path \<Rightarrow> ('w, unit) act"
  pv_rename :: "v_path \<Rightarrow> v_path \<Rightarrow> ('w, unit) act"
  pv_set_attr :: "v_path \<Rightarrow> set_attrs \<Rightarrow> ('w, unit) act"
  pv_stored_name :: "v_path \<Rightarrow> ('w, rstr option) act"
  pv_is_immutable :: "u64 \<Rightarrow> 'w \<Rightarrow> bool"

definition ret :: "'a \<Rightarrow> ('s, 'a) act" where "ret x s = (s, Inr x)"

definition fail :: "u32 \<Rightarrow> ('s, 'a) act" where "fail e s = (s, Inl e)"

definition act_bind :: "('s, 'a) act \<Rightarrow> ('a \<Rightarrow> ('s, 'b) act) \<Rightarrow> ('s, 'b) act" where
  "act_bind m f s = (case m s of (s', Inl e) \<Rightarrow> (s', Inl e) | (s', Inr x) \<Rightarrow> f x s')"

definition act_of :: "u32 + 'a \<Rightarrow> ('s, 'a) act" where "act_of r s = (s, r)"

text \<open>The default methods: a provider that implements the read core only.\<close>

definition read_core :: "capabilities \<Rightarrow> (v_path \<Rightarrow> ('w, stat option) act) \<Rightarrow> (v_path \<Rightarrow> ('w, dir_entry list) act) \<Rightarrow>
    (v_path \<Rightarrow> u32 \<Rightarrow> ('w, u64 \<times> u64 \<times> bool) act) \<Rightarrow> (u64 \<Rightarrow> ('w, unit) act) \<Rightarrow> 'w provider" where
  "read_core caps ga rdir opn cls =
     \<lparr>pv_caps = caps, pv_getattr = ga, pv_readdir = rdir, pv_open = opn, pv_close = cls,
      pv_read_at = (\<lambda>_ _ buf w. (w, buf, Inl ST_NOT_SUPPORTED)), pv_read_next = (\<lambda>_ buf w. (w, buf, Inl ST_NOT_SUPPORTED)),
      pv_write_at = (\<lambda>_ _ _. fail ST_NOT_SUPPORTED), pv_set_len = (\<lambda>_ _. fail ST_NOT_SUPPORTED), pv_flush = (\<lambda>_. fail ST_NOT_SUPPORTED),
      pv_mkdir = (\<lambda>_. fail ST_NOT_SUPPORTED), pv_remove = (\<lambda>_. fail ST_NOT_SUPPORTED), pv_rename = (\<lambda>_ _. fail ST_NOT_SUPPORTED),
      pv_set_attr = (\<lambda>_ _. fail ST_NOT_SUPPORTED), pv_stored_name = (\<lambda>_. fail ST_NOT_SUPPORTED),
      pv_is_immutable = (\<lambda>_ _. cap_immutable caps)\<rparr>"

section \<open>The table of open handles\<close>

record 't handle_table =
  ht_next :: u64
  ht_map :: "u64 \<Rightarrow> 't option"

definition ht_new :: "'t handle_table" where
  "ht_new = \<lparr>ht_next = 1, ht_map = (\<lambda>_. None)\<rparr>"

definition ht_fresh :: "'t handle_table \<Rightarrow> 't handle_table \<times> u64" where
  "ht_fresh t = (t\<lparr>ht_next := ht_next t + 1\<rparr>, ht_next t)"

definition ht_insert :: "'t \<Rightarrow> 't handle_table \<Rightarrow> 't handle_table \<times> u64" where
  "ht_insert v t = (let (t, h) = ht_fresh t in (t\<lparr>ht_map := (ht_map t)(h := Some v)\<rparr>, h))"

definition ht_with :: "u64 \<Rightarrow> ('t \<Rightarrow> 't \<times> 'r) \<Rightarrow> ('t handle_table, 'r) act" where
  "ht_with h f t =
     (case ht_map t h of
        None \<Rightarrow> (t, Inl ST_BAD_FH)
      | Some v \<Rightarrow> (let (v', r) = f v in (t\<lparr>ht_map := (ht_map t)(h := Some v')\<rparr>, Inr r)))"

definition ht_remove :: "u64 \<Rightarrow> ('t handle_table, 't) act" where
  "ht_remove h t =
     (case ht_map t h of None \<Rightarrow> (t, Inl ST_BAD_FH) | Some v \<Rightarrow> (t\<lparr>ht_map := (ht_map t)(h := None)\<rparr>, Inr v))"

definition ht_contains :: "u64 \<Rightarrow> 't handle_table \<Rightarrow> bool" where
  "ht_contains h t \<longleftrightarrow> ht_map t h \<noteq> None"

definition ht_get :: "u64 \<Rightarrow> 't handle_table \<Rightarrow> u32 + 't" where
  "ht_get h t = ok_or ST_BAD_FH (ht_map t h)"

text \<open>\<^verbatim>\<open>drain\<close> and \<^verbatim>\<open>values\<close> collect a hash map in no particular order: a map and a set here.\<close>

definition ht_drain :: "'t handle_table \<Rightarrow> 't handle_table \<times> (u64 \<Rightarrow> 't option)" where
  "ht_drain t = (t\<lparr>ht_map := (\<lambda>_. None)\<rparr>, ht_map t)"

definition ht_values :: "'t handle_table \<Rightarrow> 't set" where
  "ht_values t = ran (ht_map t)"

section \<open>A file behind a handle\<close>

text \<open>\<^verbatim>\<open>Vec::resize\<close> with zeros, and writing over a range of a file, zeros filling a gap before it.\<close>

definition resize :: "nat \<Rightarrow> bytes \<Rightarrow> bytes" where
  "resize n b = take n b @ replicate (n - length b) 0"

definition patch :: "bytes \<Rightarrow> nat \<Rightarrow> bytes \<Rightarrow> bytes" where
  "patch b off d = resize off b @ d @ drop (off + length d) b"

text \<open>What a read-write provider promises of an open handle on a file: while it is live, a read fills what the file
  has there, a write puts its bytes there and a change of length resizes the file.\<close>

locale file_backend =
  fixes pv :: "'w provider" and bh :: u64 and body :: "'w \<Rightarrow> bytes" and live :: "'w \<Rightarrow> bool"
  assumes reads: "live w \<Longrightarrow> n = min (length (body w) - unat off) (length buf) \<Longrightarrow>
      \<exists>buf'. pv_read_at pv bh off buf w = (w, buf', Inr n) \<and> length buf' = length buf \<and> take n buf' = take n (drop (unat off) (body w))"
    and writes: "live w \<Longrightarrow> unat off + length data < 2 ^ 64 \<Longrightarrow>
      \<exists>w'. pv_write_at pv bh off data w = (w', Inr (length data)) \<and> live w' \<and> body w' = patch (body w) (unat off) data"
    and set_lens: "live w \<Longrightarrow> \<exists>w'. pv_set_len pv bh len w = (w', Inr ()) \<and> live w' \<and> body w' = resize (unat len) (body w)"

lemma length_resize [simp]: "length (resize n b) = n"
  by (simp add: resize_def)

lemma patch_at_end [simp]: "patch b (length b) d = b @ d"
  by (simp add: patch_def resize_def)

lemma patch_read: "take (length d) (drop i (patch b i d)) = d"
  by (simp add: patch_def)

lemma act_bind_Inr [simp]: "m s = (s', Inr x) \<Longrightarrow> act_bind m f s = f x s'"
  and act_bind_Inl [simp]: "m s = (s', Inl e) \<Longrightarrow> act_bind m f s = (s', Inl e)"
  by (simp_all add: act_bind_def)

lemma act_of_simps [simp]: "act_of r s = (s, r)"
  by (simp add: act_of_def)

end
