(* ===== verification/Director.thy ===== *)
theory Director
  imports Provider
begin

unbundle bit_operations_syntax

text \<open>
  The director (\<^verbatim>\<open>vfs-director/src/director.rs\<close>): one provider per root and the global file handles. A call is one
  step: \<^verbatim>\<open>write\<close> and \<^verbatim>\<open>set_len\<close> take the table's lock twice with the provider's call in between, and two of them
  racing on one handle are outside this model, as the source's comment on \<^verbatim>\<open>OpenRec::cursor\<close> says. The registry
  generation and its sinks are not modelled; an attached registry is its dispatcher. \<open>d_rejected\<close> is the list of
  paths given to \<^verbatim>\<open>record_rejected_write\<close>.
\<close>

section \<open>State\<close>

record 'w open_rec =
  rec_backend :: "'w provider"
  rec_bh :: u64
  rec_size :: u64
  rec_is_dir :: bool
  rec_cursor :: "u64 option"

record 'w director =
  d_roots :: "u32 \<Rightarrow> 'w provider option"
  d_opens :: "u64 \<Rightarrow> 'w open_rec option"
  d_next_fh :: u64
  d_mount_gen :: u32
  d_stager :: "(u32 \<Rightarrow> rstr \<Rightarrow> ('w, rstr) act) option"
  d_registry :: "(u32 \<Rightarrow> bytes \<Rightarrow> u32 \<Rightarrow> 'w \<Rightarrow> 'w \<times> u32 \<times> bytes) option"
  d_rejected :: "rstr list"

text \<open>The director and the world its providers run in.\<close>

record 'w dsys =
  ds_dir :: "'w director"
  ds_world :: 'w

record open_info =
  oi_fh :: u64
  oi_size :: u64
  oi_is_dir :: bool
  oi_immutable :: bool
  oi_mount_gen :: u32

definition director_new :: "'w director" where
  "director_new = \<lparr>d_roots = (\<lambda>_. None), d_opens = (\<lambda>_. None), d_next_fh = 1, d_mount_gen = 1, d_stager = None,
     d_registry = None, d_rejected = []\<rparr>"

definition on_world :: "('w, 'a) act \<Rightarrow> ('w dsys, 'a) act" where
  "on_world m s = (let (w, r) = m (ds_world s) in (s\<lparr>ds_world := w\<rparr>, r))"

definition norm_req :: "rstr \<Rightarrow> u32 + rstr" where
  "norm_req raw = (case normalize raw of Inl _ \<Rightarrow> Inl ST_BAD_REQUEST | Inr p \<Rightarrow> Inr p)"

section \<open>Roots\<close>

definition set_exec_stager :: "(u32 \<Rightarrow> rstr \<Rightarrow> ('w, rstr) act) option \<Rightarrow> 'w director \<Rightarrow> 'w director" where
  "set_exec_stager stager d = d\<lparr>d_stager := stager\<rparr>"

definition mount :: "u32 \<Rightarrow> 'w provider \<Rightarrow> 'w director \<Rightarrow> 'w director" where
  "mount root backend d = d\<lparr>d_roots := (d_roots d)(root := Some backend), d_mount_gen := d_mount_gen d + 1\<rparr>"

definition unmount :: "u32 \<Rightarrow> 'w director \<Rightarrow> 'w director" where
  "unmount root d = d\<lparr>d_roots := (d_roots d)(root := None), d_mount_gen := d_mount_gen d + 1\<rparr>"

definition serves :: "u32 \<Rightarrow> 'w director \<Rightarrow> bool" where
  "serves root d \<longleftrightarrow> d_roots d root \<noteq> None"

text \<open>Both \<^verbatim>\<open>provider_for\<close> and \<^verbatim>\<open>ok_or_else\<close> with the status of a root nobody serves.\<close>

definition provider_for :: "u32 \<Rightarrow> u32 \<Rightarrow> ('w dsys, 'w provider) act" where
  "provider_for e root s = (s, ok_or e (d_roots (ds_dir s) root))"

section \<open>By path\<close>

definition stage_exec :: "u32 \<Rightarrow> rstr \<Rightarrow> ('w dsys, rstr) act" where
  "stage_exec root vpath =
     act_bind (act_of (norm_req vpath)) (\<lambda>path s.
       case d_stager (ds_dir s) of None \<Rightarrow> (s, Inl ST_NOT_SUPPORTED) | Some stager \<Rightarrow> on_world (stager root path) s)"

definition director_getattr :: "u32 \<Rightarrow> rstr \<Rightarrow> ('w dsys, stat option) act" where
  "director_getattr root path =
     act_bind (act_of (norm_req path)) (\<lambda>path s.
       case d_roots (ds_dir s) root of Some p \<Rightarrow> on_world (pv_getattr p (VPath root path)) s | None \<Rightarrow> (s, Inr None))"

definition director_readdir :: "u32 \<Rightarrow> rstr \<Rightarrow> ('w dsys, dir_entry list) act" where
  "director_readdir root path =
     act_bind (act_of (norm_req path)) (\<lambda>path.
     act_bind (provider_for ST_NOT_FOUND root) (\<lambda>p. on_world (pv_readdir p (VPath root path))))"

text \<open>\<^verbatim>\<open>vfs_compose::stored_name\<close>: the provider's own answer, or the name in a listing of the parent.\<close>

definition stored_name :: "'w provider \<Rightarrow> v_path \<Rightarrow> ('w, rstr option) act" where
  "stored_name pv p w =
     (case pv_stored_name pv p w of
        (w, Inr answered) \<Rightarrow> (w, Inr answered)
      | (w, Inl e) \<Rightarrow>
          if e \<noteq> ST_NOT_SUPPORTED then (w, Inl e)
          else
            (let rel = trim_matches slash (vp_rel p) in
             if rel = [] then (w, Inr None)
             else
               (let (parent, name) = split_parent rel in
                case pv_readdir pv (VPath (vp_root p) parent) w of
                  (w, Inl e) \<Rightarrow> if e = ST_NOT_FOUND \<or> e = ST_NOT_A_DIRECTORY then (w, Inr None) else (w, Inl e)
                | (w, Inr entries) \<Rightarrow> (w, Inr (find (\<lambda>n. cfold n = cfold name) (map de_name entries))))))"

text \<open>The loop of \<^verbatim>\<open>stored_names\<close>: \<open>stop\<close> is where the previous component ends in the path.\<close>

fun names_loop :: "'w provider \<Rightarrow> u32 \<Rightarrow> rstr \<Rightarrow> nat \<Rightarrow> nat \<Rightarrow> nat \<Rightarrow> rstr list \<Rightarrow> rstr list \<Rightarrow> ('w, rstr list) act" where
  "names_loop pv root path skip i stop names [] = ret names"
| "names_loop pv root path skip i stop names (c # cs) =
     (let stop = (if i = 0 then length c else stop + 1 + length c) in
      if i < skip then names_loop pv root path skip (Suc i) stop names cs
      else
        act_bind (stored_name pv (VPath root (take stop path))) (\<lambda>stored.
          names_loop pv root path skip (Suc i) stop (names @ [case stored of Some n \<Rightarrow> n | None \<Rightarrow> c]) cs))"

definition stored_names :: "u32 \<Rightarrow> rstr \<Rightarrow> nat \<Rightarrow> ('w dsys, rstr list) act" where
  "stored_names root path skip =
     act_bind (act_of (norm_req path)) (\<lambda>path.
     act_bind (provider_for ST_NOT_FOUND root) (\<lambda>p.
       on_world (names_loop p root path skip 0 0 [] (filter (\<lambda>c. c \<noteq> []) (split_on ((=) slash) path)))))"

definition mkdir :: "u32 \<Rightarrow> rstr \<Rightarrow> ('w dsys, unit) act" where
  "mkdir root path =
     act_bind (act_of (norm_req path)) (\<lambda>path.
     act_bind (provider_for ST_NOT_FOUND root) (\<lambda>p. on_world (pv_mkdir p (VPath root path))))"

definition remove :: "u32 \<Rightarrow> rstr \<Rightarrow> ('w dsys, unit) act" where
  "remove root path =
     act_bind (act_of (norm_req path)) (\<lambda>path.
     act_bind (provider_for ST_NOT_FOUND root) (\<lambda>p. on_world (pv_remove p (VPath root path))))"

definition rename :: "u32 \<Rightarrow> rstr \<Rightarrow> rstr \<Rightarrow> ('w dsys, unit) act" where
  "rename root from_path to_path =
     act_bind (act_of (norm_req from_path)) (\<lambda>from_path.
     act_bind (act_of (norm_req to_path)) (\<lambda>to_path.
     act_bind (provider_for ST_BAD_REQUEST root) (\<lambda>p.
       on_world (pv_rename p (VPath root from_path) (VPath root to_path)))))"

definition set_attr :: "u32 \<Rightarrow> rstr \<Rightarrow> set_attrs \<Rightarrow> ('w dsys, unit) act" where
  "set_attr root path attr =
     act_bind (act_of (norm_req path)) (\<lambda>path.
     act_bind (provider_for ST_NOT_FOUND root) (\<lambda>p. on_world (pv_set_attr p (VPath root path) attr)))"

section \<open>By handle\<close>

definition open_info_at :: "u32 \<Rightarrow> rstr \<Rightarrow> u32 \<Rightarrow> ('w dsys, open_info) act" where
  "open_info_at root path flags =
     act_bind (act_of (norm_req path)) (\<lambda>path.
     act_bind (provider_for ST_NOT_FOUND root) (\<lambda>p s.
       (let mount_gen = d_mount_gen (ds_dir s) in
        if flags AND OPEN_WRITE \<noteq> 0 \<and> cap_access (pv_caps p) < ReadWrite
        then (s\<lparr>ds_dir := (ds_dir s)\<lparr>d_rejected := d_rejected (ds_dir s) @ [path]\<rparr>\<rparr>, Inl ST_READ_ONLY)
        else
          act_bind (on_world (pv_open p (VPath root path) flags)) (\<lambda>(bh, sz, is_dir_flag) s.
            (let immutable = (flags AND OPEN_WRITE = 0 \<and> \<not> is_dir_flag \<and> pv_is_immutable p bh (ds_world s));
                 fh = d_next_fh (ds_dir s);
                 cursor = (if flags AND OPEN_APPEND \<noteq> 0 then Some sz else None);
                 r = \<lparr>rec_backend = p, rec_bh = bh, rec_size = sz, rec_is_dir = is_dir_flag, rec_cursor = cursor\<rparr> in
             (s\<lparr>ds_dir := (ds_dir s)\<lparr>d_next_fh := fh + 1, d_opens := (d_opens (ds_dir s))(fh := Some r)\<rparr>\<rparr>,
              Inr \<lparr>oi_fh = fh, oi_size = sz, oi_is_dir = is_dir_flag, oi_immutable = immutable, oi_mount_gen = mount_gen\<rparr>))) s)))"

definition director_read :: "u64 \<Rightarrow> u64 \<Rightarrow> bytes \<Rightarrow> 'w dsys \<Rightarrow> 'w dsys \<times> bytes \<times> (u32 + nat)" where
  "director_read fh offset buf s =
     (case d_opens (ds_dir s) fh of
        None \<Rightarrow> (s, buf, Inl ST_BAD_FH)
      | Some r \<Rightarrow>
          if rec_is_dir r then (s, buf, Inl ST_IS_DIR)
          else
            (let (w, buf, n) = pv_read_at (rec_backend r) (rec_bh r) offset buf (ds_world s) in
             (s\<lparr>ds_world := w\<rparr>, buf, n)))"

definition director_close :: "u64 \<Rightarrow> ('w dsys, unit) act" where
  "director_close fh s =
     (case d_opens (ds_dir s) fh of
        None \<Rightarrow> (s, Inl ST_BAD_FH)
      | Some r \<Rightarrow>
          on_world (pv_close (rec_backend r) (rec_bh r))
            (s\<lparr>ds_dir := (ds_dir s)\<lparr>d_opens := (d_opens (ds_dir s))(fh := None)\<rparr>\<rparr>))"

text \<open>What a successful write and a successful change of length record of the handle.\<close>

definition upd_rec :: "u64 \<Rightarrow> ('w open_rec \<Rightarrow> 'w open_rec) \<Rightarrow> 'w dsys \<Rightarrow> 'w dsys" where
  "upd_rec fh f s =
     (case d_opens (ds_dir s) fh of
        None \<Rightarrow> s
      | Some r \<Rightarrow> s\<lparr>ds_dir := (ds_dir s)\<lparr>d_opens := (d_opens (ds_dir s))(fh := Some (f r))\<rparr>\<rparr>)"

definition director_write :: "u64 \<Rightarrow> u64 \<Rightarrow> bytes \<Rightarrow> ('w dsys, nat) act" where
  "director_write fh offset buf s =
     (case d_opens (ds_dir s) fh of
        None \<Rightarrow> (s, Inl ST_BAD_FH)
      | Some r \<Rightarrow>
          if rec_is_dir r then (s, Inl ST_IS_DIR)
          else
            (let eff = (case rec_cursor r of Some c \<Rightarrow> c | None \<Rightarrow> offset);
                 (s, res) = on_world (pv_write_at (rec_backend r) (rec_bh r) eff buf) s in
             case res of
               Inl e \<Rightarrow> (s, Inl e)
             | Inr n \<Rightarrow>
                 (upd_rec fh (\<lambda>r. r\<lparr>rec_cursor := (case rec_cursor r of Some _ \<Rightarrow> Some (eff + word_of_nat n) | None \<Rightarrow> None),
                                    rec_size := max (rec_size r) (eff + word_of_nat n)\<rparr>) s, Inr n)))"

definition director_set_len :: "u64 \<Rightarrow> u64 \<Rightarrow> ('w dsys, unit) act" where
  "director_set_len fh len s =
     (case d_opens (ds_dir s) fh of
        None \<Rightarrow> (s, Inl ST_BAD_FH)
      | Some r \<Rightarrow>
          (let (s, res) = on_world (pv_set_len (rec_backend r) (rec_bh r) len) s in
           case res of
             Inl e \<Rightarrow> (s, Inl e)
           | Inr u \<Rightarrow> (upd_rec fh (\<lambda>r. r\<lparr>rec_size := len, rec_cursor := map_option (\<lambda>c. min c len) (rec_cursor r)\<rparr>) s, Inr u)))"

definition director_flush :: "u64 \<Rightarrow> ('w dsys, unit) act" where
  "director_flush fh s =
     (case d_opens (ds_dir s) fh of
        None \<Rightarrow> (s, Inl ST_BAD_FH)
      | Some r \<Rightarrow> on_world (pv_flush (rec_backend r) (rec_bh r)) s)"

section \<open>A rename across roots\<close>

text \<open>The copy: \<^verbatim>\<open>write_all\<close> is the inner loop, over the bytes read that are not written yet; \<open>Inl\<close> leaves the closure at
  once. In \<open>copy_loop\<close> the result is that of the loop; positions are natural numbers, since none passes the
  file's size by more than a buffer.\<close>

function write_all :: "'w provider \<Rightarrow> u64 \<Rightarrow> nat \<Rightarrow> bytes \<Rightarrow> nat \<Rightarrow> ('w, unit) act" where
  "write_all dst dh at data done w =
     (if done < length data then
        (case pv_write_at dst dh (word_of_nat (at + done)) (drop done data) w of
           (w, Inl e) \<Rightarrow> (w, Inl e)
         | (w, Inr n) \<Rightarrow> if n = 0 then (w, Inl ST_IO_ERROR) else write_all dst dh at data (done + n) w)
      else (w, Inr ()))"
  by pat_completeness auto
termination by (relation "measure (\<lambda>(_, _, _, data, done, _). length data - done)") auto

definition COPY_BUF :: nat where "COPY_BUF = 2 ^ 20"

datatype copy_end = Copied | Broke u32 | Left u32

function copy_loop :: "'w provider \<Rightarrow> u64 \<Rightarrow> 'w provider \<Rightarrow> u64 \<Rightarrow> nat \<Rightarrow> bytes \<Rightarrow> nat \<Rightarrow> 'w \<Rightarrow> 'w \<times> copy_end" where
  "copy_loop src sh dst dh sz buf at w =
     (if at \<ge> sz then (w, Copied)
      else
        (case pv_read_at src sh (word_of_nat at) buf w of
           (w, buf', Inl e) \<Rightarrow> (w, Broke e)
         | (w, buf', Inr n) \<Rightarrow>
             if n = 0 then (w, Copied)
             else
               (case write_all dst dh at (take n buf') 0 w of
                  (w, Inl e) \<Rightarrow> (w, Left e)
                | (w, Inr _) \<Rightarrow> copy_loop src sh dst dh sz buf' (at + n) w)))"
  by pat_completeness auto
termination by (relation "measure (\<lambda>(_, _, _, _, sz, _, at, _). sz - at)") auto

definition copy_across :: "'w provider \<Rightarrow> u64 \<Rightarrow> u64 \<Rightarrow> 'w provider \<Rightarrow> v_path \<Rightarrow> ('w, unit) act" where
  "copy_across src sh sz dst to_path =
     act_bind (pv_open dst to_path (OPEN_WRITE OR OPEN_CREATE OR OPEN_TRUNC)) (\<lambda>(dh, _, _) w.
       (let (w, res) = copy_loop src sh dst dh (unat sz) (replicate COPY_BUF 0) 0 w in
        case res of
          Left e \<Rightarrow> (w, Inl e)
        | _ \<Rightarrow>
            (let (w, flushed) = pv_flush dst dh w;
                 (w, closed) = pv_close dst dh w in
             (w, rbind (case res of Broke e \<Rightarrow> Inl e | _ \<Rightarrow> Inr ()) (\<lambda>_. rbind flushed (\<lambda>_. closed))))))"

definition rename_across :: "u32 \<Rightarrow> rstr \<Rightarrow> u32 \<Rightarrow> rstr \<Rightarrow> ('w dsys, unit) act" where
  "rename_across from_root from_path to_root to_path =
     (if from_root = to_root then rename from_root from_path to_path
      else
        act_bind (act_of (norm_req from_path)) (\<lambda>from_path.
        act_bind (act_of (norm_req to_path)) (\<lambda>to_path.
        act_bind (provider_for ST_NOT_FOUND from_root) (\<lambda>src.
        act_bind (provider_for ST_NOT_FOUND to_root) (\<lambda>dst.
          on_world
            (act_bind (pv_getattr src (VPath from_root from_path)) (\<lambda>st.
             act_bind (act_of (ok_or ST_NOT_FOUND st)) (\<lambda>st.
               if st_kind st = KIND_DIR then fail ST_CROSS_ROOT
               else if cap_access (pv_caps dst) < ReadWrite then fail ST_READ_ONLY
               else
                 act_bind (pv_open src (VPath from_root from_path) OPEN_READ) (\<lambda>(sh, sz, _) w.
                   (let (w, copied) = copy_across src sh sz dst (VPath to_root to_path) w;
                        (w, _) = pv_close src sh w in
                    case copied of
                      Inl e \<Rightarrow> (w, Inl e)
                    | Inr _ \<Rightarrow> pv_remove src (VPath from_root from_path) w))))))))))"

section \<open>Handles\<close>

text \<open>Handles are issued in order: none is open at or past the next one.\<close>

definition handles_below :: "'w dsys \<Rightarrow> bool" where
  "handles_below s \<longleftrightarrow> (\<forall>fh. d_opens (ds_dir s) fh \<noteq> None \<longrightarrow> fh < d_next_fh (ds_dir s))"

lemma on_world_dir [simp]: "ds_dir (fst (on_world m s)) = ds_dir s"
  by (simp add: on_world_def split: prod.splits)

lemma less_ReadWrite [simp]: "a < ReadWrite \<longleftrightarrow> a \<noteq> ReadWrite" for a :: access
  by (cases a) (auto simp: less_access_def access_rank_def)

text \<open>What a successful open did.\<close>

lemma open_info_cases:
  assumes "open_info_at root path flags s = (s', Inr oi)"
  obtains p q bh sz dir w' where "norm_req path = Inr p" and "d_roots (ds_dir s) root = Some q"
    and "flags AND OPEN_WRITE = 0 \<or> cap_access (pv_caps q) = ReadWrite"
    and "pv_open q (VPath root p) flags (ds_world s) = (w', Inr (bh, sz, dir))"
    and "s' = s\<lparr>ds_dir := (ds_dir s)\<lparr>d_next_fh := d_next_fh (ds_dir s) + 1,
        d_opens := (d_opens (ds_dir s))(d_next_fh (ds_dir s) :=
          Some \<lparr>rec_backend = q, rec_bh = bh, rec_size = sz, rec_is_dir = dir,
            rec_cursor = (if flags AND OPEN_APPEND \<noteq> 0 then Some sz else None)\<rparr>)\<rparr>, ds_world := w'\<rparr>"
    and "oi = \<lparr>oi_fh = d_next_fh (ds_dir s), oi_size = sz, oi_is_dir = dir,
        oi_immutable = (flags AND OPEN_WRITE = 0 \<and> \<not> dir \<and> pv_is_immutable q bh w'), oi_mount_gen = d_mount_gen (ds_dir s)\<rparr>"
proof -
  note defs = open_info_at_def provider_for_def act_bind_def on_world_def Let_def
  obtain p where p: "norm_req path = Inr p" using assms by (cases "norm_req path") (simp_all add: defs)
  obtain q where q: "d_roots (ds_dir s) root = Some q" using assms p by (cases "d_roots (ds_dir s) root") (simp_all add: defs)
  have rw: "flags AND OPEN_WRITE = 0 \<or> cap_access (pv_caps q) = ReadWrite"
    using assms p q by (rule_tac ccontr) (simp add: defs)
  obtain w' r where o: "pv_open q (VPath root p) flags (ds_world s) = (w', r)" by (cases "pv_open q (VPath root p) flags (ds_world s)")
  obtain bh sz dir where r: "r = Inr (bh, sz, dir)"
    using assms p q rw o by (cases r) (auto simp: defs)
  from assms p q rw o r show ?thesis by (intro that [OF p q rw o [unfolded r]]) (auto simp: defs)
qed

text \<open>A call on the director, and the state it leaves.\<close>

datatype 'w director_op =
    D_Mount u32 "'w provider" | D_Unmount u32 | D_Stager "(u32 \<Rightarrow> rstr \<Rightarrow> ('w, rstr) act) option"
  | D_Stage u32 rstr | D_Getattr u32 rstr | D_Readdir u32 rstr | D_Names u32 rstr nat | D_Open u32 rstr u32
  | D_Read u64 u64 bytes | D_Close u64 | D_Write u64 u64 bytes | D_Set_Len u64 u64 | D_Flush u64
  | D_Mkdir u32 rstr | D_Remove u32 rstr | D_Rename u32 rstr rstr | D_Rename_X u32 rstr u32 rstr | D_Set_Attr u32 rstr set_attrs

fun run_op :: "'w director_op \<Rightarrow> 'w dsys \<Rightarrow> 'w dsys" where
  "run_op (D_Mount root p) s = s\<lparr>ds_dir := mount root p (ds_dir s)\<rparr>"
| "run_op (D_Unmount root) s = s\<lparr>ds_dir := unmount root (ds_dir s)\<rparr>"
| "run_op (D_Stager f) s = s\<lparr>ds_dir := set_exec_stager f (ds_dir s)\<rparr>"
| "run_op (D_Stage root p) s = fst (stage_exec root p s)"
| "run_op (D_Getattr root p) s = fst (director_getattr root p s)"
| "run_op (D_Readdir root p) s = fst (director_readdir root p s)"
| "run_op (D_Names root p skip) s = fst (stored_names root p skip s)"
| "run_op (D_Open root p flags) s = fst (open_info_at root p flags s)"
| "run_op (D_Read fh off buf) s = fst (director_read fh off buf s)"
| "run_op (D_Close fh) s = fst (director_close fh s)"
| "run_op (D_Write fh off d) s = fst (director_write fh off d s)"
| "run_op (D_Set_Len fh len) s = fst (director_set_len fh len s)"
| "run_op (D_Flush fh) s = fst (director_flush fh s)"
| "run_op (D_Mkdir root p) s = fst (mkdir root p s)"
| "run_op (D_Remove root p) s = fst (remove root p s)"
| "run_op (D_Rename root p q) s = fst (rename root p q s)"
| "run_op (D_Rename_X root p root' q) s = fst (rename_across root p root' q s)"
| "run_op (D_Set_Attr root p a) s = fst (set_attr root p a s)"

text \<open>By-path calls leave the director as it is.\<close>

definition keeps_dir :: "('w dsys, 'a) act \<Rightarrow> bool" where
  "keeps_dir m \<longleftrightarrow> (\<forall>s. ds_dir (fst (m s)) = ds_dir s)"

lemma keeps_dir_bind: "keeps_dir m \<Longrightarrow> (\<And>x. keeps_dir (f x)) \<Longrightarrow> keeps_dir (act_bind m f)"
  by (auto simp: keeps_dir_def act_bind_def split: prod.splits sum.splits) (metis fst_conv)+

lemma keeps_dir_prim:
  "keeps_dir (act_of r)" "keeps_dir (on_world m)" "keeps_dir (provider_for e root)"
  "keeps_dir (\<lambda>s. case d_stager (ds_dir s) of None \<Rightarrow> (s, r1) | Some x \<Rightarrow> on_world (f x) s)"
  "keeps_dir (\<lambda>s. case d_roots (ds_dir s) root of None \<Rightarrow> (s, r2) | Some x \<Rightarrow> on_world (h x) s)"
  by (simp_all add: keeps_dir_def act_of_def provider_for_def split: option.splits)

lemma keeps_dir_paths:
  "keeps_dir (stage_exec root p)" "keeps_dir (director_getattr root p)" "keeps_dir (director_readdir root p)"
  "keeps_dir (stored_names root p skip)" "keeps_dir (mkdir root p)" "keeps_dir (remove root p)" "keeps_dir (rename root p q)"
  "keeps_dir (rename_across root p root' q)" "keeps_dir (set_attr root p a)"
  unfolding stage_exec_def director_getattr_def director_readdir_def stored_names_def mkdir_def remove_def rename_def
    rename_across_def set_attr_def
  by (simp_all add: keeps_dir_bind keeps_dir_prim)

text \<open>A handle is the same open file as long as it stays open: same provider, same handle there, same kind.\<close>

definition same_file :: "'w open_rec \<Rightarrow> 'w open_rec \<Rightarrow> bool" where
  "same_file r r' \<longleftrightarrow> rec_backend r' = rec_backend r \<and> rec_bh r' = rec_bh r \<and> rec_is_dir r' = rec_is_dir r \<and>
     (rec_cursor r' = None \<longleftrightarrow> rec_cursor r = None)"

lemma director_write_opens:
  "d_opens (ds_dir (fst (director_write fh off d s))) h = d_opens (ds_dir s) h \<or>
   (\<exists>r r'. d_opens (ds_dir s) h = Some r \<and> d_opens (ds_dir (fst (director_write fh off d s))) h = Some r' \<and> same_file r r')"
  by (auto simp: director_write_def upd_rec_def on_world_def same_file_def Let_def split: option.splits prod.splits sum.splits)

lemma director_set_len_opens:
  "d_opens (ds_dir (fst (director_set_len fh len s))) h = d_opens (ds_dir s) h \<or>
   (\<exists>r r'. d_opens (ds_dir s) h = Some r \<and> d_opens (ds_dir (fst (director_set_len fh len s))) h = Some r' \<and> same_file r r')"
  by (auto simp: director_set_len_def upd_rec_def on_world_def same_file_def Let_def split: option.splits prod.splits sum.splits)

lemma director_next_fh:
  "d_next_fh (ds_dir (fst (director_write fh off d s))) = d_next_fh (ds_dir s)"
  "d_next_fh (ds_dir (fst (director_set_len fh len s))) = d_next_fh (ds_dir s)"
  "d_next_fh (ds_dir (fst (director_close fh s))) = d_next_fh (ds_dir s)"
  "ds_dir (fst (director_read fh off buf s)) = ds_dir s" "ds_dir (fst (director_flush fh s)) = ds_dir s"
  by (auto simp: director_write_def director_set_len_def director_close_def director_read_def director_flush_def upd_rec_def
      on_world_def Let_def split: option.splits prod.splits sum.splits)

lemma director_close_opens:
  "d_opens (ds_dir (fst (director_close fh s))) = (d_opens (ds_dir s))(fh := None)"
  by (auto simp: director_close_def on_world_def split: option.splits prod.splits)

lemma open_info_fail:
  assumes "open_info_at root path flags s = (s', Inl e)"
  shows "d_opens (ds_dir s') = d_opens (ds_dir s) \<and> d_next_fh (ds_dir s') = d_next_fh (ds_dir s)"
proof -
  note defs = open_info_at_def provider_for_def act_bind_def on_world_def Let_def
  show ?thesis
  proof (cases "norm_req path")
    case (Inr p)
    show ?thesis
    proof (cases "d_roots (ds_dir s) root")
      case (Some q)
      show ?thesis
        using assms Inr Some by (cases "pv_open q (VPath root p) flags (ds_world s)") (auto simp: defs split: if_splits sum.splits)
    qed (use assms Inr in \<open>auto simp: defs\<close>)
  qed (use assms in \<open>auto simp: defs\<close>)
qed

lemma same_file_refl [simp]: "same_file r r"
  by (simp add: same_file_def)

lemma same_file_trans: "same_file r r' \<Longrightarrow> same_file r' r'' \<Longrightarrow> same_file r r''"
  by (simp add: same_file_def)

text \<open>One call: the other handles stay, and at most the next handle becomes open.\<close>

definition handle_step :: "'w dsys \<Rightarrow> 'w dsys \<Rightarrow> bool" where
  "handle_step s s' \<longleftrightarrow>
     (d_next_fh (ds_dir s') = d_next_fh (ds_dir s) \<and> (\<forall>fh. d_opens (ds_dir s') fh \<noteq> None \<longrightarrow> d_opens (ds_dir s) fh \<noteq> None)) \<or>
     (d_next_fh (ds_dir s') = d_next_fh (ds_dir s) + 1 \<and>
      (\<forall>fh. fh \<noteq> d_next_fh (ds_dir s) \<longrightarrow> d_opens (ds_dir s') fh = d_opens (ds_dir s) fh))"

definition keeps_handle :: "u64 \<Rightarrow> 'w dsys \<Rightarrow> 'w dsys \<Rightarrow> bool" where
  "keeps_handle fh s s' \<longleftrightarrow> (\<forall>r. d_opens (ds_dir s) fh = Some r \<longrightarrow> (\<exists>r'. d_opens (ds_dir s') fh = Some r' \<and> same_file r r'))"

lemma handle_same_dir: "d_opens (ds_dir s') = d_opens (ds_dir s) \<Longrightarrow> d_next_fh (ds_dir s') = d_next_fh (ds_dir s) \<Longrightarrow>
    handle_step s s' \<and> keeps_handle fh s s'"
  by (simp add: handle_step_def keeps_handle_def)

lemma open_handle_step:
  assumes "fh \<noteq> d_next_fh (ds_dir s)"
  shows "handle_step s (fst (open_info_at root p flags s)) \<and> keeps_handle fh s (fst (open_info_at root p flags s))"
proof -
  obtain s' r where o: "open_info_at root p flags s = (s', r)" by (cases "open_info_at root p flags s")
  show ?thesis
  proof (cases r)
    case (Inl e)
    then show ?thesis using open_info_fail [of root p flags s s' e] o handle_same_dir [of s' s] by simp
  next
    case (Inr oi)
    with o have "open_info_at root p flags s = (s', Inr oi)" by simp
    then show ?thesis
      by (rule open_info_cases) (use assms o in \<open>auto simp: handle_step_def keeps_handle_def\<close>)
  qed
qed

lemma opens_changed:
  assumes "\<And>h. d_opens (ds_dir s') h = d_opens (ds_dir s) h \<or>
      (\<exists>r r'. d_opens (ds_dir s) h = Some r \<and> d_opens (ds_dir s') h = Some r' \<and> same_file r r')"
    and "d_next_fh (ds_dir s') = d_next_fh (ds_dir s)"
  shows "handle_step s s' \<and> keeps_handle fh s s'"
proof -
  have "d_opens (ds_dir s') h \<noteq> None \<Longrightarrow> d_opens (ds_dir s) h \<noteq> None" for h using assms(1) [of h] by auto
  moreover have "keeps_handle fh s s'" using assms(1) [of fh] by (auto simp: keeps_handle_def)
  ultimately show ?thesis using assms(2) by (simp add: handle_step_def)
qed

lemma keeps_dirD: "keeps_dir m \<Longrightarrow> ds_dir (fst (m s)) = ds_dir s"
  by (simp add: keeps_dir_def)

lemma run_op_handles:
  assumes "op \<noteq> D_Close fh" and "fh \<noteq> d_next_fh (ds_dir s)"
  shows "handle_step s (run_op op s) \<and> keeps_handle fh s (run_op op s)"
proof (cases op)
  case (D_Open root p flags)
  then show ?thesis using open_handle_step [OF assms(2)] by simp
next
  case (D_Close h)
  then show ?thesis using assms(1) by (simp add: handle_step_def keeps_handle_def director_close_opens director_next_fh)
next
  case (D_Write h off d)
  then show ?thesis using opens_changed [OF director_write_opens director_next_fh(1)] by simp
next
  case (D_Set_Len h len)
  then show ?thesis using opens_changed [OF director_set_len_opens director_next_fh(2)] by simp
qed (simp_all add: handle_same_dir director_next_fh keeps_dir_paths [THEN keeps_dirD] mount_def unmount_def set_exec_stager_def)

lemma handle_step_below:
  assumes "handles_below s" and "handle_step s s'" and "unat (d_next_fh (ds_dir s)) + 1 < 2 ^ 64"
  shows "handles_below s' \<and> unat (d_next_fh (ds_dir s')) \<le> unat (d_next_fh (ds_dir s)) + 1"
proof -
  let ?n = "d_next_fh (ds_dir s)"
  have n: "unat (?n + 1) = unat ?n + 1" using assms(3) by (simp add: unat_word_ariths)
  from assms(2) show ?thesis unfolding handle_step_def
  proof
    assume s': "d_next_fh (ds_dir s') = ?n + 1 \<and> (\<forall>fh. fh \<noteq> ?n \<longrightarrow> d_opens (ds_dir s') fh = d_opens (ds_dir s) fh)"
    have "fh < ?n + 1" if "d_opens (ds_dir s') fh \<noteq> None" for fh
    proof (cases "fh = ?n")
      case False
      then have "fh < ?n" using assms(1) s' that by (auto simp: handles_below_def)
      then show ?thesis using n by (simp add: word_less_nat_alt)
    qed (use n in \<open>simp add: word_less_nat_alt\<close>)
    then show ?thesis using s' n by (simp add: handles_below_def)
  qed (use assms(1) in \<open>auto simp: handles_below_def\<close>)
qed


definition demo_provider :: "unit provider" where
  "demo_provider = read_core caps_read_only (\<lambda>_. ret None) (\<lambda>_. ret []) (\<lambda>_ _. ret (5, 10, False)) (\<lambda>_. ret ())"

definition demo_opened :: "unit dsys" where
  "demo_opened = \<lparr>ds_dir = (mount 0 demo_provider director_new)\<lparr>d_next_fh := 2,
     d_opens := [1 \<mapsto> \<lparr>rec_backend = demo_provider, rec_bh = 5, rec_size = 10, rec_is_dir = False, rec_cursor = None\<rparr>]\<rparr>, ds_world = ()\<rparr>"


section \<open>Appending\<close>

text \<open>Writes through one handle, each with the offset its caller gives.\<close>

fun write_list :: "u64 \<Rightarrow> (u64 \<times> bytes) list \<Rightarrow> 'w dsys \<Rightarrow> 'w dsys" where
  "write_list fh [] s = s"
| "write_list fh ((off, d) # ws) s = write_list fh ws (fst (director_write fh off d s))"

definition appending :: "u64 \<Rightarrow> 'w provider \<Rightarrow> u64 \<Rightarrow> nat \<Rightarrow> 'w dsys \<Rightarrow> bool" where
  "appending fh q h n s \<longleftrightarrow>
     (\<exists>r. d_opens (ds_dir s) fh = Some r \<and> rec_backend r = q \<and> rec_bh r = h \<and> \<not> rec_is_dir r \<and> rec_cursor r = Some (word_of_nat n))"

context file_backend
begin

lemma append_one:
  assumes "live (ds_world s)" and "appending fh pv bh (length (body (ds_world s))) s"
    and "length (body (ds_world s)) + length d < 2 ^ 64"
  shows "live (ds_world (fst (director_write fh off d s))) \<and>
    body (ds_world (fst (director_write fh off d s))) = body (ds_world s) @ d \<and>
    appending fh pv bh (length (body (ds_world s) @ d)) (fst (director_write fh off d s)) \<and>
    snd (director_write fh off d s) = Inr (length d)"
proof -
  let ?n = "length (body (ds_world s))"
  obtain r where r: "d_opens (ds_dir s) fh = Some r" "rec_backend r = pv" "rec_bh r = bh" "\<not> rec_is_dir r"
    "rec_cursor r = Some (word_of_nat ?n)"
    using assms(2) by (auto simp: appending_def)
  have n: "unat (word_of_nat ?n :: u64) = ?n" using assms(3) by (simp add: unat_of_nat)
  obtain w' where w: "pv_write_at pv bh (word_of_nat ?n) d (ds_world s) = (w', Inr (length d))" "live w'"
    "body w' = patch (body (ds_world s)) ?n d"
    using writes [OF assms(1), of "word_of_nat ?n" d] n assms(3) by auto
  have "director_write fh off d s = (upd_rec fh (\<lambda>r. r\<lparr>rec_cursor := (case rec_cursor r of Some _ \<Rightarrow> Some (word_of_nat ?n + word_of_nat (length d)) | None \<Rightarrow> None),
      rec_size := max (rec_size r) (word_of_nat ?n + word_of_nat (length d))\<rparr>) (s\<lparr>ds_world := w'\<rparr>), Inr (length d))"
    using r w(1) by (simp add: director_write_def on_world_def Let_def)
  then show ?thesis using r w(2,3) by (simp add: upd_rec_def appending_def)
qed

lemma append_many:
  assumes "live (ds_world s)" and "appending fh pv bh (length (body (ds_world s))) s"
    and "length (body (ds_world s)) + length (concat (map snd ws)) < 2 ^ 64"
  shows "body (ds_world (write_list fh ws s)) = body (ds_world s) @ concat (map snd ws) \<and> live (ds_world (write_list fh ws s))"
  using assms
proof (induction fh ws s rule: write_list.induct)
  case (2 fh off d ws s)
  then have "live (ds_world (fst (director_write fh off d s))) \<and>
    body (ds_world (fst (director_write fh off d s))) = body (ds_world s) @ d \<and>
    appending fh pv bh (length (body (ds_world s) @ d)) (fst (director_write fh off d s))"
    using append_one [of s fh d off] by simp
  then show ?case using 2 by simp
qed simp

end

end
