(* ===== verification/Dispatch.thy ===== *)
theory Dispatch
  imports Director Protocol Shared_Seg
begin

unbundle bit_operations_syntax

text \<open>
  Serving a request (\<^verbatim>\<open>vfs-director/src/ring_dispatch.rs\<close>): the opcode and payload of a ring slot are decoded, the
  director's operation runs, and the answer is encoded; a bulk read goes through the slot's bank of the arena. The
  counters of \<^verbatim>\<open>io_stats\<close> are not modelled. The registry opcodes go to the attached registry's dispatcher.
\<close>

definition BULK_THRESHOLD :: u32 where "BULK_THRESHOLD = 64 * 1024"
definition FLAG_READ_BULK :: u32 where "FLAG_READ_BULK = 1"

type_synonym reply = "u32 \<times> bytes"

definition bad :: reply where "bad = (ST_BAD_REQUEST, [])"

definition reply_of :: "u32 + bytes \<Rightarrow> reply" where
  "reply_of r = (case r of Inr b \<Rightarrow> (ST_OK, b) | Inl st \<Rightarrow> (st, []))"

definition max_read_data :: "u32 \<Rightarrow> nat" where
  "max_read_data cap = unat cap - 8"

text \<open>An arm of the dispatch: decode the payload, run the operation, encode its answer; where that is empty, the arm is \<^verbatim>\<open>status_only\<close>.\<close>

definition serve :: "'p option \<Rightarrow> ('p \<Rightarrow> ('s, 'a) act) \<Rightarrow> ('a \<Rightarrow> bytes) \<Rightarrow> 's \<Rightarrow> 's \<times> reply" where
  "serve req op enc s =
     (case req of
        None \<Rightarrow> (s, bad)
      | Some p \<Rightarrow> (let (s, r) = op p s in (s, reply_of (map_sum (\<lambda>e. e) enc r))))"

definition attr_of :: "stat option \<Rightarrow> attr_resp" where
  "attr_of st =
     (case st of
        Some st \<Rightarrow> \<lparr>ar_found = True, ar_is_dir = (st_kind st = KIND_DIR), ar_size = st_size st, ar_mtime = st_mtime st\<rparr>
      | None \<Rightarrow> \<lparr>ar_found = False, ar_is_dir = False, ar_size = 0, ar_mtime = 0\<rparr>)"

definition wire_entry :: "dir_entry \<Rightarrow> dir_entry_wire" where
  "wire_entry e = \<lparr>dw_name = de_name e, dw_is_dir = (st_kind (de_stat e) = KIND_DIR), dw_size = st_size (de_stat e),
     dw_mtime = st_mtime (de_stat e)\<rparr>"

definition open_reply :: "open_info \<Rightarrow> open_resp" where
  "open_reply oi = \<lparr>or_fh = oi_fh oi, or_size = oi_size oi, or_is_dir = oi_is_dir oi, or_immutable = oi_immutable oi,
     or_mount_gen = oi_mount_gen oi\<rparr>"

text \<open>The read arm: into the slot's bank when the request asks for bulk or is long and there is an arena, and otherwise
  inline, capped to what fits a payload.\<close>

definition serve_read :: "read_req \<Rightarrow> u32 \<Rightarrow> u32 \<Rightarrow> (data_arena \<times> u32) option \<Rightarrow> 'w dsys \<Rightarrow> seg \<Rightarrow> 'w dsys \<times> seg \<times> reply" where
  "serve_read req flags cap arena s m =
     (let want_bulk = (flags AND FLAG_READ_BULK \<noteq> 0 \<or> rr_len req \<ge> BULK_THRESHOLD) in
      case (if want_bulk then arena else None) of
        Some (a, slot) \<Rightarrow>
          (case fill_bank m a slot (min (bank_size a) (unat (rr_len req))) (director_read (rr_fh req) (rr_offset req)) s of
             (m, s, Inr (off, n)) \<Rightarrow> (s, m, ST_OK, encode_read_resp_bulk (word_of_nat n) (word_of_nat off))
           | (m, s, Inl st) \<Rightarrow> (s, m, st, []))
      | None \<Rightarrow>
          (case director_read (rr_fh req) (rr_offset req) (replicate (min (unat (rr_len req)) (max_read_data cap)) 0) s of
             (s, buf, Inr n) \<Rightarrow> (s, m, ST_OK, encode_read_resp (take n buf))
           | (s, buf, Inl st) \<Rightarrow> (s, m, st, [])))"

text \<open>The arms after the read, and those before it.\<close>

definition dispatch_rest :: "u32 \<Rightarrow> bytes \<Rightarrow> u32 \<Rightarrow> 'w dsys \<Rightarrow> 'w dsys \<times> reply" where
  "dispatch_rest op payload cap s =
     (if op = OP_CLOSE then serve (decode_close_req payload) director_close (\<lambda>_. []) s
      else if op = OP_WRITE then
        serve (decode_write_req payload) (\<lambda>(req, d). director_write (wr_fh req) (wr_offset req) d) (\<lambda>n. encode_write_resp (word_of_nat n)) s
      else if op = OP_SETATTR then
        serve (decode_setattr_req payload) (\<lambda>req. director_set_len (sr_fh req) (sr_size req)) (\<lambda>_. []) s
      else if op = OP_RENAME then serve (decode_rename_req payload) (\<lambda>(root, p, q). rename root p q) (\<lambda>_. []) s
      else if op = OP_RENAME_X then serve (decode_rename_x_req payload) (\<lambda>(r1, p, r2, q). rename_across r1 p r2 q) (\<lambda>_. []) s
      else if op = OP_STAGE_EXEC then serve (decode_path_req payload) (\<lambda>(root, path). stage_exec root path) utf8 s
      else if op = OP_DELETE then serve (decode_path_req payload) (\<lambda>(root, path). remove root path) (\<lambda>_. []) s
      else if op = OP_STORED_NAMES then
        serve (decode_names_req payload) (\<lambda>(root, skip, path). stored_names root path (unat skip)) encode_names_resp s
      else if op = OP_MKDIR then serve (decode_mkdir_req payload) (\<lambda>(root, _, path). mkdir root path) (\<lambda>_. []) s
      else if OP_REG_LOOKUP \<le> op \<and> op \<le> OP_REG_CHANGED then
        (case d_registry (ds_dir s) of
           Some host \<Rightarrow> (let (w, r) = host op payload cap (ds_world s) in (s\<lparr>ds_world := w\<rparr>, r))
         | None \<Rightarrow> (s, ST_NOT_SUPPORTED, []))
      else (s, ST_BAD_REQUEST, []))"

definition dispatch_other :: "u32 \<Rightarrow> bytes \<Rightarrow> u32 \<Rightarrow> 'w dsys \<Rightarrow> 'w dsys \<times> reply" where
  "dispatch_other op payload cap s =
     (if op = OP_GETATTR then
        serve (decode_path_req payload) (\<lambda>(root, vp). director_getattr root vp) (\<lambda>st. encode_getattr_resp (attr_of st)) s
      else if op = OP_READDIR then
        serve (decode_path_req payload) (\<lambda>(root, vp). director_readdir root vp) (\<lambda>es. encode_readdir_resp (map wire_entry es)) s
      else if op = OP_HEARTBEAT then (s, ST_OK, [])
      else if op = OP_OPEN then
        serve (decode_open_req payload) (\<lambda>(root, oflags, path). open_info_at root path (if oflags = 0 then OPEN_READ else oflags))
          (\<lambda>oi. encode_open_resp (open_reply oi)) s
      else dispatch_rest op payload cap s)"

definition dispatch_director :: "u32 \<Rightarrow> bytes \<Rightarrow> u32 \<Rightarrow> u32 \<Rightarrow> (data_arena \<times> u32) option \<Rightarrow> 'w dsys \<Rightarrow> seg \<Rightarrow> 'w dsys \<times> seg \<times> reply" where
  "dispatch_director op payload flags cap arena s m =
     (if op = OP_READ then
        (case decode_read_req payload of None \<Rightarrow> (s, m, bad) | Some req \<Rightarrow> serve_read req flags cap arena s m)
      else (let (s, r) = dispatch_other op payload cap s in (s, m, r)))"

end
