(* ===== verification/Fragments.thy ===== *)
theory Fragments
  imports Dispatch
begin

unbundle bit_operations_syntax

text \<open>
  A read cut into ring requests (\<^verbatim>\<open>read_fragmented\<close> of \<^verbatim>\<open>vfs-ipc/src/concurrent.rs\<close>). What it calls, the gate's permits
  and the ring's batch submission, is a record of operations on a state \<^typ>\<open>'e\<close>: the locale \<open>file_client\<close> says what
  they promise when one file is read, and the theory of the session interprets it on the gate, the dispatcher and
  the director. A slice out of the buffer's range, where the source panics, is \<^const>\<open>None\<close>.
\<close>

section \<open>The code\<close>

record read_plan =
  bulk_threshold :: nat
  bulk_chunk :: nat
  inline_chunk :: nat
  depth :: nat
  depth_stream :: nat
  stream_bytes :: nat

type_synonym ring_req = "u32 \<times> u32 \<times> bytes"

record 'e ring_client =
  rc_slots :: nat
  rc_seg :: "'e \<Rightarrow> seg"
  rc_acquire :: "nat \<Rightarrow> 'e \<Rightarrow> 'e \<times> nat option"
  rc_submit :: "ring_req list \<Rightarrow> 'e \<Rightarrow> 'e \<times> (u32 list + (u32 \<times> bytes) list \<times> u32 list)"
  rc_retire :: "u32 list \<Rightarrow> 'e \<Rightarrow> 'e"
  rc_release :: "u32 list \<Rightarrow> 'e \<Rightarrow> 'e"
  rc_drop :: "'e \<Rightarrow> 'e"

text \<open>The requests of one batch, at most \<open>k\<close>, from \<open>off\<close> on in a read of \<open>len\<close> bytes: flags, where in the read, how long.\<close>

fun plan_batch :: "read_plan \<Rightarrow> nat \<Rightarrow> nat \<Rightarrow> nat \<Rightarrow> (u32 \<times> nat \<times> nat) list" where
  "plan_batch plan 0 off len = []"
| "plan_batch plan (Suc k) off len =
     (if off < len then
        (let rem = len - off;
             bulk = (rem \<ge> bulk_threshold plan);
             chunk = (if bulk then min rem (bulk_chunk plan) else min rem (inline_chunk plan)) in
         if chunk = 0 then []
         else ((if bulk then FLAG_READ_BULK else 0), off, chunk) # plan_batch plan k (off + chunk) len)
      else [])"

definition read_request_of :: "u64 \<Rightarrow> u64 \<Rightarrow> u32 \<times> nat \<times> nat \<Rightarrow> ring_req" where
  "read_request_of fh offset f =
     (case f of (flags, off, chunk) \<Rightarrow>
        (OP_READ, flags, encode_read_req \<lparr>rr_fh = fh, rr_offset = offset + word_of_nat off, rr_len = word_of_nat chunk\<rparr>))"

text \<open>Copying the responses of a batch, in order, from \<open>at\<close> on: the buffer, the count, whether the file ended, and the
  error that stopped it.\<close>

fun copy_responses :: "seg \<Rightarrow> nat \<Rightarrow> (u32 \<times> bytes) list \<Rightarrow> nat list \<Rightarrow> bytes \<Rightarrow> nat \<Rightarrow> (bytes \<times> nat \<times> bool \<times> u32 option) option" where
  "copy_responses m at ((st, payload) # rs) (want # ws) buf filled =
     (if st \<noteq> ST_OK then Some (buf, filled, False, Some st)
      else if at + filled + want > length buf then None
      else
        (let start = at + filled; dest = take want (drop start buf);
             next = (\<lambda>n dest. if n < want then Some (overwrite buf start dest, filled + n, True, None)
                      else copy_responses m at rs ws (overwrite buf start dest) (filled + n)) in
         if is_read_resp_bulk payload then
           (case decode_read_bulk_resp payload of
              None \<Rightarrow> Some (buf, filled, False, Some ST_BAD_REQUEST)
            | Some (bn, aoff) \<Rightarrow>
                (let n = min (unat bn) (length dest) in
                 if n > 0 then
                   (case copy_to m (unat aoff) n of
                      None \<Rightarrow> Some (buf, filled, False, Some ST_IO_ERROR)
                    | Some d \<Rightarrow> next n (d @ drop n dest))
                 else next 0 dest))
         else
           (case decode_read_resp_into payload dest of
              None \<Rightarrow> Some (buf, filled, False, Some ST_BAD_REQUEST)
            | Some (n, dest) \<Rightarrow> next n dest)))"
| "copy_responses m at _ _ buf filled = Some (buf, filled, False, None)"

text \<open>One batch of a read of \<open>len\<close> bytes of which \<open>filled\<close> are there: it ends the read, or goes on with \<open>n\<close> bytes more.\<close>

datatype 'e batch_end = Ended 'e bytes "u32 + nat" | Panicked | More 'e bytes nat

definition finish_batch :: "'e ring_client \<Rightarrow> u32 list \<Rightarrow> 'e \<Rightarrow> nat \<Rightarrow> (bytes \<times> nat \<times> bool \<times> u32 option) option \<Rightarrow> 'e batch_end" where
  "finish_batch c held e filled r =
     (case r of
        None \<Rightarrow> Panicked
      | Some (buf, n, eof, err) \<Rightarrow>
          (let e = rc_drop c (rc_release c held e) in
           case err of
             Some st \<Rightarrow> Ended e buf (Inl st)
           | None \<Rightarrow> if eof \<or> n = 0 then Ended e buf (Inr (filled + n)) else More e buf n))"

definition batch_want :: "read_plan \<Rightarrow> nat \<Rightarrow> nat \<Rightarrow> nat" where
  "batch_want plan dep rem =
     (let per = max (if rem \<ge> bulk_threshold plan then bulk_chunk plan else inline_chunk plan) 1 in min ((rem + per - 1) div per) dep)"

definition read_batch :: "'e ring_client \<Rightarrow> read_plan \<Rightarrow> u64 \<Rightarrow> u64 \<Rightarrow> nat \<Rightarrow> nat \<Rightarrow> nat \<Rightarrow> bytes \<Rightarrow> 'e \<Rightarrow> 'e batch_end" where
  "read_batch c plan fh offset dep len filled buf e =
     (case rc_acquire c (batch_want plan dep (len - filled)) e of
        (e, None) \<Rightarrow> Ended e buf (Inl ST_IO_ERROR)
      | (e, Some permits) \<Rightarrow>
          (let frags = plan_batch plan (max permits 1) filled len in
           if frags = [] then Ended (rc_drop c e) buf (Inr filled)
           else
             (case rc_submit c (map (read_request_of fh offset) frags) e of
                (e, Inl retired) \<Rightarrow> Ended (rc_drop c (rc_retire c retired e)) buf (Inl ST_IO_ERROR)
              | (e, Inr (responses, held)) \<Rightarrow>
                  finish_batch c held e filled
                    (copy_responses (rc_seg c e) filled responses (map (\<lambda>(_, _, n). n) frags) buf 0))))"

function read_loop :: "'e ring_client \<Rightarrow> read_plan \<Rightarrow> u64 \<Rightarrow> u64 \<Rightarrow> nat \<Rightarrow> nat \<Rightarrow> nat \<Rightarrow> bytes \<Rightarrow> 'e \<Rightarrow> ('e \<times> bytes \<times> (u32 + nat)) option" where
  "read_loop c plan fh offset dep len filled buf e =
     (if filled < len then
        (case read_batch c plan fh offset dep len filled buf e of
           Ended e buf r \<Rightarrow> Some (e, buf, r)
         | Panicked \<Rightarrow> None
         | More e buf n \<Rightarrow> read_loop c plan fh offset dep len (filled + max n 1) buf e)
      else Some (e, buf, Inr filled))"
  by pat_completeness auto
termination by (relation "measure (\<lambda>(_, _, _, _, _, len, filled, _, _). len - filled)") auto

declare read_loop.simps [simp del]

text \<open>\<^const>\<open>read_batch\<close> goes on with at least one byte, so \<open>max n 1\<close> is \<open>n\<close>.\<close>

lemma finish_batch_More: "finish_batch c held e filled r = More e' buf' n \<Longrightarrow> n > 0"
  by (auto simp: finish_batch_def Let_def split: option.splits if_splits)

lemma read_batch_cases:
  obtains e1 where "rc_acquire c (batch_want plan dep (len - filled)) e = (e1, None)"
      "read_batch c plan fh offset dep len filled buf e = Ended e1 buf (Inl ST_IO_ERROR)"
  | e1 k where "rc_acquire c (batch_want plan dep (len - filled)) e = (e1, Some k)" "plan_batch plan (max k 1) filled len = []"
      "read_batch c plan fh offset dep len filled buf e = Ended (rc_drop c e1) buf (Inr filled)"
  | e1 k e2 retired where "rc_acquire c (batch_want plan dep (len - filled)) e = (e1, Some k)" "plan_batch plan (max k 1) filled len \<noteq> []"
      "rc_submit c (map (read_request_of fh offset) (plan_batch plan (max k 1) filled len)) e1 = (e2, Inl retired)"
      "read_batch c plan fh offset dep len filled buf e = Ended (rc_drop c (rc_retire c retired e2)) buf (Inl ST_IO_ERROR)"
  | e1 k e2 rs held where "rc_acquire c (batch_want plan dep (len - filled)) e = (e1, Some k)" "plan_batch plan (max k 1) filled len \<noteq> []"
      "rc_submit c (map (read_request_of fh offset) (plan_batch plan (max k 1) filled len)) e1 = (e2, Inr (rs, held))"
      "read_batch c plan fh offset dep len filled buf e = finish_batch c held e2 filled
        (copy_responses (rc_seg c e2) filled rs (map (\<lambda>(_, _, n). n) (plan_batch plan (max k 1) filled len)) buf 0)"
proof -
  obtain e1 p where a: "rc_acquire c (batch_want plan dep (len - filled)) e = (e1, p)" by (rule prod.exhaust)
  show thesis
  proof (cases p)
    case None
    then show thesis using a that(1) by (simp add: read_batch_def)
  next
    case (Some k)
    obtain e2 r where r: "rc_submit c (map (read_request_of fh offset) (plan_batch plan (max k 1) filled len)) e1 = (e2, r)"
      by (rule prod.exhaust)
    show thesis
    proof (cases "plan_batch plan (max k 1) filled len = []")
      case True
      then show thesis using a Some that(2) by (simp add: read_batch_def)
    next
      case False
      then show thesis using a Some r that(3,4) by (cases r) (auto simp: read_batch_def Let_def)
    qed
  qed
qed

lemma read_batch_More:
  assumes "read_batch c plan fh offset dep len filled buf e = More e' buf' n"
  shows "n > 0"
  by (rule read_batch_cases [of c plan dep len filled e fh offset buf]) (metis assms finish_batch_More batch_end.distinct)+

definition read_fragmented :: "'e ring_client \<Rightarrow> read_plan \<Rightarrow> u64 \<Rightarrow> u64 \<Rightarrow> bytes \<Rightarrow> 'e \<Rightarrow> ('e \<times> bytes \<times> (u32 + nat)) option" where
  "read_fragmented c plan fh offset buf e =
     (if buf = [] then Some (e, buf, Inr 0)
      else
        (let slots = max (rc_slots c) 1;
             dep = min (max (if length buf \<ge> stream_bytes plan then depth_stream plan else depth plan) 1) slots in
         read_loop c plan fh offset dep (length buf) 0 buf e))"

section \<open>The fragments of a batch\<close>

text \<open>Fragments one after the other from \<open>off\<close> on, none empty, and how far they reach.\<close>

fun chain :: "nat \<Rightarrow> (u32 \<times> nat \<times> nat) list \<Rightarrow> bool" where
  "chain off [] = True"
| "chain off ((_, o1, n) # fs) = (o1 = off \<and> 0 < n \<and> chain (off + n) fs)"

definition total :: "(u32 \<times> nat \<times> nat) list \<Rightarrow> nat" where
  "total fs = sum_list (map (\<lambda>(_, _, n). n) fs)"

lemma total_simps [simp]: "total [] = 0" "total ((fl, o1, n) # fs) = n + total fs"
  by (simp_all add: total_def)

lemma plan_batch_chain: "chain off (plan_batch plan k off len)"
  by (induction plan k off len rule: plan_batch.induct) (simp_all add: Let_def)

lemma plan_batch_total: "off \<le> len \<Longrightarrow> off + total (plan_batch plan k off len) \<le> len"
proof (induction plan k off len rule: plan_batch.induct)
  case (2 plan k off len)
  define n where "n = (if len - off \<ge> bulk_threshold plan then min (len - off) (bulk_chunk plan) else min (len - off) (inline_chunk plan))"
  show ?case
  proof (cases "off < len \<and> n \<noteq> 0")
    case True
    then have n: "off + n \<le> len" by (auto simp: n_def)
    have ih: "off + n + total (plan_batch plan k (off + n) len) \<le> len"
      by (rule 2(1) [OF _ refl refl n_def _ n]) (use True in simp_all)
    show ?thesis using True ih by (simp add: Let_def flip: n_def)
  next
    case False
    then show ?thesis using 2(2) by (auto simp: Let_def n_def)
  qed
qed simp

lemma plan_batch_length: "length (plan_batch plan k off len) \<le> k"
  by (induction plan k off len rule: plan_batch.induct) (simp_all add: Let_def)

definition frag_ok :: "read_plan \<Rightarrow> u32 \<times> nat \<times> nat \<Rightarrow> bool" where
  "frag_ok plan f = (case f of (fl, _, n) \<Rightarrow>
     (fl = FLAG_READ_BULK \<and> n \<le> bulk_chunk plan) \<or> (fl = 0 \<and> n \<le> inline_chunk plan \<and> n < bulk_threshold plan))"

lemma plan_batch_ok: "list_all (frag_ok plan) (plan_batch plan k off len)"
  by (induction plan k off len rule: plan_batch.induct) (auto simp: Let_def frag_ok_def)

lemma plan_batch_nonempty:
  "off < len \<Longrightarrow> 0 < k \<Longrightarrow> 0 < bulk_chunk plan \<Longrightarrow> 0 < inline_chunk plan \<Longrightarrow> plan_batch plan k off len \<noteq> []"
  by (cases k) (auto simp: Let_def)

section \<open>Whatever the server answers\<close>

lemma overwrite_keeps:
  assumes "at + n \<le> length buf" and "length d = n"
  shows "length (overwrite buf at d) = length buf" and "at + n \<le> k \<Longrightarrow> drop k (overwrite buf at d) = drop k buf"
  using assms by (simp_all add: overwrite_def)

lemma overwrite_part:
  assumes "at + w \<le> length buf" and "length d = w" and "n \<le> w" and "drop n d = drop n (take w (drop at buf))"
  shows "drop (at + n) (overwrite buf at d) = drop (at + n) buf"
proof -
  have "drop (at + n) (overwrite buf at d) = drop n d @ drop (at + w) buf"
    using assms(1-3) by (simp add: overwrite_def)
  also have "\<dots> = take (w - n) (drop (at + n) buf) @ drop (w - n) (drop (at + n) buf)"
    using assms(3,4) by (simp add: drop_take add.commute)
  finally show ?thesis by (simp only: append_take_drop_id)
qed

lemma decode_into_length:
  assumes "decode_read_resp_into p out = Some (n, out')"
  shows "n \<le> length out" and "length out' = length out" and "drop n out' = drop n out"
  using assms by (auto simp: decode_read_resp_into_def Let_def split: bind_splits if_splits)

text \<open>What one response leaves: the read goes on, ends here, or stops with an error.\<close>

lemma copy_responses_step:
  assumes room: "at + filled + want \<le> length buf"
  obtains err where "copy_responses m at ((st, payload) # rs) (want # ws) buf filled = Some (buf, filled, False, Some err)"
  | n dest where "n < want" "length dest = want" "drop n dest = drop n (take want (drop (at + filled) buf))"
      "copy_responses m at ((st, payload) # rs) (want # ws) buf filled = Some (overwrite buf (at + filled) dest, filled + n, True, None)"
  | dest where "length dest = want"
      "copy_responses m at ((st, payload) # rs) (want # ws) buf filled = copy_responses m at rs ws (overwrite buf (at + filled) dest) (filled + want)"
proof -
  note stop = that(1) and short = that(2) and full = that(3)
  define dest0 where "dest0 = take want (drop (at + filled) buf)"
  define go where "go = (\<lambda>n dest. if n < want then Some (overwrite buf (at + filled) dest, filled + n, True, None :: u32 option)
    else copy_responses m at rs ws (overwrite buf (at + filled) dest) (filled + n))"
  have len: "length dest0 = want" using room by (simp add: dest0_def)
  have step: thesis
    if r: "copy_responses m at ((st, payload) # rs) (want # ws) buf filled = go n dest"
      and n: "n \<le> want" and dest: "length dest = want" "drop n dest = drop n dest0" for n dest
    using short [OF _ dest(1) dest(2) [unfolded dest0_def]] full [OF dest(1)] n r
    by (cases "n < want") (auto simp: go_def simp del: copy_responses.simps)
  have unf: "copy_responses m at ((st, payload) # rs) (want # ws) buf filled =
     (if st \<noteq> ST_OK then Some (buf, filled, False, Some st)
      else if is_read_resp_bulk payload then
        (case decode_read_bulk_resp payload of
           None \<Rightarrow> Some (buf, filled, False, Some ST_BAD_REQUEST)
         | Some (bn, aoff) \<Rightarrow>
             (if min (unat bn) want > 0 then
                (case copy_to m (unat aoff) (min (unat bn) want) of
                   None \<Rightarrow> Some (buf, filled, False, Some ST_IO_ERROR)
                 | Some d \<Rightarrow> go (min (unat bn) want) (d @ drop (min (unat bn) want) dest0))
              else go 0 dest0))
      else
        (case decode_read_resp_into payload dest0 of
           None \<Rightarrow> Some (buf, filled, False, Some ST_BAD_REQUEST)
         | Some (n, dest) \<Rightarrow> go n dest))"
    by (simp only: copy_responses.simps Let_def go_def dest0_def [symmetric] len room linorder_not_less [THEN iffD2] if_False)
  consider "st \<noteq> ST_OK" | "st = ST_OK" "is_read_resp_bulk payload" | "st = ST_OK" "\<not> is_read_resp_bulk payload" by blast
  then show thesis
  proof cases
    case 1
    then show thesis using stop unf by (simp del: copy_responses.simps)
  next
    case 2
    show thesis
    proof (cases "decode_read_bulk_resp payload")
      case None
      then show thesis using 2 stop unf by (simp del: copy_responses.simps)
    next
      case (Some q)
      obtain bn aoff where q: "q = (bn, aoff)" by (cases q)
      define n where "n = min (unat bn) want"
      have u: "copy_responses m at ((st, payload) # rs) (want # ws) buf filled =
          (if n > 0 then (case copy_to m (unat aoff) n of None \<Rightarrow> Some (buf, filled, False, Some ST_IO_ERROR)
             | Some d \<Rightarrow> go n (d @ drop n dest0)) else go 0 dest0)"
        using unf 2 Some q by (simp only: option.case prod.case n_def [symmetric] if_True simp_thms if_False)
      have l: "length d = n" if "copy_to m (unat aoff) n = Some d" for d
        using that by (auto simp: copy_to_def in_bounds_def split: if_splits)
      consider "n = 0" | "n > 0" "copy_to m (unat aoff) n = None" | d where "n > 0" "copy_to m (unat aoff) n = Some d" by blast
      then show thesis
      proof cases
        case 1
        then show thesis using u step [of 0 dest0] len by simp
      next
        case 2
        then show thesis using u stop by simp
      next
        case (3 d)
        then show thesis using u step [of n "d @ drop n dest0"] len l [of d] by (simp add: n_def)
      qed
    qed
  next
    case 3
    show thesis
    proof (cases "decode_read_resp_into payload dest0")
      case None
      then show thesis using 3 stop unf by (simp del: copy_responses.simps)
    next
      case (Some q)
      obtain n dest where q: "q = (n, dest)" by (cases q)
      show thesis using step [of n dest] 3 Some q unf decode_into_length [of payload dest0 n dest] len by (simp del: copy_responses.simps)
    qed
  qed
qed

text \<open>The count never passes what was asked for, and nothing past it is touched unless there is an error.\<close>

lemma copy_responses_safe:
  assumes "at + filled + sum_list ws \<le> length buf"
  shows "\<exists>buf' n eof err. copy_responses m at rs ws buf filled = Some (buf', n, eof, err) \<and> length buf' = length buf \<and>
    filled \<le> n \<and> n \<le> filled + sum_list ws \<and> (err = None \<longrightarrow> drop (at + n) buf' = drop (at + n) buf)"
  using assms
proof (induction rs arbitrary: ws buf filled)
  case (Cons r rs)
  obtain st payload where r: "r = (st, payload)" by (cases r)
  show ?case
  proof (cases ws)
    case (Cons want ws')
    have room: "at + filled + want \<le> length buf" using Cons.prems Cons by simp
    show ?thesis
    proof (rule copy_responses_step [OF room, of m st payload rs ws'])
      fix err
      assume "copy_responses m at ((st, payload) # rs) (want # ws') buf filled = Some (buf, filled, False, Some err)"
      then show ?thesis using r Cons by (simp add: ex_bool_eq del: copy_responses.simps)
    next
      fix n dest
      assume n: "n < want" and d: "length dest = want" "drop n dest = drop n (take want (drop (at + filled) buf))"
        and e: "copy_responses m at ((st, payload) # rs) (want # ws') buf filled = Some (overwrite buf (at + filled) dest, filled + n, True, None)"
      show ?thesis
        using r Cons e n overwrite_keeps(1) [OF room d(1)] overwrite_part [OF room d(1) _ d(2)]
        by (simp add: add.assoc ex_bool_eq del: copy_responses.simps)
    next
      fix dest
      assume d: "length dest = want"
        and e: "copy_responses m at ((st, payload) # rs) (want # ws') buf filled = copy_responses m at rs ws' (overwrite buf (at + filled) dest) (filled + want)"
      let ?b = "overwrite buf (at + filled) dest"
      have l: "length ?b = length buf" by (rule overwrite_keeps(1) [OF room d])
      have "at + (filled + want) + sum_list ws' \<le> length ?b" using Cons.prems Cons l by simp
      from Cons.IH [OF this] obtain buf' k eof err where ih:
        "copy_responses m at rs ws' ?b (filled + want) = Some (buf', k, eof, err)" "length buf' = length ?b"
        "filled + want \<le> k" "k \<le> filled + want + sum_list ws'" "err = None \<longrightarrow> drop (at + k) buf' = drop (at + k) ?b"
        by blast
      have "drop (at + k) ?b = drop (at + k) buf" by (rule overwrite_keeps(2) [OF room d]) (use ih(3) in simp)
      then show ?thesis using ih e r Cons l by (simp del: copy_responses.simps)
    qed
  qed (simp add: ex_bool_eq)
qed (simp add: ex_bool_eq)

text \<open>How a batch may end, \<open>filled\<close> bytes of \<open>buf\<close> being there before it.\<close>

fun batch_ok :: "nat \<Rightarrow> bytes \<Rightarrow> 'e batch_end \<Rightarrow> bool" where
  "batch_ok filled buf (Ended e' buf' (Inl st)) = (length buf' = length buf)"
| "batch_ok filled buf (Ended e' buf' (Inr n)) = (length buf' = length buf \<and> filled \<le> n \<and> n \<le> length buf \<and> drop n buf' = drop n buf)"
| "batch_ok filled buf Panicked = False"
| "batch_ok filled buf (More e' buf' n) =
     (length buf' = length buf \<and> filled + n \<le> length buf \<and> drop (filled + n) buf' = drop (filled + n) buf)"

lemma finish_batch_safe:
  assumes "filled + sum_list ws \<le> length buf"
  shows "batch_ok filled buf (finish_batch c held e filled (copy_responses m filled rs ws buf 0))"
proof -
  have "filled + 0 + sum_list ws \<le> length buf" using assms by simp
  from copy_responses_safe [OF this, of m rs] obtain buf' n eof err where
    "copy_responses m filled rs ws buf 0 = Some (buf', n, eof, err)" "length buf' = length buf" "n \<le> sum_list ws"
    "err = None \<longrightarrow> drop (filled + n) buf' = drop (filled + n) buf" by auto
  then show ?thesis using assms by (cases err) (simp_all add: finish_batch_def Let_def)
qed

lemma read_batch_safe:
  assumes "filled < length buf"
  shows "batch_ok filled buf (read_batch c plan fh offset dep (length buf) filled buf e)"
proof (rule read_batch_cases [of c plan dep "length buf" filled e fh offset buf])
  fix e1 k e2 rs held
  assume r: "read_batch c plan fh offset dep (length buf) filled buf e = finish_batch c held e2 filled
    (copy_responses (rc_seg c e2) filled rs (map (\<lambda>(_, _, n). n) (plan_batch plan (max k 1) filled (length buf))) buf 0)"
  have "filled + sum_list (map (\<lambda>(_, _, n). n) (plan_batch plan (max k 1) filled (length buf))) \<le> length buf"
    using plan_batch_total [of filled "length buf" plan "max k 1"] assms by (simp add: total_def)
  then show ?thesis unfolding r by (rule finish_batch_safe)
qed (use assms in simp_all)

lemma read_loop_safe:
  assumes "filled \<le> len" and "length buf = len"
  shows "\<exists>e' buf' r. read_loop c plan fh offset dep len filled buf e = Some (e', buf', r) \<and> length buf' = len \<and>
    (\<forall>n. r = Inr n \<longrightarrow> filled \<le> n \<and> n \<le> len \<and> drop n buf' = drop n buf)"
  using assms
proof (induction "len - filled" arbitrary: filled buf e rule: less_induct)
  case less
  show ?case
  proof (cases "filled < len")
    case True
    then have ok: "batch_ok filled buf (read_batch c plan fh offset dep len filled buf e)"
      using read_batch_safe [of filled buf c plan fh offset dep e] less.prems by simp
    then consider e' buf' r where "read_batch c plan fh offset dep len filled buf e = Ended e' buf' r"
      | e' buf' n where "read_batch c plan fh offset dep len filled buf e = More e' buf' n"
      by (cases "read_batch c plan fh offset dep len filled buf e") simp_all
    then show ?thesis
    proof cases
      case (1 e' buf' r)
      then show ?thesis using True ok less.prems by (subst read_loop.simps) (cases r; simp)
    next
      case (2 e' buf' n)
      have o: "length buf' = len" "filled + n \<le> len" "drop (filled + n) buf' = drop (filled + n) buf"
        using ok 2 less.prems by simp_all
      have n: "n > 0" by (rule read_batch_More [OF 2(1)])
      then have m: "max n 1 = n" by simp
      have ih: "\<exists>e2 buf2 r. read_loop c plan fh offset dep len (filled + n) buf' e' = Some (e2, buf2, r) \<and> length buf2 = len \<and>
          (\<forall>k. r = Inr k \<longrightarrow> filled + n \<le> k \<and> k \<le> len \<and> drop k buf2 = drop k buf')"
        by (rule less.hyps) (use n True o in simp_all)
      have "drop k buf' = drop k buf" if "filled + n \<le> k" for k
        using o(3) that by (metis drop_drop le_add_diff_inverse2)
      then show ?thesis using ih 2 True m by (subst read_loop.simps) fastforce
    qed
  next
    case False
    then show ?thesis using less.prems by (subst read_loop.simps) simp
  qed
qed

text \<open>C37. Whatever the gate, the ring and the server answer, reading a file in fragments neither runs past the caller's buffer,
  where it would panic, nor goes on for ever: it returns an error, or a count within the buffer with every byte from
  there on as the caller had it, and the buffer keeps its length.\<close>

theorem read_fragmented_safe:
  "\<exists>e' buf' r. read_fragmented c plan fh offset buf e = Some (e', buf', r) \<and> length buf' = length buf \<and>
    (case r of Inl st \<Rightarrow> True | Inr n \<Rightarrow> n \<le> length buf \<and> drop n buf' = drop n buf)"
proof (cases "buf = []")
  case False
  define dep where "dep = min (max (if length buf \<ge> stream_bytes plan then depth_stream plan else depth plan) 1) (max (rc_slots c) 1)"
  have "read_fragmented c plan fh offset buf e = read_loop c plan fh offset dep (length buf) 0 buf e"
    using False by (simp only: read_fragmented_def Let_def dep_def if_False)
  with read_loop_safe [of 0 "length buf" buf c plan fh offset dep e] obtain e' buf' r where
    r: "read_fragmented c plan fh offset buf e = Some (e', buf', r)" "length buf' = length buf"
    "\<forall>n. r = Inr n \<longrightarrow> n \<le> length buf \<and> drop n buf' = drop n buf" by auto
  then show ?thesis by (cases r) simp_all
qed (simp add: read_fragmented_def)

section \<open>When the server answers for one file\<close>

text \<open>A response that carries \<open>d\<close>: inline, or as a place in the segment where it lies.\<close>

definition carries :: "seg \<Rightarrow> bytes \<Rightarrow> u32 \<times> bytes \<Rightarrow> bool" where
  "carries m d r \<longleftrightarrow> fst r = ST_OK \<and>
     (snd r = encode_read_resp d \<or>
      (\<exists>aoff. snd r = encode_read_resp_bulk (word_of_nat (length d)) aoff \<and> (d \<noteq> [] \<longrightarrow> copy_to m (unat aoff) (length d) = Some d)))"

lemma drop_take_rejoin: "k \<le> w \<Longrightarrow> w \<le> length xs \<Longrightarrow> drop k (take w xs) @ drop w xs = drop k xs"
  using drop_append [of k "take w xs" "drop w xs"] by simp

lemma overwrite_whole:
  assumes "at + w \<le> length buf" and "length d \<le> w"
  shows "overwrite buf at (d @ drop (length d) (take w (drop at buf))) = overwrite buf at d"
  using drop_take_rejoin [of "length d" w "drop at buf"] assms by (simp add: overwrite_def add.commute)

text \<open>One such response is copied to where it belongs; it ends the read exactly when it is short.\<close>

lemma copy_carried:
  assumes d: "carries m d (st, pl)" "length d \<le> want" "length d < 2 ^ 31" and room: "at + filled + want \<le> length buf"
  shows "copy_responses m at ((st, pl) # rs) (want # ws) buf filled =
    (if length d < want then Some (overwrite buf (at + filled) d, filled + length d, True, None)
     else copy_responses m at rs ws (overwrite buf (at + filled) d) (filled + want))"
proof -
  let ?dest = "take want (drop (at + filled) buf)"
  have len: "length ?dest = want" using room by simp
  note ow = overwrite_whole [OF room d(2)]
  have n: "unat (word_of_nat (length d) :: u32) = length d" using d(3) by (simp add: unat_of_nat_u32)
  consider "pl = encode_read_resp d" | aoff where "pl = encode_read_resp_bulk (word_of_nat (length d)) aoff"
      "d \<noteq> [] \<longrightarrow> copy_to m (unat aoff) (length d) = Some d"
    using d(1) by (auto simp: carries_def)
  then show ?thesis
  proof cases
    case 1
    have "\<not> is_read_resp_bulk pl" "decode_read_resp_into pl ?dest = Some (length d, d @ drop (length d) ?dest)"
      using read_replies_disjoint [OF d(3), of 0 ?dest] d(2) len 1 by simp_all
    then show ?thesis using d(1,2) room ow by (simp add: carries_def Let_def)
  next
    case (2 aoff)
    have "is_read_resp_bulk pl" "decode_read_bulk_resp pl = Some (word_of_nat (length d), aoff)"
      using read_replies_disjoint [OF d(3), of "word_of_nat (length d)" ?dest aoff] d(3) n 2 by simp_all
    moreover have "d = [] \<or> copy_to m (unat aoff) (length d) = Some d" using 2 by blast
    ultimately show ?thesis using d(1,2) room ow n by (cases "d = []") (auto simp: carries_def Let_def min_def overwrite_def)
  qed
qed

text \<open>The bytes of the file from the read's offset on are \<open>G\<close>; the buffer holds the first \<open>x\<close> of them already.\<close>

definition part_read :: "bytes \<Rightarrow> nat \<Rightarrow> bytes \<Rightarrow> bytes" where
  "part_read G x buf = take x G @ drop x buf"

lemma overwrite_part_read:
  assumes "x \<le> length G" and "x + w \<le> length buf"
  shows "overwrite (part_read G x buf) x (take w (drop x G)) = part_read G (x + min w (length G - x)) buf"
  using assms by (simp add: overwrite_def part_read_def take_add min_def add.commute)

lemma length_part_read [simp]: "x \<le> length G \<Longrightarrow> x \<le> length buf \<Longrightarrow> length (part_read G x buf) = length buf"
  by (simp add: part_read_def)

definition answered_from :: "seg \<Rightarrow> bytes \<Rightarrow> (u32 \<times> nat \<times> nat) list \<Rightarrow> (u32 \<times> bytes) list \<Rightarrow> bool" where
  "answered_from m G frags rs \<longleftrightarrow> list_all2 (\<lambda>(_, o1, n) r. n < 2 ^ 31 \<and> carries m (take n (drop o1 G)) r) frags rs"

lemma copy_answered:
  assumes "answered_from m G frags rs" and "chain (at + filled) frags" and "at + filled + total frags \<le> length buf"
    and "at + filled \<le> length G"
  shows "copy_responses m at rs (map (\<lambda>(_, _, n). n) frags) (part_read G (at + filled) buf) filled =
    Some (part_read G (at + filled + min (total frags) (length G - (at + filled))) buf,
      filled + min (total frags) (length G - (at + filled)), length G < at + filled + total frags, None)"
  using assms
proof (induction frags arbitrary: rs filled)
  case (Cons f frags)
  obtain fl o1 n where f: "f = (fl, o1, n)" by (cases f)
  obtain st pl rs' where rs: "rs = (st, pl) # rs'" using Cons.prems(1) by (cases rs) (auto simp: answered_from_def)
  let ?x = "at + filled" let ?d = "take n (drop ?x G)"
  have ans: "answered_from m G frags rs'" and c: "n < 2 ^ 31" "carries m ?d (st, pl)" and o1: "o1 = ?x"
    and ch: "chain (?x + n) frags"
    using Cons.prems(1,2) by (auto simp: answered_from_def f rs)
  have room: "?x + n + total frags \<le> length buf" using Cons.prems(3) by (simp add: f)
  have step: "copy_responses m at rs (map (\<lambda>(_, _, n). n) (f # frags)) (part_read G ?x buf) filled =
    (if length ?d < n then Some (part_read G (?x + length ?d) buf, filled + length ?d, True, None)
     else copy_responses m at rs' (map (\<lambda>(_, _, n). n) frags) (part_read G (?x + length ?d) buf) (filled + n))"
  proof -
    define d where "d = ?d"
    have "length d \<le> n" "length d < 2 ^ 31" "?x + n \<le> length (part_read G ?x buf)" "?x + n \<le> length buf"
      using c(1) room Cons.prems(4) by (simp_all add: d_def)
    moreover have "overwrite (part_read G ?x buf) ?x d = part_read G (?x + length d) buf"
      using overwrite_part_read [OF Cons.prems(4), of n buf] \<open>?x + n \<le> length buf\<close> by (simp add: d_def min.commute)
    ultimately show ?thesis
      using copy_carried [of m d st pl n at filled "part_read G ?x buf" rs' "map (\<lambda>(_, _, n). n) frags"] c(2)
      by (simp add: f rs del: copy_responses.simps flip: d_def)
  qed
  show ?case
  proof (cases "?x + n \<le> length G")
    case True
    then have d: "length ?d = n" by simp
    have "copy_responses m at rs' (map (\<lambda>(_, _, n). n) frags) (part_read G (at + (filled + n)) buf) (filled + n) =
      Some (part_read G (at + (filled + n) + min (total frags) (length G - (at + (filled + n)))) buf,
        filled + n + min (total frags) (length G - (at + (filled + n))), length G < at + (filled + n) + total frags, None)"
      by (rule Cons.IH [OF ans]) (use ch room True in \<open>simp_all add: add.assoc\<close>)
    moreover have "n + min (total frags) (length G - (at + (filled + n))) = min (n + total frags) (length G - ?x)" using True by arith
    ultimately show ?thesis unfolding step using d by (simp add: f add.assoc del: copy_responses.simps)
  next
    case False
    then have "length ?d = length G - ?x" "length ?d < n" "min (total (f # frags)) (length G - ?x) = length G - ?x"
      using Cons.prems(4) by (auto simp: f)
    then show ?thesis unfolding step using False by (simp add: f)
  qed
qed (simp add: answered_from_def)

text \<open>What the gate and the ring promise a read of one file \<open>F\<close>, open as \<open>fh\<close>: when nothing of it is in flight, permits are
  had; requests within the plan and the permits are answered, each with the file's bytes there; and once their slots
  and permits have gone back, nothing is in flight again.\<close>

locale file_client =
  fixes c :: "'e ring_client" and plan :: read_plan and fh :: u64 and F :: bytes and ready :: "'e \<Rightarrow> bool"
    and holding :: "nat \<Rightarrow> 'e \<Rightarrow> bool"
  assumes chunks: "ready e \<Longrightarrow> 0 < bulk_chunk plan \<and> 0 < inline_chunk plan"
    and acquires: "ready e \<Longrightarrow> \<exists>e' k. rc_acquire c want e = (e', Some k) \<and> holding k e'"
    and submits: "holding k e \<Longrightarrow> frags \<noteq> [] \<Longrightarrow> length frags \<le> max k 1 \<Longrightarrow> list_all (frag_ok plan) frags \<Longrightarrow>
      list_all (\<lambda>(_, o1, n). unat offset + o1 + n < 2 ^ 64) frags \<Longrightarrow>
      \<exists>e' rs held. rc_submit c (map (read_request_of fh offset) frags) e = (e', Inr (rs, held)) \<and>
        answered_from (rc_seg c e') (drop (unat offset) F) frags rs \<and> ready (rc_drop c (rc_release c held e'))"
begin

lemma chain_bounds: "chain off frags \<Longrightarrow> list_all (\<lambda>(_, o1, n). off \<le> o1 \<and> o1 + n \<le> off + total frags) frags"
proof (induction off frags rule: chain.induct)
  case (2 off fl o1 n fs)
  then have "list_all (\<lambda>(_, o1, k). off + n \<le> o1 \<and> o1 + k \<le> off + n + total fs) fs" by simp
  then show ?case using 2(2) by (auto simp: list_all_iff)
qed simp

lemma read_batch_file:
  assumes "ready e" and "filled < length buf" and "unat offset + length buf < 2 ^ 64" and "G = drop (unat offset) F" and "filled \<le> length G"
  obtains e' n where "read_batch c plan fh offset dep (length buf) filled (part_read G filled buf) e =
      Ended e' (part_read G n buf) (Inr n)" "n = min (length buf) (length G)" "ready e'"
  | e' n where "read_batch c plan fh offset dep (length buf) filled (part_read G filled buf) e = More e' (part_read G (filled + n) buf) n"
      "0 < n" "filled + n \<le> length buf" "filled + n \<le> length G" "ready e'"
proof -
  obtain e1 k where a: "rc_acquire c (batch_want plan dep (length buf - filled)) e = (e1, Some k)" and h: "holding k e1"
    using acquires [OF assms(1)] by metis
  define frags where "frags = plan_batch plan (max k 1) filled (length buf)"
  have ne: "frags \<noteq> []" unfolding frags_def by (rule plan_batch_nonempty) (use assms(2) chunks [OF assms(1)] in auto)
  have ch: "chain filled frags" and tot: "filled + total frags \<le> length buf"
    using plan_batch_chain plan_batch_total [of filled "length buf"] assms(2) by (simp_all add: frags_def)
  have pos: "0 < total frags" using ne ch by (cases frags) auto
  have fit: "list_all (\<lambda>(_, o1, n). unat offset + o1 + n < 2 ^ 64) frags"
    using chain_bounds [OF ch] tot assms(3) by (fastforce simp: list_all_iff)
  obtain e2 rs held where s: "rc_submit c (map (read_request_of fh offset) frags) e1 = (e2, Inr (rs, held))"
    and ans: "answered_from (rc_seg c e2) G frags rs" and r: "ready (rc_drop c (rc_release c held e2))"
    using submits [OF h ne _ _ fit] plan_batch_length plan_batch_ok assms(4) unfolding frags_def by metis
  let ?n = "min (total frags) (length G - filled)"
  have "copy_responses (rc_seg c e2) filled rs (map (\<lambda>(_, _, n). n) frags) (part_read G filled buf) 0 =
      Some (part_read G (filled + ?n) buf, ?n, length G < filled + total frags, None)"
    using copy_answered [OF ans, of filled 0 buf] ch tot assms(5) by simp
  then have b: "read_batch c plan fh offset dep (length buf) filled (part_read G filled buf) e =
      (if length G < filled + total frags \<or> ?n = 0 then Ended (rc_drop c (rc_release c held e2)) (part_read G (filled + ?n) buf) (Inr (filled + ?n))
       else More (rc_drop c (rc_release c held e2)) (part_read G (filled + ?n) buf) ?n)"
    using a ne s by (simp only: read_batch_def Let_def finish_batch_def frags_def [symmetric] prod.case option.case sum.case if_False)
  show thesis
  proof (cases "length G < filled + total frags")
    case True
    then have "filled + ?n = min (length buf) (length G)" using tot assms(5) by arith
    then show thesis using that(1) [OF _ _ r, of "filled + ?n"] b True by simp
  next
    case False
    then have n: "?n = total frags" by simp
    show thesis by (rule that(2) [OF _ pos tot _ r]) (use b False n pos in simp_all)
  qed
qed

lemma read_loop_file:
  assumes "ready e" and "filled \<le> length buf" and "unat offset + length buf < 2 ^ 64" and "G = drop (unat offset) F" and "filled \<le> length G"
  shows "\<exists>e'. read_loop c plan fh offset dep (length buf) filled (part_read G filled buf) e =
    Some (e', part_read G (min (length buf) (length G)) buf, Inr (min (length buf) (length G))) \<and> ready e'"
  using assms(1,2,5)
proof (induction "length buf - filled" arbitrary: filled e rule: less_induct)
  case less
  show ?case
  proof (cases "filled < length buf")
    case True
    show ?thesis
    proof (rule read_batch_file [OF less.prems(1) True assms(3,4) less.prems(3), of dep])
      fix e' n
      assume "read_batch c plan fh offset dep (length buf) filled (part_read G filled buf) e = Ended e' (part_read G n buf) (Inr n)"
        "n = min (length buf) (length G)" "ready e'"
      then show ?thesis using True by (subst read_loop.simps) simp
    next
      fix e' n
      assume b: "read_batch c plan fh offset dep (length buf) filled (part_read G filled buf) e = More e' (part_read G (filled + n) buf) n"
        "0 < n" "filled + n \<le> length buf" "filled + n \<le> length G" "ready e'"
      have "max n 1 = n" using b(2) by simp
      moreover have "\<exists>e''. read_loop c plan fh offset dep (length buf) (filled + n) (part_read G (filled + n) buf) e' =
          Some (e'', part_read G (min (length buf) (length G)) buf, Inr (min (length buf) (length G))) \<and> ready e''"
        by (rule less.hyps) (use True b in simp_all)
      ultimately show ?thesis using True b(1) by (subst read_loop.simps) simp
    qed
  next
    case False
    then have "filled = min (length buf) (length G)" using less.prems(2,3) by simp
    then show ?thesis using False less.prems(1) by (subst read_loop.simps) simp
  qed
qed

lemma reads_file:
  assumes "ready e" and "unat offset + length buf < 2 ^ 64" and "n = min (length buf) (length F - unat offset)"
  shows "\<exists>e'. read_fragmented c plan fh offset buf e = Some (e', take n (drop (unat offset) F) @ drop n buf, Inr n) \<and> ready e'"
proof (cases "buf = []")
  case False
  define dep where "dep = min (max (if length buf \<ge> stream_bytes plan then depth_stream plan else depth plan) 1) (max (rc_slots c) 1)"
  have "read_fragmented c plan fh offset buf e = read_loop c plan fh offset dep (length buf) 0 buf e"
    using False by (simp only: read_fragmented_def Let_def dep_def if_False)
  then show ?thesis
    using read_loop_file [OF assms(1) _ assms(2) refl, of 0 dep] assms(3) by (simp add: part_read_def)
qed (use assms in \<open>simp add: read_fragmented_def\<close>)

end

end
