(* ===== verification/Gate.thy ===== *)
theory Gate
  imports Ring
begin

text \<open>
  The gate on data requests of \<^verbatim>\<open>vfs-ipc/src/concurrent.rs\<close>: \<^verbatim>\<open>data_limit\<close>, the operations of \<^verbatim>\<open>DataGate\<close> and of the
  \<^verbatim>\<open>Permits\<close> it hands out, and any number of callers that use it. An operation is one step: its compare-and-swap
  loops retry until nobody interferes, and what it does under the line's lock nobody else does meanwhile. A lock
  that cannot be had within its spin is the environment's choice (\<open>locked\<close>), as are the clock (milliseconds since
  the gate's epoch) and when a caller's patience ends. The counters are natural numbers: \<open>gate_inv\<close> bounds them by
  the limit, a 32-bit number.
\<close>

section \<open>The limit\<close>

definition data_limit :: "u32 \<Rightarrow> u32 \<Rightarrow> u32" where
  "data_limit workers slots =
     (let workers = min (if workers = 0 then word_of_nat DEFAULT_WORKER_COUNT else workers) (max slots 1);
          reserve = max (workers div 4) 1 in
      max (if workers \<ge> reserve then workers - reserve else 0) 1)"

section \<open>State\<close>

datatype wait_state = WAITING | GRANTED | GONE

record waiter =
  w_state :: wait_state
  w_asleep :: bool
  w_seen :: nat

text \<open>Waiters are shared cells; \<open>gt_cells\<close> are their contents and \<open>gt_next\<close> the next one to allocate.\<close>

record gate =
  gt_avail :: nat
  gt_limit :: nat
  gt_reserve :: nat
  gt_per_call :: nat
  gt_queued :: nat
  gt_line :: "nat list"
  gt_cells :: "nat \<Rightarrow> waiter"
  gt_next :: nat
  gt_retired :: "u32 list"
  gt_retired_count :: nat

definition STALE :: nat where "STALE = 500"

definition gate_new :: "nat \<Rightarrow> gate" where
  "gate_new limit = (let limit = max limit 1 in
     \<lparr>gt_avail = limit, gt_limit = limit, gt_reserve = min (max (limit div 4) 1) (limit - 1), gt_per_call = (limit + 1) div 2,
      gt_queued = 0, gt_line = [], gt_cells = (\<lambda>_. \<lparr>w_state = GONE, w_asleep = False, w_seen = 0\<rparr>), gt_next = 0,
      gt_retired = [], gt_retired_count = 0\<rparr>)"

definition for_ring :: "seg \<Rightarrow> geom \<Rightarrow> gate" where
  "for_ring m g = gate_new (unat (data_limit (worker_hint m) (slot_count g)))"

definition in_flight :: "gate \<Rightarrow> nat" where
  "in_flight d = gt_limit d - min (gt_avail d) (gt_limit d)"

definition gate_take :: "gate \<Rightarrow> nat \<Rightarrow> gate \<times> nat" where
  "gate_take d want =
     (let cur = gt_avail d in
      if cur = 0 then (d, 0)
      else
        (let extras = min ((cur - 1) - gt_reserve d) (want - 1); n = 1 + extras in
         (d\<lparr>gt_avail := cur - n\<rparr>, n)))"

definition set_waiter :: "gate \<Rightarrow> nat \<Rightarrow> wait_state \<Rightarrow> gate" where
  "set_waiter d w st = d\<lparr>gt_cells := (gt_cells d)(w := (gt_cells d w)\<lparr>w_state := st\<rparr>), gt_queued := gt_queued d - 1\<rparr>"

text \<open>The loop of \<^verbatim>\<open>hand_out\<close> over the line; the flag says whether a sleeper was granted its permit.\<close>

fun hand_loop :: "gate \<Rightarrow> nat \<Rightarrow> nat list \<Rightarrow> gate \<times> bool" where
  "hand_loop d now [] = (d\<lparr>gt_line := []\<rparr>, False)"
| "hand_loop d now (w # ws) =
     (if w_state (gt_cells d w) \<noteq> WAITING then hand_loop d now ws
      else if now - w_seen (gt_cells d w) \<ge> STALE then hand_loop (set_waiter d w GONE) now ws
      else if gt_avail d = 0 then (d\<lparr>gt_line := w # ws\<rparr>, False)
      else
        (let (d', wake) = hand_loop (set_waiter (d\<lparr>gt_avail := gt_avail d - 1\<rparr>) w GRANTED) now ws in
         (d', wake \<or> w_asleep (gt_cells d w))))"

definition hand_out :: "gate \<Rightarrow> bool \<Rightarrow> nat \<Rightarrow> gate" where
  "hand_out d locked now =
     (if gt_queued d = 0 then d else if \<not> locked then d else fst (hand_loop d now (gt_line d)))"

definition gate_release :: "gate \<Rightarrow> nat \<Rightarrow> bool \<Rightarrow> nat \<Rightarrow> gate" where
  "gate_release d n locked now =
     (if n = 0 then d else hand_out (d\<lparr>gt_avail := gt_avail d + n\<rparr>) locked now)"

text \<open>\<open>recorded\<close> is whether the lock on the retired slots was had within fifty attempts.\<close>

definition gate_retire :: "gate \<Rightarrow> u32 \<Rightarrow> bool \<Rightarrow> bool \<Rightarrow> nat \<Rightarrow> gate \<times> bool" where
  "gate_retire d slot recorded locked now =
     (if \<not> recorded then (d, False)
      else if slot \<in> set (gt_retired d) then (gate_release d 1 locked now, True)
      else
        (let r = gt_retired d @ [slot] in
         (d\<lparr>gt_retired := r, gt_retired_count := length r\<rparr>, True)))"

definition reclaim :: "gate \<Rightarrow> seg \<Rightarrow> geom \<Rightarrow> bool \<Rightarrow> bool \<Rightarrow> nat \<Rightarrow> gate \<times> nat" where
  "reclaim d m g got locked now =
     (if gt_retired_count d = 0 then (d, 0)
      else if \<not> got then (d, 0)
      else
        (let r = filter (\<lambda>slot. slot_state m g slot = Some ST_ABANDONED) (gt_retired d);
             freed = length (gt_retired d) - length r in
         (gate_release (d\<lparr>gt_retired := r, gt_retired_count := length r\<rparr>) freed locked now, freed)))"

definition join_line :: "gate \<Rightarrow> nat \<Rightarrow> gate \<times> nat" where
  "join_line d now =
     (let me = gt_next d in
      (d\<lparr>gt_cells := (gt_cells d)(me := \<lparr>w_state = WAITING, w_asleep = False, w_seen = now\<rparr>), gt_next := Suc me,
         gt_line := gt_line d @ [me], gt_queued := gt_queued d + 1\<rparr>, me))"

text \<open>\<^verbatim>\<open>acquire\<close> up to where it waits: permits at once, or a place in line.\<close>

definition clamp_want :: "gate \<Rightarrow> nat \<Rightarrow> nat" where
  "clamp_want d want = (if want < 1 then 1 else if want > gt_per_call d then gt_per_call d else want)"

definition acquire_now :: "gate \<Rightarrow> nat \<Rightarrow> seg \<Rightarrow> geom \<Rightarrow> bool \<Rightarrow> bool \<Rightarrow> nat \<Rightarrow> gate \<times> nat" where
  "acquire_now d want m g got locked now =
     (let want = clamp_want d want in
      if gt_queued d \<noteq> 0 then (d, 0)
      else
        (let (d, n) = gate_take d want in
         if n > 0 then (d, n)
         else
           (let (d, back) = reclaim d m g got locked now in
            if back > 0 then gate_take d want else (d, 0))))"

definition get_in_line :: "gate \<Rightarrow> bool \<Rightarrow> nat \<Rightarrow> gate \<times> nat" where
  "get_in_line d locked now = (let (d, me) = join_line d now in (hand_out d locked now, me))"

text \<open>One turn of the loop in \<^verbatim>\<open>wait_in_line\<close>: a permit, no permit, or another turn with this place in line. \<open>late\<close>
  is whether the caller's patience has run out, \<open>watching\<close> whether it still only watches, and \<open>rejoined\<close> whether
  a caller passed over got back in line in time.\<close>

datatype wait_outcome = Served | Unserved | Again nat

definition wait_turn_in_line :: "gate \<Rightarrow> nat \<Rightarrow> bool \<Rightarrow> bool \<Rightarrow> bool \<Rightarrow> seg \<Rightarrow> geom \<Rightarrow> bool \<Rightarrow> bool \<Rightarrow> nat \<Rightarrow> gate \<times> wait_outcome" where
  "wait_turn_in_line d me rejoined late watching m g got locked now =
     (case w_state (gt_cells d me) of
        GRANTED \<Rightarrow> (d, Served)
      | GONE \<Rightarrow> if rejoined then (let (d, me) = get_in_line d locked now in (d, Again me)) else (d, Unserved)
      | WAITING \<Rightarrow>
          if late then (set_waiter d me GONE, Unserved)
          else
            (let d = d\<lparr>gt_cells := (gt_cells d)(me := (gt_cells d me)\<lparr>w_seen := now\<rparr>)\<rparr> in
             if watching then (d, Again me)
             else
               (let (d, _) = reclaim d m g got locked now;
                    d = hand_out d locked now;
                    d = d\<lparr>gt_cells := (gt_cells d)(me := (gt_cells d me)\<lparr>w_asleep := True\<rparr>)\<rparr> in
                (d, Again me))))"

text \<open>\<^verbatim>\<open>Permits::retire\<close> on the slots a holder gave up; the rest of its permits goes back when it is dropped.\<close>

fun permits_retire :: "gate \<Rightarrow> nat \<Rightarrow> u32 list \<Rightarrow> bool \<Rightarrow> bool \<Rightarrow> nat \<Rightarrow> gate \<times> nat" where
  "permits_retire d n [] recorded locked now = (d, n)"
| "permits_retire d n (slot # slots) recorded locked now =
     (if n = 0 then (d, 0)
      else
        (let (d, kept) = gate_retire d slot recorded locked now in
         permits_retire d (if kept then n - 1 else n) slots recorded locked now))"

definition permits_drop :: "gate \<Rightarrow> nat \<Rightarrow> bool \<Rightarrow> nat \<Rightarrow> gate" where
  "permits_drop d n locked now = gate_release d n locked now"

section \<open>Callers\<close>

datatype caller = Away | Holds nat | InLine nat

record gate_sys =
  the_gate :: gate
  callers :: "nat \<Rightarrow> caller"

text \<open>Any caller, at any time: ask for permits (as often as it likes), get in line, take a turn there, keep permits out
  for slots it gave up, give the rest back; and anybody may look for retired slots the director is done with.\<close>

inductive gate_step :: "gate_sys \<Rightarrow> gate_sys \<Rightarrow> bool" where
  ask: "callers x c = Away \<Longrightarrow> acquire_now (the_gate x) want m g got locked now = (d, n) \<Longrightarrow>
    gate_step x (x\<lparr>the_gate := d, callers := (callers x)(c := if n = 0 then Away else Holds n)\<rparr>)"
| queue: "callers x c = Away \<Longrightarrow> get_in_line (the_gate x) locked now = (d, me) \<Longrightarrow>
    gate_step x (x\<lparr>the_gate := d, callers := (callers x)(c := InLine me)\<rparr>)"
| turn: "callers x c = InLine me \<Longrightarrow> wait_turn_in_line (the_gate x) me rejoined late watching m g got locked now = (d, r) \<Longrightarrow>
    gate_step x (x\<lparr>the_gate := d, callers := (callers x)(c := case r of Served \<Rightarrow> Holds 1 | Unserved \<Rightarrow> Away | Again me' \<Rightarrow> InLine me')\<rparr>)"
| keep_out: "callers x c = Holds n \<Longrightarrow> permits_retire (the_gate x) n slots recorded locked now = (d, n') \<Longrightarrow>
    gate_step x (x\<lparr>the_gate := d, callers := (callers x)(c := Holds n')\<rparr>)"
| give_back: "callers x c = Holds n \<Longrightarrow>
    gate_step x (x\<lparr>the_gate := permits_drop (the_gate x) n locked now, callers := (callers x)(c := Away)\<rparr>)"
| look_again: "reclaim (the_gate x) m g got locked now = (d, n) \<Longrightarrow> gate_step x (x\<lparr>the_gate := d\<rparr>)"

inductive gate_reach :: "nat \<Rightarrow> gate_sys \<Rightarrow> bool" for limit where
  gate_start: "gate_reach limit \<lparr>the_gate = gate_new limit, callers = \<lambda>_. Away\<rparr>"
| gate_next: "gate_reach limit x \<Longrightarrow> gate_step x y \<Longrightarrow> gate_reach limit y"

section \<open>Permits are conserved\<close>

fun permits_of :: "gate \<Rightarrow> caller \<Rightarrow> nat" where
  "permits_of d Away = 0"
| "permits_of d (Holds n) = n"
| "permits_of d (InLine w) = (if w_state (gt_cells d w) = GRANTED then 1 else 0)"

definition permits_out :: "gate \<Rightarrow> (nat \<Rightarrow> caller) \<Rightarrow> nat" where
  "permits_out d cs = (\<Sum>c | cs c \<noteq> Away. permits_of d (cs c))"

text \<open>Every permit is free, out, or kept for a retired slot; every waiting place in line has one owner.\<close>

definition conserved :: "gate \<Rightarrow> (nat \<Rightarrow> caller) \<Rightarrow> bool" where
  "conserved d cs \<longleftrightarrow> finite {c. cs c \<noteq> Away} \<and> gt_avail d + permits_out d cs + length (gt_retired d) = gt_limit d \<and>
     (\<forall>c c' w. cs c = InLine w \<and> cs c' = InLine w \<longrightarrow> c = c') \<and>
     (\<forall>w. w_state (gt_cells d w) = WAITING \<longrightarrow> (\<exists>c. cs c = InLine w)) \<and>
     (\<forall>c w. cs c = InLine w \<longrightarrow> w < gt_next d)"

definition line_ok :: "gate \<Rightarrow> nat list \<Rightarrow> bool" where
  "line_ok d ws \<longleftrightarrow> distinct ws \<and> (\<forall>w\<in>set ws. w < gt_next d) \<and> (\<forall>w. w_state (gt_cells d w) = WAITING \<longrightarrow> w \<in> set ws) \<and>
     gt_queued d = length (filter (\<lambda>w. w_state (gt_cells d w) = WAITING) ws)"

text \<open>What an operation never changes.\<close>

definition same_terms :: "gate \<Rightarrow> gate \<Rightarrow> bool" where
  "same_terms d d' \<longleftrightarrow> gt_limit d' = gt_limit d \<and> gt_reserve d' = gt_reserve d \<and> gt_per_call d' = gt_per_call d"

definition gate_inv :: "gate \<Rightarrow> (nat \<Rightarrow> caller) \<Rightarrow> bool" where
  "gate_inv d cs \<longleftrightarrow> conserved d cs \<and> line_ok d (gt_line d) \<and> gt_retired_count d = length (gt_retired d)"

lemma permits_out_same:
  "(\<And>w. w_state (gt_cells d' w) = GRANTED \<longleftrightarrow> w_state (gt_cells d w) = GRANTED) \<Longrightarrow> permits_out d' cs = permits_out d cs"
proof -
  assume "\<And>w. w_state (gt_cells d' w) = GRANTED \<longleftrightarrow> w_state (gt_cells d w) = GRANTED"
  then have "permits_of d' x = permits_of d x" for x by (cases x) simp_all
  then show ?thesis by (simp add: permits_out_def)
qed

text \<open>One caller changes what it has.\<close>

lemma permits_out_upd:
  assumes "finite {c. cs c \<noteq> Away}"
  shows "permits_out d (cs(c := x)) + permits_of d (cs c) = permits_out d cs + permits_of d x"
proof -
  have eq: "permits_out d cs = (\<Sum>c\<in>A. permits_of d (cs c))" if "finite A" "{c. cs c \<noteq> Away} \<subseteq> A" for cs A
    unfolding permits_out_def using that by (intro sum.mono_neutral_left) auto
  let ?A = "insert c {c. cs c \<noteq> Away}"
  have fin: "finite ?A" using assms by simp
  have "permits_out d (cs(c := x)) = (\<Sum>e\<in>?A. permits_of d ((cs(c := x)) e))"
    by (rule eq) (use fin in auto)
  also have "\<dots> = permits_of d x + (\<Sum>e\<in>?A - {c}. permits_of d (cs e))"
    using fin by (subst sum.remove [of _ c]) (auto intro!: sum.cong)
  finally have new: "permits_out d (cs(c := x)) = permits_of d x + (\<Sum>e\<in>?A - {c}. permits_of d (cs e))" .
  have "permits_out d cs = (\<Sum>e\<in>?A. permits_of d (cs e))" by (rule eq) (use fin in auto)
  also have "\<dots> = permits_of d (cs c) + (\<Sum>e\<in>?A - {c}. permits_of d (cs e))"
    using fin by (subst sum.remove [of _ c]) auto
  finally show ?thesis using new by simp
qed

text \<open>Granting a waiting place moves one permit to its owner.\<close>

lemma permits_out_grant:
  assumes "conserved d cs" and "w_state (gt_cells d w) = WAITING"
    and cells: "gt_cells d' = (gt_cells d)(w := (gt_cells d w)\<lparr>w_state := GRANTED\<rparr>)"
  shows "permits_out d' cs = Suc (permits_out d cs)"
proof -
  obtain c where c: "cs c = InLine w" and uniq: "\<And>c'. cs c' = InLine w \<Longrightarrow> c' = c"
    using assms(1,2) unfolding conserved_def by metis
  have fin: "finite {c. cs c \<noteq> Away}" using assms(1) by (simp add: conserved_def)
  have "permits_of d' (cs e) = permits_of d (cs e) + (if e = c then 1 else 0)" for e
    using uniq [of e] c assms(2) by (cases "cs e") (auto simp: cells)
  then have "permits_out d' cs = permits_out d cs + (\<Sum>e | cs e \<noteq> Away. if e = c then 1 else 0)"
    unfolding permits_out_def by (simp add: sum.distrib)
  also have "(\<Sum>e | cs e \<noteq> Away. if e = c then 1 else (0::nat)) = 1" using fin c by simp
  finally show ?thesis by simp
qed

lemma conserved_gone:
  assumes "conserved d cs" and "w_state (gt_cells d w) = WAITING"
  shows "conserved (set_waiter d w GONE) cs"
proof -
  have "permits_out (set_waiter d w GONE) cs = permits_out d cs"
    by (rule permits_out_same) (simp add: set_waiter_def assms(2))
  then show ?thesis using assms(1) by (simp add: conserved_def set_waiter_def)
qed

lemma conserved_grant:
  assumes "conserved d cs" and "w_state (gt_cells d w) = WAITING" and "gt_avail d \<noteq> 0"
  shows "conserved (set_waiter (d\<lparr>gt_avail := gt_avail d - 1\<rparr>) w GRANTED) cs"
proof -
  have "permits_out (set_waiter (d\<lparr>gt_avail := gt_avail d - 1\<rparr>) w GRANTED) cs = Suc (permits_out d cs)"
    by (rule permits_out_grant [OF assms(1,2)]) (simp add: set_waiter_def)
  then show ?thesis using assms by (simp add: conserved_def set_waiter_def)
qed

lemma line_ok_passed: "line_ok d (w # ws) \<Longrightarrow> w_state (gt_cells d w) \<noteq> WAITING \<Longrightarrow> line_ok d ws"
  by (fastforce simp: line_ok_def)

lemma line_ok_front:
  assumes "line_ok d (w # ws)" and "w_state (gt_cells d w) = WAITING" and "st \<noteq> WAITING"
  shows "line_ok (set_waiter d w st) ws"
proof -
  have "filter (\<lambda>v. w_state (gt_cells (set_waiter d w st) v) = WAITING) ws = filter (\<lambda>v. w_state (gt_cells d v) = WAITING) ws"
    using assms(1) by (intro filter_cong) (auto simp: line_ok_def set_waiter_def)
  then show ?thesis using assms by (auto simp: line_ok_def set_waiter_def split: if_splits)
qed

text \<open>A place whose owner leaves stays in line until the front passes it.\<close>

lemma line_ok_left:
  assumes "line_ok d ws" and "w_state (gt_cells d w) = WAITING"
  shows "line_ok (set_waiter d w GONE) ws"
proof -
  have w: "w \<in> set ws" "distinct ws" using assms by (simp_all add: line_ok_def)
  then obtain us vs where ws: "ws = us @ w # vs" "w \<notin> set us" "w \<notin> set vs" by (auto dest!: split_list)
  have "filter (\<lambda>v. w_state (gt_cells (set_waiter d w GONE) v) = WAITING) xs = filter (\<lambda>v. w_state (gt_cells d v) = WAITING) xs"
    if "w \<notin> set xs" for xs using that by (intro filter_cong) (auto simp: set_waiter_def)
  from this [of us] this [of vs] show ?thesis
    using assms ws by (auto simp: line_ok_def set_waiter_def split: if_splits)
qed

text \<open>Only the free permits, the line and the places in it differ.\<close>

definition only_line :: "gate \<Rightarrow> gate \<Rightarrow> bool" where
  "only_line d d' \<longleftrightarrow> same_terms d d' \<and> gt_retired d' = gt_retired d \<and> gt_retired_count d' = gt_retired_count d \<and>
     gt_next d' = gt_next d"

lemma only_line_refl [simp]: "only_line d d"
  and only_line_line [simp]: "only_line d (d\<lparr>gt_line := l\<rparr>)"
  and only_line_set: "only_line (set_waiter d w st) d' \<Longrightarrow> only_line d d'"
  and only_line_avail: "only_line (d\<lparr>gt_avail := n\<rparr>) d' \<Longrightarrow> only_line d d'"
  by (simp_all add: only_line_def same_terms_def set_waiter_def)

lemma conserved_line [simp]: "conserved (d\<lparr>gt_line := l\<rparr>) cs = conserved d cs"
proof -
  have "permits_out (d\<lparr>gt_line := l\<rparr>) cs = permits_out d cs" by (rule permits_out_same) simp
  then show ?thesis by (simp add: conserved_def)
qed

lemma line_ok_line [simp]: "line_ok (d\<lparr>gt_line := l\<rparr>) ws = line_ok d ws"
  and line_ok_avail [simp]: "line_ok (d\<lparr>gt_avail := n\<rparr>) ws = line_ok d ws"
  by (simp_all add: line_ok_def)

lemma hand_loop_ok:
  "conserved d cs \<Longrightarrow> line_ok d ws \<Longrightarrow> hand_loop d now ws = (d', wake) \<Longrightarrow>
    conserved d' cs \<and> line_ok d' (gt_line d') \<and> only_line d d'"
proof (induction d now ws arbitrary: d' wake rule: hand_loop.induct)
  case (2 d now w ws)
  consider (passed) "w_state (gt_cells d w) \<noteq> WAITING"
    | (stale) "w_state (gt_cells d w) = WAITING" "now - w_seen (gt_cells d w) \<ge> STALE"
    | (none) "w_state (gt_cells d w) = WAITING" "\<not> now - w_seen (gt_cells d w) \<ge> STALE" "gt_avail d = 0"
    | (some) "w_state (gt_cells d w) = WAITING" "\<not> now - w_seen (gt_cells d w) \<ge> STALE" "gt_avail d \<noteq> 0"
    by blast
  then show ?case
  proof cases
    case passed
    then show ?thesis using 2(1) [OF passed 2(4) line_ok_passed [OF 2(5) passed]] 2(6) by simp
  next
    case stale
    then have "conserved d' cs \<and> line_ok d' (gt_line d') \<and> only_line (set_waiter d w GONE) d'"
      using 2(2) [OF _ _ conserved_gone [OF 2(4)] line_ok_front [OF 2(5)]] 2(6) by simp
    then show ?thesis using only_line_set by blast
  next
    case none
    then show ?thesis using 2(4-6) by auto
  next
    case some
    let ?d = "set_waiter (d\<lparr>gt_avail := gt_avail d - 1\<rparr>) w GRANTED"
    obtain wk where "hand_loop ?d now ws = (d', wk)" using some 2(6) by (auto split: prod.splits)
    moreover have "line_ok ?d ws" using line_ok_front [of "d\<lparr>gt_avail := gt_avail d - 1\<rparr>" w ws GRANTED] 2(5) some by simp
    ultimately have "conserved d' cs \<and> line_ok d' (gt_line d') \<and> only_line ?d d'"
      using 2(3) [of d' wk] some conserved_grant [OF 2(4)] by simp
    then show ?thesis using only_line_set only_line_avail by blast
  qed
qed auto

lemma hand_out_ok: "gate_inv d cs \<Longrightarrow> gate_inv (hand_out d locked now) cs \<and> only_line d (hand_out d locked now)"
proof -
  assume inv: "gate_inv d cs"
  obtain d' wake where d': "hand_loop d now (gt_line d) = (d', wake)" by (cases "hand_loop d now (gt_line d)")
  then have "conserved d' cs \<and> line_ok d' (gt_line d') \<and> only_line d d'"
    using inv hand_loop_ok [of d cs "gt_line d" now d' wake] by (simp add: gate_inv_def)
  then show ?thesis using inv d' by (auto simp: hand_out_def gate_inv_def only_line_def same_terms_def)
qed

lemma gate_release_ok:
  assumes "gate_inv (d\<lparr>gt_avail := gt_avail d + n\<rparr>) cs"
  shows "gate_inv (gate_release d n locked now) cs \<and> only_line d (gate_release d n locked now)"
  using assms hand_out_ok [OF assms, of locked now] only_line_avail [where d = d and n = "gt_avail d + n"]
  by (cases "n = 0") (simp_all add: gate_release_def)

text \<open>One caller, not waiting, comes to have something else, and the free and retired permits change with it.\<close>

lemma conserved_upd:
  assumes "conserved d cs"
    and "gt_cells d' = gt_cells d" "gt_next d' = gt_next d" "gt_limit d' = gt_limit d"
    and "gt_avail d' + permits_of d x + length (gt_retired d') = gt_avail d + permits_of d (cs c) + length (gt_retired d)"
    and "\<And>w. cs c = InLine w \<Longrightarrow> w_state (gt_cells d w) \<noteq> WAITING" and "\<And>w. x \<noteq> InLine w"
  shows "conserved d' (cs(c := x))"
proof -
  have fin: "finite {c. cs c \<noteq> Away}" using assms(1) by (simp add: conserved_def)
  have "{e. (cs(c := x)) e \<noteq> Away} \<subseteq> insert c {c. cs c \<noteq> Away}" by auto
  then have "finite {e. (cs(c := x)) e \<noteq> Away}" using fin finite_subset by blast
  moreover have "permits_out d' (cs(c := x)) = permits_out d (cs(c := x))" by (rule permits_out_same) (simp add: assms)
  then have "gt_avail d' + permits_out d' (cs(c := x)) + length (gt_retired d') = gt_limit d"
    using permits_out_upd [OF fin, of d c x] assms(1,5) by (simp add: conserved_def)
  moreover have "\<exists>e. (cs(c := x)) e = InLine w" if "w_state (gt_cells d w) = WAITING" for w
  proof -
    obtain e where e: "cs e = InLine w" using assms(1) \<open>w_state (gt_cells d w) = WAITING\<close> by (auto simp: conserved_def)
    then have "e \<noteq> c" using assms(6) [of w] \<open>w_state (gt_cells d w) = WAITING\<close> by auto
    then show ?thesis using e by (intro exI [of _ e]) simp
  qed
  ultimately show ?thesis using assms(1-4,7) unfolding conserved_def by simp
qed

lemma conserved_join:
  assumes "conserved d cs" and "join_line d now = (d', me)"
    and "\<And>w. cs c = InLine w \<Longrightarrow> w_state (gt_cells d w) = GONE" and "\<And>n. cs c \<noteq> Holds n"
  shows "conserved d' (cs(c := InLine me))"
proof -
  have me: "me = gt_next d" and cells: "gt_cells d' = (gt_cells d)(me := \<lparr>w_state = WAITING, w_asleep = False, w_seen = now\<rparr>)"
    and rest: "gt_avail d' = gt_avail d" "gt_retired d' = gt_retired d" "gt_limit d' = gt_limit d" "gt_next d' = Suc me"
    using assms(2) by (auto simp: join_line_def Let_def)
  have below: "cs e = InLine w \<Longrightarrow> w < gt_next d" for e w using assms(1) by (simp add: conserved_def)
  then have new: "cs e \<noteq> InLine me" for e using me by blast
  have fin: "finite {c. cs c \<noteq> Away}" using assms(1) by (simp add: conserved_def)
  have zero: "permits_of d (cs c) = 0" using assms(3,4) by (cases "cs c") auto
  have away: "permits_out d (cs(c := Away)) = permits_out d cs" using permits_out_upd [OF fin, of d c Away] zero by simp
  have "permits_of d' (cs e) = permits_of d (cs e)" for e using new [of e] by (cases "cs e") (auto simp: cells)
  then have same: "permits_out d' cs = permits_out d cs" by (simp add: permits_out_def)
  have zero': "permits_of d' (cs c) = 0" "permits_of d' (InLine me) = 0"
    using zero new [of c] by (cases "cs c"; simp add: cells)+
  have "permits_out d' (cs(c := InLine me)) = permits_out d cs"
    using permits_out_upd [OF fin, of d' c "InLine me"] same zero' by simp
  moreover have "{e. (cs(c := InLine me)) e \<noteq> Away} \<subseteq> insert c {c. cs c \<noteq> Away}" by auto
  then have "finite {e. (cs(c := InLine me)) e \<noteq> Away}" using fin finite_subset by blast
  moreover have "\<exists>e. (cs(c := InLine me)) e = InLine w" if w: "w_state (gt_cells d' w) = WAITING" for w
  proof (cases "w = me")
    case False
    then have w': "w_state (gt_cells d w) = WAITING" using w by (simp add: cells)
    then obtain e where e: "cs e = InLine w" using assms(1) by (auto simp: conserved_def)
    then have "e \<noteq> c" using assms(3) [of w] w' by auto
    then show ?thesis using e by (intro exI [of _ e]) simp
  qed auto
  moreover have "w < gt_next d'" if "(cs(c := InLine me)) e = InLine w" for e w
    using below [of e w] me rest(4) \<open>(cs(c := InLine me)) e = InLine w\<close> by (cases "e = c") simp_all
  moreover have "e = e'" if e: "(cs(c := InLine me)) e = InLine w" "(cs(c := InLine me)) e' = InLine w" for e e' w
  proof -
    have "cs e = InLine w \<Longrightarrow> cs e' = InLine w \<Longrightarrow> e = e'" using assms(1) by (simp add: conserved_def)
    then show ?thesis using e new [of e] new [of e'] by (cases "e = c"; cases "e' = c") auto
  qed
  ultimately show ?thesis using assms(1) rest unfolding conserved_def by metis
qed

lemma line_ok_join:
  assumes "line_ok d (gt_line d)" and "join_line d now = (d', me)"
  shows "line_ok d' (gt_line d')"
proof -
  have lt: "\<And>w. w \<in> set (gt_line d) \<Longrightarrow> w < gt_next d" and "distinct (gt_line d)"
    and wait: "\<And>w. w_state (gt_cells d w) = WAITING \<Longrightarrow> w \<in> set (gt_line d)"
    and q: "gt_queued d = length (filter (\<lambda>w. w_state (gt_cells d w) = WAITING) (gt_line d))"
    using assms(1) by (auto simp: line_ok_def)
  moreover have "filter (\<lambda>w. w_state (gt_cells d' w) = WAITING) (gt_line d) = filter (\<lambda>w. w_state (gt_cells d w) = WAITING) (gt_line d)"
    using lt assms(2) by (intro filter_cong refl) (fastforce simp: join_line_def Let_def)
  moreover have "gt_next d \<notin> set (gt_line d)" using lt by blast
  moreover have "w < Suc (gt_next d)" if "w \<in> set (gt_line d)" for w using lt [OF \<open>w \<in> set (gt_line d)\<close>] by simp
  ultimately show ?thesis using assms(2) unfolding line_ok_def by (auto simp: join_line_def Let_def split: if_splits)
qed

text \<open>What a place in line records besides its state is free to change.\<close>

lemma gate_inv_states:
  assumes "gate_inv d cs" and "\<And>w. w_state (f w) = w_state (gt_cells d w)"
  shows "gate_inv (d\<lparr>gt_cells := f\<rparr>) cs"
proof -
  have "permits_out (d\<lparr>gt_cells := f\<rparr>) cs = permits_out d cs" by (rule permits_out_same) (simp add: assms(2))
  then show ?thesis using assms by (simp add: gate_inv_def conserved_def line_ok_def)
qed

lemma reclaim_ok:
  assumes inv: "gate_inv d cs" and r: "reclaim d m g got locked now = (d', n)"
  shows "gate_inv d' cs \<and> same_terms d d' \<and> gt_next d' = gt_next d"
proof (cases "gt_retired_count d = 0 \<or> \<not> got")
  case False
  define r where "r = filter (\<lambda>slot. slot_state m g slot = Some ST_ABANDONED) (gt_retired d)"
  let ?d = "d\<lparr>gt_retired := r, gt_retired_count := length r\<rparr>"
  let ?n = "length (gt_retired d) - length r"
  have len: "length r \<le> length (gt_retired d)" by (simp add: r_def)
  have "permits_out (?d\<lparr>gt_avail := gt_avail ?d + ?n\<rparr>) cs = permits_out d cs" by (rule permits_out_same) simp
  then have "gate_inv (?d\<lparr>gt_avail := gt_avail ?d + ?n\<rparr>) cs"
    using inv len by (simp add: gate_inv_def conserved_def line_ok_def)
  note rel = gate_release_ok [OF this, of locked now]
  have "d' = gate_release ?d ?n locked now" using False r by (auto simp: reclaim_def Let_def r_def)
  then show ?thesis using rel by (simp add: only_line_def same_terms_def)
qed (use assms in \<open>auto simp: reclaim_def same_terms_def split: if_splits\<close>)

lemma gate_take_ok:
  assumes inv: "gate_inv d cs" and t: "gate_take d want = (d', n)" and c: "cs c = Away"
  shows "gate_inv d' (cs(c := Holds n)) \<and> gate_inv d' (cs(c := if n = 0 then Away else Holds n)) \<and> same_terms d d' \<and> n \<le> max want 1"
proof -
  have d': "d' = d\<lparr>gt_avail := gt_avail d - n\<rparr>" and n: "n \<le> gt_avail d" "n \<le> max want 1"
    using t by (auto simp: gate_take_def Let_def split: if_splits)
  have "conserved d' (cs(c := x))" if "permits_of d x = n" "\<And>w. x \<noteq> InLine w" for x
    by (rule conserved_upd [of d]) (use inv c d' n that in \<open>auto simp: gate_inv_def\<close>)
  from this [of "Holds n"] this [of "if n = 0 then Away else Holds n"]
  show ?thesis using inv d' n by (auto simp: gate_inv_def line_ok_def same_terms_def)
qed

lemma clamp_want_le: "1 \<le> gt_per_call d \<Longrightarrow> max (clamp_want d want) 1 \<le> gt_per_call d"
  by (simp add: clamp_want_def)

lemma acquire_now_ok:
  assumes inv: "gate_inv d cs" and a: "acquire_now d want m g got locked now = (d', n)" and c: "cs c = Away" and "1 \<le> gt_per_call d"
  shows "gate_inv d' (cs(c := if n = 0 then Away else Holds n)) \<and> same_terms d d' \<and> n \<le> gt_per_call d"
proof -
  let ?w = "clamp_want d want"
  have unchanged: ?thesis if "d' = d" "n = 0"
    using that inv c by (simp add: same_terms_def fun_upd_idem)
  obtain d1 n1 where t1: "gate_take d ?w = (d1, n1)" by (cases "gate_take d ?w")
  obtain d2 n2 where r: "reclaim d1 m g got locked now = (d2, n2)" by (cases "reclaim d1 m g got locked now")
  obtain d3 n3 where t3: "gate_take d2 ?w = (d3, n3)" by (cases "gate_take d2 ?w")
  note k1 = gate_take_ok [where c = c, OF inv t1 c]
  consider "gt_queued d \<noteq> 0" | "gt_queued d = 0" "n1 > 0" | "gt_queued d = 0" "n1 = 0" "n2 = 0" | "gt_queued d = 0" "n1 = 0" "n2 > 0"
    by auto
  then show ?thesis
  proof cases
    case 1
    then show ?thesis using a unchanged by (simp add: acquire_now_def)
  next
    case 2
    then show ?thesis using a t1 k1 clamp_want_le [OF assms(4), of want] by (auto simp: acquire_now_def)
  next
    case 3
    then have "gate_inv d1 cs" using k1 c by (simp add: fun_upd_idem)
    then have "gate_inv d2 cs \<and> same_terms d1 d2" using reclaim_ok [OF _ r] by blast
    then show ?thesis using 3 a t1 r k1 c by (simp add: acquire_now_def fun_upd_idem same_terms_def)
  next
    case 4
    then have "gate_inv d1 cs" using k1 c by (simp add: fun_upd_idem)
    then have "gate_inv d2 cs \<and> same_terms d1 d2" using reclaim_ok [OF _ r] by blast
    then show ?thesis using 4 a t1 r t3 k1 c gate_take_ok [of d2 cs ?w d3 n3 c] clamp_want_le [OF assms(4), of want]
      by (auto simp: acquire_now_def same_terms_def)
  qed
qed

lemma get_in_line_ok:
  assumes inv: "gate_inv d cs" and g: "get_in_line d locked now = (d', me)"
    and "\<And>w. cs c = InLine w \<Longrightarrow> w_state (gt_cells d w) = GONE" and "\<And>n. cs c \<noteq> Holds n"
  shows "gate_inv d' (cs(c := InLine me)) \<and> same_terms d d'"
proof -
  obtain d1 where j: "join_line d now = (d1, me)" and d': "d' = hand_out d1 locked now"
    using g by (auto simp: get_in_line_def split: prod.splits)
  have "gt_retired_count d1 = length (gt_retired d1)" and "same_terms d d1"
    using inv j by (auto simp: join_line_def Let_def gate_inv_def same_terms_def)
  moreover have "conserved d1 (cs(c := InLine me))" by (rule conserved_join [OF _ j]) (use inv assms(3,4) in \<open>auto simp: gate_inv_def\<close>)
  moreover have "line_ok d1 (gt_line d1)" using line_ok_join [OF _ j] inv by (simp add: gate_inv_def)
  ultimately have "gate_inv d1 (cs(c := InLine me))" "same_terms d d1" by (simp_all add: gate_inv_def)
  then show ?thesis using hand_out_ok [of d1 "cs(c := InLine me)" locked now] d' by (auto simp: only_line_def same_terms_def)
qed

lemma turn_ok:
  assumes inv: "gate_inv d cs" and c: "cs c = InLine me"
    and t: "wait_turn_in_line d me rejoined late watching m g got locked now = (d', r)"
  shows "gate_inv d' (cs(c := case r of Served \<Rightarrow> Holds 1 | Unserved \<Rightarrow> Away | Again me' \<Rightarrow> InLine me')) \<and> same_terms d d'"
proof (cases "w_state (gt_cells d me)")
  case GRANTED
  then have "d' = d" "r = Served" using t by (simp_all add: wait_turn_in_line_def)
  moreover have "conserved d (cs(c := Holds 1))"
    by (rule conserved_upd [of d]) (use inv c GRANTED in \<open>auto simp: gate_inv_def\<close>)
  ultimately show ?thesis using inv by (simp add: gate_inv_def same_terms_def)
next
  case GONE
  show ?thesis
  proof (cases rejoined)
    case True
    then obtain me' where g: "get_in_line d locked now = (d', me')" and "r = Again me'"
      using GONE t by (auto simp: wait_turn_in_line_def split: prod.splits)
    then show ?thesis using get_in_line_ok [where c = c, OF inv g] GONE c by simp
  next
    case False
    then have "d' = d" "r = Unserved" using GONE t by (simp_all add: wait_turn_in_line_def)
    moreover have "conserved d (cs(c := Away))"
      by (rule conserved_upd [of d]) (use inv c GONE in \<open>auto simp: gate_inv_def\<close>)
    ultimately show ?thesis using inv by (simp add: gate_inv_def same_terms_def)
  qed
next
  case WAITING
  let ?d = "d\<lparr>gt_cells := (gt_cells d)(me := (gt_cells d me)\<lparr>w_seen := now\<rparr>)\<rparr>"
  have seen: "gate_inv ?d cs" by (rule gate_inv_states [OF inv]) simp
  obtain d1 n where rc: "reclaim ?d m g got locked now = (d1, n)" by (cases "reclaim ?d m g got locked now")
  note k1 = reclaim_ok [OF seen rc]
  let ?d2 = "hand_out d1 locked now"
  have k2: "gate_inv ?d2 cs \<and> only_line d1 ?d2" using hand_out_ok k1 by blast
  let ?d3 = "?d2\<lparr>gt_cells := (gt_cells ?d2)(me := (gt_cells ?d2 me)\<lparr>w_asleep := True\<rparr>)\<rparr>"
  have k3: "gate_inv ?d3 cs" by (rule gate_inv_states) (use k2 in auto)
  consider "late" | "\<not> late" "watching" | "\<not> late" "\<not> watching" by blast
  then show ?thesis
  proof cases
    case 1
    have "conserved (set_waiter d me GONE) (cs(c := Away))"
      by (rule conserved_upd [of "set_waiter d me GONE"])
        (use inv c WAITING conserved_gone in \<open>auto simp: gate_inv_def set_waiter_def\<close>)
    moreover have "line_ok (set_waiter d me GONE) (gt_line d)" using inv WAITING line_ok_left by (simp add: gate_inv_def)
    ultimately show ?thesis using 1 inv t WAITING by (auto simp: wait_turn_in_line_def gate_inv_def set_waiter_def same_terms_def)
  next
    case 2
    then show ?thesis using t WAITING seen c by (auto simp: wait_turn_in_line_def Let_def same_terms_def fun_upd_idem)
  next
    case 3
    then have "d' = ?d3" "r = Again me" using t WAITING rc by (simp_all add: wait_turn_in_line_def Let_def)
    then show ?thesis using k1 k2 k3 c by (simp add: fun_upd_idem only_line_def same_terms_def)
  qed
qed

lemma gate_retire_ok:
  assumes inv: "gate_inv d cs" and c: "cs c = Holds (Suc n)" and r: "gate_retire d slot recorded locked now = (d', ok)"
  shows "gate_inv d' (cs(c := Holds (if ok then n else Suc n))) \<and> same_terms d d'"
proof -
  let ?cs = "cs(c := Holds n)"
  consider "\<not> recorded" | "recorded" "slot \<in> set (gt_retired d)" | "recorded" "slot \<notin> set (gt_retired d)" by blast
  then show ?thesis
  proof cases
    case 1
    then show ?thesis using inv c r by (simp add: gate_retire_def same_terms_def fun_upd_idem)
  next
    case 2
    have "conserved (d\<lparr>gt_avail := gt_avail d + 1\<rparr>) ?cs"
      by (rule conserved_upd [of d]) (use inv c in \<open>auto simp: gate_inv_def\<close>)
    then have "gate_inv (d\<lparr>gt_avail := gt_avail d + 1\<rparr>) ?cs" using inv by (simp add: gate_inv_def)
    then show ?thesis using gate_release_ok [of d 1 ?cs locked now] 2 r by (auto simp: gate_retire_def only_line_def)
  next
    case 3
    let ?r = "gt_retired d @ [slot]"
    have "conserved (d\<lparr>gt_retired := ?r, gt_retired_count := length ?r\<rparr>) ?cs"
      by (rule conserved_upd [of d]) (use inv c in \<open>auto simp: gate_inv_def\<close>)
    then show ?thesis using inv 3 r by (auto simp: gate_retire_def gate_inv_def line_ok_def same_terms_def)
  qed
qed

lemma permits_retire_ok:
  "gate_inv d cs \<Longrightarrow> cs c = Holds n \<Longrightarrow> permits_retire d n slots recorded locked now = (d', n') \<Longrightarrow>
    gate_inv d' (cs(c := Holds n')) \<and> same_terms d d' \<and> n' \<le> n"
proof (induction slots arbitrary: d cs n)
  case Nil
  then show ?case by (simp add: same_terms_def fun_upd_idem)
next
  case (Cons slot slots)
  show ?case
  proof (cases n)
    case 0
    then show ?thesis using Cons.prems by (simp add: same_terms_def fun_upd_idem)
  next
    case (Suc k)
    obtain d1 ok where r: "gate_retire d slot recorded locked now = (d1, ok)" by (cases "gate_retire d slot recorded locked now")
    let ?k = "if ok then k else Suc k"
    have one: "gate_inv d1 (cs(c := Holds ?k)) \<and> same_terms d d1"
      using gate_retire_ok [where c = c and n = k, OF Cons.prems(1) _ r] Cons.prems(2) Suc by blast
    have "permits_retire d1 ?k slots recorded locked now = (d', n')" using Cons.prems(3) Suc r by (cases ok) simp_all
    from Cons.IH [OF conjunct1 [OF one] fun_upd_same this]
    have "gate_inv d' (cs(c := Holds n'))" "same_terms d1 d'" "n' \<le> ?k" by (simp_all only: fun_upd_upd)
    then show ?thesis using one Suc by (auto simp: same_terms_def fun_upd_def split: if_splits)
  qed
qed

lemma permits_drop_ok:
  assumes inv: "gate_inv d cs" and c: "cs c = Holds n"
  shows "gate_inv (permits_drop d n locked now) (cs(c := Away)) \<and> same_terms d (permits_drop d n locked now)"
proof -
  have "conserved (d\<lparr>gt_avail := gt_avail d + n\<rparr>) (cs(c := Away))"
    by (rule conserved_upd [of d]) (use inv c in \<open>auto simp: gate_inv_def\<close>)
  then have "gate_inv (d\<lparr>gt_avail := gt_avail d + n\<rparr>) (cs(c := Away))" using inv by (simp add: gate_inv_def)
  then show ?thesis using gate_release_ok by (auto simp: permits_drop_def only_line_def)
qed

section \<open>The reachable states\<close>

definition gate_sys_inv :: "nat \<Rightarrow> gate_sys \<Rightarrow> bool" where
  "gate_sys_inv limit x \<longleftrightarrow> gate_inv (the_gate x) (callers x) \<and> same_terms (gate_new limit) (the_gate x) \<and>
     (\<forall>c n. callers x c = Holds n \<longrightarrow> n \<le> gt_per_call (the_gate x))"

lemma gate_sys_invI:
  assumes "gate_sys_inv limit x" and "gate_inv d ((callers x)(c := y)) \<and> same_terms (the_gate x) d"
    and "\<And>n. y = Holds n \<Longrightarrow> n \<le> gt_per_call (the_gate x)"
  shows "gate_sys_inv limit (x\<lparr>the_gate := d, callers := (callers x)(c := y)\<rparr>)"
  using assms by (auto simp: gate_sys_inv_def same_terms_def)

lemma gate_new_per_call: "1 \<le> gt_per_call (gate_new limit)"
  by (simp add: gate_new_def Let_def)

lemma gate_sys_inv_step:
  assumes "gate_step x y" and inv: "gate_sys_inv limit x"
  shows "gate_sys_inv limit y"
proof -
  have g: "gate_inv (the_gate x) (callers x)" and one: "1 \<le> gt_per_call (the_gate x)"
    and held: "\<And>c n. callers x c = Holds n \<Longrightarrow> n \<le> gt_per_call (the_gate x)"
    using inv gate_new_per_call [of limit] by (auto simp: gate_sys_inv_def same_terms_def)
  from assms(1) show ?thesis
  proof cases
    case (ask c want m g got locked now d n)
    show ?thesis unfolding ask(1)
      by (rule gate_sys_invI [OF inv]) (use acquire_now_ok [OF g ask(3,2) one] in \<open>auto split: if_splits\<close>)
  next
    case (queue c locked now d me)
    show ?thesis unfolding queue(1)
      by (rule gate_sys_invI [OF inv]) (use get_in_line_ok [where c = c, OF g queue(3)] queue(2) in auto)
  next
    case (turn c me rejoined late watching m g got locked now d r)
    show ?thesis unfolding turn(1)
      by (rule gate_sys_invI [OF inv turn_ok [OF g turn(2,3)]]) (use one in \<open>auto split: wait_outcome.splits\<close>)
  next
    case (keep_out c n slots recorded locked now d n')
    show ?thesis unfolding keep_out(1)
      by (rule gate_sys_invI [OF inv]) (use permits_retire_ok [OF g keep_out(2,3)] held [OF keep_out(2)] in auto)
  next
    case (give_back c n locked now)
    show ?thesis unfolding give_back(1)
      by (rule gate_sys_invI [OF inv permits_drop_ok [OF g give_back(2)]]) simp
  next
    case (look_again m g got locked now d n)
    then show ?thesis using reclaim_ok [OF g look_again(2)] inv by (auto simp: gate_sys_inv_def same_terms_def)
  qed
qed

lemma gate_reach_inv: "gate_reach limit x \<Longrightarrow> gate_sys_inv limit x"
proof (induction rule: gate_reach.induct)
  case gate_start
  show ?case
    by (simp add: gate_sys_inv_def gate_inv_def conserved_def line_ok_def same_terms_def gate_new_def Let_def permits_out_def)
next
  case (gate_next x y)
  then show ?case using gate_sys_inv_step by blast
qed

section \<open>What the gate promises\<close>

lemma data_limit_unat:
  assumes "2 \<le> workers" and "2 \<le> slots"
  shows "1 \<le> unat (data_limit workers slots)" and "unat (data_limit workers slots) < min (unat workers) (unat slots)"
proof -
  define w where "w = min workers slots"
  have w: "2 \<le> w" and min: "min (unat workers) (unat slots) = unat w"
    using assms by (simp_all add: w_def min_def word_le_nat_alt)
  have two: "2 \<le> unat w" using w by (simp add: word_le_nat_alt)
  have "workers \<noteq> 0" "max slots 1 = slots" using assms by (auto simp: word_le_nat_alt max_def)
  then have eq: "data_limit workers slots = max (if w \<ge> max (w div 4) 1 then w - max (w div 4) 1 else 0) 1"
    by (simp add: data_limit_def w_def Let_def)
  have r: "unat (max (w div 4) 1) = max (unat w div 4) 1" by (simp add: max_def word_le_nat_alt unat_div)
  have le: "max (w div 4) 1 \<le> w" using two r by (simp add: word_le_nat_alt)
  then have sub: "unat (w - max (w div 4) 1) = unat w - max (unat w div 4) 1" by (simp add: unat_sub r)
  then have "unat (data_limit workers slots) = max (unat w - max (unat w div 4) 1) 1"
    using le by (simp add: eq max_def word_le_nat_alt)
  then show "1 \<le> unat (data_limit workers slots)" and "unat (data_limit workers slots) < min (unat workers) (unat slots)"
    using two min by auto
qed


definition demo_asked :: gate_sys where
  "demo_asked = \<lparr>the_gate = gate_new 8\<lparr>gt_avail := 5\<rparr>, callers = (\<lambda>_. Away)(7 := Holds 3)\<rparr>"

lemma demo_asked_reach: "gate_reach 8 demo_asked"
proof -
  have "acquire_now (gate_new 8) 3 [] demo_geom False False 0 = ((gate_new 8)\<lparr>gt_avail := 5\<rparr>, 3)"
    by (simp add: acquire_now_def gate_take_def clamp_want_def gate_new_def Let_def)
  then have "gate_step \<lparr>the_gate = gate_new 8, callers = \<lambda>_. Away\<rparr> demo_asked"
    using gate_step.ask [of "\<lparr>the_gate = gate_new 8, callers = \<lambda>_. Away\<rparr>" 7 3 "[]" demo_geom False False 0]
    by (simp add: demo_asked_def)
  then show ?thesis by (rule gate_next [OF gate_start])
qed




definition live_line :: "gate \<Rightarrow> nat \<Rightarrow> nat list \<Rightarrow> nat list" where
  "live_line d now ws = filter (\<lambda>w. w_state (gt_cells d w) = WAITING \<and> now - w_seen (gt_cells d w) < STALE) ws"

lemma live_line_set:
  "w \<notin> set ws \<Longrightarrow> live_line (set_waiter d w st) now ws = live_line d now ws"
  unfolding live_line_def by (intro filter_cong) (auto simp: set_waiter_def)

lemma live_line_avail [simp]: "live_line (d\<lparr>gt_avail := n\<rparr>) now ws = live_line d now ws"
  by (simp add: live_line_def)

definition handed_out :: "gate \<Rightarrow> gate \<Rightarrow> nat list \<Rightarrow> bool" where
  "handed_out d d' live \<longleftrightarrow> gt_avail d' = gt_avail d - length live \<and>
    (\<forall>w. w_state (gt_cells d' w) = GRANTED \<longleftrightarrow> w_state (gt_cells d w) = GRANTED \<or> w \<in> set (take (gt_avail d) live)) \<and>
    (\<forall>w\<in>set (drop (gt_avail d) live). w_state (gt_cells d' w) = WAITING)"

lemma handed_out_stale:
  "handed_out (set_waiter d w GONE) d' live \<Longrightarrow> w_state (gt_cells d w) = WAITING \<Longrightarrow> handed_out d d' live"
  by (simp add: handed_out_def set_waiter_def)

lemma handed_out_grant:
  assumes "handed_out (set_waiter (d\<lparr>gt_avail := gt_avail d - 1\<rparr>) w GRANTED) d' live" and "gt_avail d \<noteq> 0"
  shows "handed_out d d' (w # live)"
proof -
  obtain n where n: "gt_avail d = Suc n" using assms(2) by (cases "gt_avail d") simp_all
  have "w_state (gt_cells d' v) = GRANTED \<longleftrightarrow> v = w \<or> w_state (gt_cells d v) = GRANTED \<or> v \<in> set (take n live)" for v
    using assms(1) n by (simp add: handed_out_def set_waiter_def)
  then show ?thesis using assms(1) n by (auto simp: handed_out_def set_waiter_def)
qed

lemma hand_loop_order: "distinct ws \<Longrightarrow> handed_out d (fst (hand_loop d now ws)) (live_line d now ws)"
proof (induction d now ws rule: hand_loop.induct)
  case (1 d now)
  then show ?case by (simp add: live_line_def handed_out_def)
next
  case (2 d now w ws)
  have w: "w \<notin> set ws" "distinct ws" using 2(4) by auto
  consider (passed) "w_state (gt_cells d w) \<noteq> WAITING"
    | (stale) "w_state (gt_cells d w) = WAITING" "now - w_seen (gt_cells d w) \<ge> STALE"
    | (none) "w_state (gt_cells d w) = WAITING" "\<not> now - w_seen (gt_cells d w) \<ge> STALE" "gt_avail d = 0"
    | (some) "w_state (gt_cells d w) = WAITING" "\<not> now - w_seen (gt_cells d w) \<ge> STALE" "gt_avail d \<noteq> 0"
    by blast
  then show ?case
  proof cases
    case passed
    then have "live_line d now (w # ws) = live_line d now ws" by (simp add: live_line_def)
    then show ?thesis using 2(1) [OF passed w(2)] passed by simp
  next
    case stale
    then have "live_line d now (w # ws) = live_line d now ws" by (simp add: live_line_def)
    moreover have "handed_out (set_waiter d w GONE) (fst (hand_loop (set_waiter d w GONE) now ws)) (live_line d now ws)"
      using 2(2) stale w live_line_set [OF w(1)] by simp
    ultimately show ?thesis using handed_out_stale stale by simp
  next
    case none
    then show ?thesis by (auto simp: live_line_def handed_out_def)
  next
    case some
    let ?d = "set_waiter (d\<lparr>gt_avail := gt_avail d - 1\<rparr>) w GRANTED"
    have "handed_out ?d (fst (hand_loop ?d now ws)) (live_line d now ws)"
      using 2(3) [OF _ _ _ w(2)] some live_line_set [OF w(1)] by simp
    from handed_out_grant [OF this some(3)] show ?thesis using some by (simp add: live_line_def case_prod_unfold Let_def)
  qed
qed

lemma line_empty_live: "line_ok d (gt_line d) \<Longrightarrow> gt_queued d = 0 \<Longrightarrow> live_line d now (gt_line d) = []"
  by (auto simp: line_ok_def live_line_def filter_empty_conv)


definition demo_line :: gate_sys where
  "demo_line = \<lparr>the_gate = fst (get_in_line (gate_new 1) False 0), callers = (\<lambda>_. Away)(3 := InLine 0)\<rparr>"

lemma demo_line_reach: "gate_reach 1 demo_line"
proof -
  have "get_in_line (gate_new 1) False 0 = (the_gate demo_line, 0)"
    by (simp add: demo_line_def get_in_line_def join_line_def gate_new_def Let_def)
  then have "gate_step \<lparr>the_gate = gate_new 1, callers = \<lambda>_. Away\<rparr> demo_line"
    using gate_step.queue [of "\<lparr>the_gate = gate_new 1, callers = \<lambda>_. Away\<rparr>" 3 False 0 "the_gate demo_line" 0]
    by (simp add: demo_line_def)
  then show ?thesis by (rule gate_next [OF gate_start])
qed


end
