(* ===== verification/Memory.thy ===== *)
theory Memory
  imports Director "HOL-Library.AList"
begin

unbundle bit_operations_syntax

text \<open>
  The in-memory provider (\<^verbatim>\<open>vfs-compose/src/memory.rs\<close>): a file tree kept as a map from paths to bytes, a set of
  directories made by \<^verbatim>\<open>mkdir\<close>, and an index from folded paths to stored ones. The hash maps are association lists
  with one entry per key; the order of a list is the iteration order, which the source leaves open. Every method
  holds the locks it needs for all it does, so it is one step. \<^verbatim>\<open>usize\<close> is 64 bits wide, and a file's end stays
  below that width.
\<close>

section \<open>Paths in the tree\<close>

type_synonym mem_files = "(rstr \<times> bytes) list"

definition mem_child_prefix :: "rstr \<Rightarrow> rstr" where
  "mem_child_prefix path = (if path = [] then [] else path @ [slash])"

definition direct_child :: "rstr \<Rightarrow> rstr \<Rightarrow> rstr \<Rightarrow> (rstr \<times> bool) option" where
  "direct_child path pre key =
     (case (if path = [] then Some key else strip_pre pre key) of
        None \<Rightarrow> None
      | Some rel \<Rightarrow>
          (let name = hd (split_on ((=) slash) rel) in
           if name \<noteq> [] then Some (name, length name = length rel) else None))"

definition dir_stat :: stat where
  "dir_stat = \<lparr>st_kind = KIND_DIR, st_size = 0, st_mtime = 0\<rparr>"

definition file_stat :: "bytes \<Rightarrow> stat" where
  "file_stat b = \<lparr>st_kind = KIND_FILE, st_size = word_of_nat (length b), st_mtime = 0\<rparr>"

definition stat_of :: "mem_files \<Rightarrow> rstr list \<Rightarrow> rstr \<Rightarrow> stat option" where
  "stat_of files dirs path =
     (if path = [] then Some dir_stat
      else
        (case map_of files path of
           Some b \<Rightarrow> Some (file_stat b)
         | None \<Rightarrow>
             if path \<in> set dirs then Some dir_stat
             else
               (let pre = path @ [slash] in
                if list_ex (prefix pre) (map fst files) \<or> list_ex (prefix pre) dirs then Some dir_stat else None)))"

text \<open>The smallest stored name under \<open>pre\<close> that folds to \<open>folded\<close>.\<close>

fun best_name :: "rstr \<Rightarrow> rstr \<Rightarrow> rstr option \<Rightarrow> rstr list \<Rightarrow> rstr option" where
  "best_name pre folded best [] = best"
| "best_name pre folded best (k # ks) =
     (case strip_pre pre k of
        None \<Rightarrow> best_name pre folded best ks
      | Some rest \<Rightarrow>
          (let name = hd (split_on ((=) slash) rest) in
           if name = [] \<or> cfold name \<noteq> folded then best_name pre folded best ks
           else best_name pre folded (case best of Some prev \<Rightarrow> if prev \<le> name then Some prev else Some name | None \<Rightarrow> Some name) ks))"

fun canon_loop :: "mem_files \<Rightarrow> rstr list \<Rightarrow> rstr \<Rightarrow> rstr list \<Rightarrow> rstr" where
  "canon_loop files dirs cur [] = cur"
| "canon_loop files dirs cur (part # parts) =
     (let pre = mem_child_prefix cur; exact = pre @ part in
      if stat_of files dirs exact \<noteq> None then canon_loop files dirs exact parts
      else
        (case best_name pre (cfold part) None (map fst files @ dirs) of
           Some name \<Rightarrow> canon_loop files dirs (pre @ name) parts
         | None \<Rightarrow> exact @ concat (map (\<lambda>rest. slash # rest) parts)))"

definition canonical_in :: "mem_files \<Rightarrow> rstr list \<Rightarrow> (rstr \<times> rstr) list \<Rightarrow> rstr \<Rightarrow> rstr" where
  "canonical_in files dirs by_fold path =
     (if path = [] then []
      else if map_of files path \<noteq> None \<or> path \<in> set dirs then path
      else
        (case map_of by_fold (cfold path) of
           Some hit \<Rightarrow> hit
         | None \<Rightarrow> canon_loop files dirs [] (filter (\<lambda>p. p \<noteq> []) (split_on ((=) slash) path))))"

definition index_insert :: "(rstr \<times> rstr) list \<Rightarrow> rstr \<Rightarrow> (rstr \<times> rstr) list" where
  "index_insert by_fold key = AList.update (cfold key) key by_fold"

definition index_remove :: "(rstr \<times> rstr) list \<Rightarrow> rstr \<Rightarrow> (rstr \<times> rstr) list" where
  "index_remove by_fold key = AList.delete (cfold key) by_fold"

definition reindex :: "(rstr \<times> rstr) list \<Rightarrow> rstr \<Rightarrow> rstr \<Rightarrow> (rstr \<times> rstr) list" where
  "reindex by_fold old new = AList.update (cfold new) new (AList.delete (cfold old) by_fold)"

section \<open>State\<close>

record memory =
  mem_files :: mem_files
  mem_dirs :: "rstr list"
  mem_opens :: "rstr handle_table"
  mem_by_fold :: "(rstr \<times> rstr) list"

fun from_files :: "(rstr \<times> bytes) list \<Rightarrow> mem_files \<Rightarrow> (rstr \<times> rstr) list \<Rightarrow> memory" where
  "from_files [] files by_fold = \<lparr>mem_files = files, mem_dirs = [], mem_opens = ht_new, mem_by_fold = by_fold\<rparr>"
| "from_files ((p, b) # es) files by_fold =
     (let key = trim_rel p in from_files es (AList.update key b files) (AList.update (cfold key) key by_fold))"

definition memory_from_files :: "(rstr \<times> bytes) list \<Rightarrow> memory" where
  "memory_from_files es = from_files es [] []"

definition resolve_in :: "memory \<Rightarrow> rstr \<Rightarrow> rstr" where
  "resolve_in m rel = canonical_in (mem_files m) (mem_dirs m) (mem_by_fold m) (trim_rel rel)"

section \<open>Methods\<close>

definition mem_caps :: capabilities where
  "mem_caps = \<lparr>cap_access = ReadWrite, cap_immutable = False, cap_slow = False, cap_preferred_block = None, cap_case = Insensitive\<rparr>"

definition mem_getattr :: "v_path \<Rightarrow> (memory, stat option) act" where
  "mem_getattr p m = (m, Inr (stat_of (mem_files m) (mem_dirs m) (resolve_in m (vp_rel p))))"

text \<open>\<^verbatim>\<open>entry(name).or_insert(stat)\<close>.\<close>

definition or_insert :: "(rstr \<times> stat) list \<Rightarrow> rstr \<Rightarrow> stat \<Rightarrow> (rstr \<times> stat) list" where
  "or_insert names n st = (if map_of names n = None then names @ [(n, st)] else names)"

fun list_files :: "rstr \<Rightarrow> (rstr \<times> stat) list \<Rightarrow> mem_files \<Rightarrow> (rstr \<times> stat) list" where
  "list_files path names [] = names"
| "list_files path names ((k, b) # ks) =
     (case direct_child path (mem_child_prefix path) k of
        None \<Rightarrow> list_files path names ks
      | Some (n, is_leaf) \<Rightarrow> list_files path (or_insert names n (if is_leaf then file_stat b else dir_stat)) ks)"

fun list_dirs :: "rstr \<Rightarrow> (rstr \<times> stat) list \<Rightarrow> rstr list \<Rightarrow> (rstr \<times> stat) list" where
  "list_dirs path names [] = names"
| "list_dirs path names (d # ds) =
     (case direct_child path (mem_child_prefix path) d of
        None \<Rightarrow> list_dirs path names ds
      | Some (n, _) \<Rightarrow> list_dirs path (or_insert names n dir_stat) ds)"

definition mem_readdir :: "v_path \<Rightarrow> (memory, dir_entry list) act" where
  "mem_readdir p m =
     (let path = resolve_in m (vp_rel p) in
      case stat_of (mem_files m) (mem_dirs m) path of
        None \<Rightarrow> (m, Inl ST_NOT_FOUND)
      | Some s \<Rightarrow>
          if st_kind s \<noteq> KIND_DIR then (m, Inl ST_NOT_A_DIRECTORY)
          else
            (m, Inr (map (\<lambda>(n, st). \<lparr>de_name = n, de_stat = st\<rparr>)
                       (list_dirs path (list_files path [] (mem_files m)) (mem_dirs m)))))"

text \<open>\<^verbatim>\<open>entry(path).or_default()\<close>.\<close>

definition or_default :: "mem_files \<Rightarrow> rstr \<Rightarrow> mem_files" where
  "or_default files path = (if map_of files path = None then AList.update path [] files else files)"

definition body_of :: "mem_files \<Rightarrow> rstr \<Rightarrow> bytes" where
  "body_of files path = (case map_of files path of Some b \<Rightarrow> b | None \<Rightarrow> [])"

definition mem_open :: "v_path \<Rightarrow> u32 \<Rightarrow> (memory, u64 \<times> u64 \<times> bool) act" where
  "mem_open p flags m =
     (let path = resolve_in m (vp_rel p); there = (map_of (mem_files m) path \<noteq> None) in
      if flags AND OPEN_EXCL \<noteq> 0 \<and> there then (m, Inl ST_BAD_REQUEST)
      else if flags AND OPEN_CREATE = 0 \<and> \<not> there then (m, Inl ST_NOT_FOUND)
      else
        (let files = (if flags AND OPEN_CREATE \<noteq> 0 then or_default (mem_files m) path else mem_files m);
             by_fold = (if flags AND OPEN_CREATE \<noteq> 0 \<and> \<not> there then index_insert (mem_by_fold m) path else mem_by_fold m);
             files = (if flags AND OPEN_TRUNC \<noteq> 0 then AList.update path [] files else files);
             sz = word_of_nat (length (body_of files path));
             (opens, h) = ht_insert path (mem_opens m) in
         (m\<lparr>mem_files := files, mem_by_fold := by_fold, mem_opens := opens\<rparr>, Inr (h, sz, False))))"

definition mem_close :: "u64 \<Rightarrow> (memory, unit) act" where
  "mem_close h m =
     (case ht_remove h (mem_opens m) of
        (opens, Inl e) \<Rightarrow> (m\<lparr>mem_opens := opens\<rparr>, Inl e)
      | (opens, Inr _) \<Rightarrow> (m\<lparr>mem_opens := opens\<rparr>, Inr ()))"

definition mem_read_at :: "u64 \<Rightarrow> u64 \<Rightarrow> bytes \<Rightarrow> memory \<Rightarrow> memory \<times> bytes \<times> (u32 + nat)" where
  "mem_read_at h offset buf m =
     (case ht_get h (mem_opens m) of
        Inl e \<Rightarrow> (m, buf, Inl e)
      | Inr path \<Rightarrow>
          (case map_of (mem_files m) path of
             None \<Rightarrow> (m, buf, Inl ST_BAD_FH)
           | Some body \<Rightarrow>
               (let start = min (unat offset) (length body);
                    n = min (length body - start) (length buf) in
                (m, take n (drop start body) @ drop n buf, Inr n))))"

text \<open>\<open>touch_index\<close> indexes a path that was not there.\<close>

definition touch_index :: "memory \<Rightarrow> rstr \<Rightarrow> (rstr \<times> rstr) list" where
  "touch_index m path = (if map_of (mem_files m) path = None then index_insert (mem_by_fold m) path else mem_by_fold m)"

definition mem_write_at :: "u64 \<Rightarrow> u64 \<Rightarrow> bytes \<Rightarrow> (memory, nat) act" where
  "mem_write_at h offset buf m =
     (case ht_get h (mem_opens m) of
        Inl e \<Rightarrow> (m, Inl e)
      | Inr path \<Rightarrow>
          (let stop = unat offset + length buf;
               body = body_of (mem_files m) path;
               body = (if length body < stop then resize stop body else body);
               body = take (unat offset) body @ buf @ drop stop body in
           (m\<lparr>mem_files := AList.update path body (mem_files m), mem_by_fold := touch_index m path\<rparr>, Inr (length buf))))"

definition mem_set_len :: "u64 \<Rightarrow> u64 \<Rightarrow> (memory, unit) act" where
  "mem_set_len h len m =
     (case ht_get h (mem_opens m) of
        Inl e \<Rightarrow> (m, Inl e)
      | Inr path \<Rightarrow>
          (m\<lparr>mem_files := AList.update path (resize (unat len) (body_of (mem_files m) path)) (mem_files m),
             mem_by_fold := touch_index m path\<rparr>, Inr ()))"

definition mem_flush :: "u64 \<Rightarrow> (memory, unit) act" where
  "mem_flush h = ret ()"

definition mem_mkdir :: "v_path \<Rightarrow> (memory, unit) act" where
  "mem_mkdir p m =
     (let path = resolve_in m (vp_rel p) in
      if path \<in> set (mem_dirs m) then (m, Inr ())
      else (m\<lparr>mem_dirs := mem_dirs m @ [path], mem_by_fold := index_insert (mem_by_fold m) path\<rparr>, Inr ()))"

definition mem_remove :: "v_path \<Rightarrow> (memory, unit) act" where
  "mem_remove p m =
     (let path = resolve_in m (vp_rel p) in
      if map_of (mem_files m) path \<noteq> None
      then (m\<lparr>mem_files := AList.delete path (mem_files m), mem_by_fold := index_remove (mem_by_fold m) path\<rparr>, Inr ())
      else if list_ex (prefix (mem_child_prefix path)) (map fst (mem_files m)) \<or> list_ex (prefix (mem_child_prefix path)) (mem_dirs m)
      then (m, Inl ST_IS_DIR)
      else if path \<in> set (mem_dirs m)
      then (m\<lparr>mem_dirs := removeAll path (mem_dirs m), mem_by_fold := index_remove (mem_by_fold m) path\<rparr>, Inr ())
      else (m, Inl ST_NOT_FOUND))"

text \<open>Renaming: \<open>rewrite_key\<close> is the closure \<^verbatim>\<open>rewrite\<close>, and the two loops move the subtree's files and directories.\<close>

definition rewrite_key :: "rstr \<Rightarrow> rstr \<Rightarrow> rstr \<Rightarrow> rstr" where
  "rewrite_key from_prefix insert_base old =
     (case strip_pre from_prefix old of Some rest \<Rightarrow> mem_child_prefix insert_base @ rest | None \<Rightarrow> insert_base)"

fun move_files :: "rstr \<Rightarrow> rstr \<Rightarrow> rstr list \<Rightarrow> memory \<Rightarrow> memory" where
  "move_files from_prefix insert_base [] m = m"
| "move_files from_prefix insert_base (old # olds) m =
     (let body = body_of (mem_files m) old; new = rewrite_key from_prefix insert_base old in
      move_files from_prefix insert_base olds
        (m\<lparr>mem_files := AList.update new body (AList.delete old (mem_files m)), mem_by_fold := reindex (mem_by_fold m) old new\<rparr>))"

fun move_dirs :: "rstr \<Rightarrow> rstr \<Rightarrow> rstr list \<Rightarrow> memory \<Rightarrow> memory" where
  "move_dirs from_prefix insert_base [] m = m"
| "move_dirs from_prefix insert_base (old # olds) m =
     (let new = rewrite_key from_prefix insert_base old; dirs = removeAll old (mem_dirs m) in
      move_dirs from_prefix insert_base olds
        (m\<lparr>mem_dirs := (if new \<in> set dirs then dirs else dirs @ [new]), mem_by_fold := reindex (mem_by_fold m) old new\<rparr>))"

definition rename_file :: "rstr \<Rightarrow> rstr \<Rightarrow> bool \<Rightarrow> rstr \<Rightarrow> (memory, unit) act" where
  "rename_file from_c to_c to_exists insert_base m =
     (if to_exists \<and> to_c \<noteq> from_c \<and> (case stat_of (mem_files m) (mem_dirs m) to_c of Some s \<Rightarrow> st_kind s = KIND_DIR | None \<Rightarrow> False)
      then (m, Inl ST_EXISTS)
      else
        (let m = (if to_exists \<and> to_c \<noteq> from_c
                  then m\<lparr>mem_files := AList.delete to_c (mem_files m), mem_by_fold := index_remove (mem_by_fold m) to_c\<rparr> else m);
             body = body_of (mem_files m) from_c in
         (m\<lparr>mem_files := AList.update insert_base body (AList.delete from_c (mem_files m)),
            mem_by_fold := reindex (mem_by_fold m) from_c insert_base\<rparr>, Inr ())))"

definition mem_rename :: "v_path \<Rightarrow> v_path \<Rightarrow> (memory, unit) act" where
  "mem_rename from_path to_path m =
     (let from_p = trim_rel (vp_rel from_path); to_p = trim_rel (vp_rel to_path) in
      if vp_root from_path \<noteq> vp_root to_path then (m, Inl ST_BAD_REQUEST)
      else if from_p = to_p then (m, Inr ())
      else
        (let from_c = resolve_in m (vp_rel from_path); to_c = resolve_in m (vp_rel to_path);
             to_exists = (stat_of (mem_files m) (mem_dirs m) to_c \<noteq> None);
             insert_base = (if to_exists then to_p else to_c);
             from_prefix = mem_child_prefix from_c;
             moving = filter (prefix from_prefix) (map fst (mem_files m));
             moving_dirs = filter (\<lambda>d. d = from_c \<or> prefix from_prefix d) (mem_dirs m) in
         if map_of (mem_files m) from_c \<noteq> None then rename_file from_c to_c to_exists insert_base m
         else if moving = [] \<and> moving_dirs = [] then (m, Inl ST_NOT_FOUND)
         else if prefix (cfold from_prefix) (cfold to_p) then (m, Inl ST_BAD_REQUEST)
         else if to_exists \<and> to_c \<noteq> from_c then (m, Inl ST_EXISTS)
         else (move_dirs from_prefix insert_base moving_dirs (move_files from_prefix insert_base moving m), Inr ())))"

definition mem_set_attr :: "v_path \<Rightarrow> set_attrs \<Rightarrow> (memory, unit) act" where
  "mem_set_attr p attr = ret ()"

definition memory_provider :: "memory provider" where
  "memory_provider =
     (read_core mem_caps mem_getattr mem_readdir mem_open mem_close)
       \<lparr>pv_read_at := mem_read_at, pv_write_at := mem_write_at, pv_set_len := mem_set_len, pv_flush := mem_flush,
        pv_mkdir := mem_mkdir, pv_remove := mem_remove, pv_rename := mem_rename, pv_set_attr := mem_set_attr\<rparr>"

section \<open>A handle on a file\<close>

text \<open>The handle \<open>h\<close> is open on the file stored at \<open>path\<close>.\<close>

definition mem_at :: "u64 \<Rightarrow> rstr \<Rightarrow> memory \<Rightarrow> bool" where
  "mem_at h path m \<longleftrightarrow> ht_map (mem_opens m) h = Some path \<and> map_of (mem_files m) path \<noteq> None"

lemma memory_provider_ops [simp]:
  "pv_caps memory_provider = mem_caps" "pv_getattr memory_provider = mem_getattr" "pv_readdir memory_provider = mem_readdir"
  "pv_open memory_provider = mem_open" "pv_close memory_provider = mem_close" "pv_read_at memory_provider = mem_read_at"
  "pv_write_at memory_provider = mem_write_at" "pv_set_len memory_provider = mem_set_len"
  "pv_remove memory_provider = mem_remove" "pv_flush memory_provider = mem_flush"
  by (simp_all add: memory_provider_def read_core_def)

lemma body_of_Some [simp]: "map_of files path = Some b \<Longrightarrow> body_of files path = b"
  by (simp add: body_of_def)

lemma write_body_patch:
  "take off (if length b < off + length d then resize (off + length d) b else b) @ d @
     drop (off + length d) (if length b < off + length d then resize (off + length d) b else b) = patch b off d"
  by (auto simp: patch_def resize_def min_def)

interpretation memf: file_backend memory_provider h "\<lambda>m. body_of (mem_files m) path" "mem_at h path" for h path
proof
  fix m :: memory and n :: nat and off :: u64 and buf :: bytes
  assume live: "mem_at h path m" and n: "n = min (length (body_of (mem_files m) path) - unat off) (length buf)"
  from live obtain b where "ht_map (mem_opens m) h = Some path" "map_of (mem_files m) path = Some b"
    by (auto simp: mem_at_def)
  then show "\<exists>buf'. pv_read_at memory_provider h off buf m = (m, buf', Inr n) \<and> length buf' = length buf \<and>
      take n buf' = take n (drop (unat off) (body_of (mem_files m) path))"
    using n by (auto simp: mem_read_at_def ht_get_def min_def Let_def)
next
  fix m :: memory and off :: u64 and data :: bytes
  assume "mem_at h path m"
  then obtain b where "ht_map (mem_opens m) h = Some path" "map_of (mem_files m) path = Some b"
    by (auto simp: mem_at_def)
  then show "\<exists>m'. pv_write_at memory_provider h off data m = (m', Inr (length data)) \<and> mem_at h path m' \<and>
      body_of (mem_files m') path = patch (body_of (mem_files m) path) (unat off) data"
    using write_body_patch [of "unat off" b data]
    by (simp add: mem_write_at_def ht_get_def mem_at_def Let_def update_conv')
next
  fix m :: memory and len :: u64
  assume "mem_at h path m"
  then obtain b where "ht_map (mem_opens m) h = Some path" "map_of (mem_files m) path = Some b"
    by (auto simp: mem_at_def)
  then show "\<exists>m'. pv_set_len memory_provider h len m = (m', Inr ()) \<and> mem_at h path m' \<and>
      body_of (mem_files m') path = resize (unat len) (body_of (mem_files m) path)"
    by (simp add: mem_set_len_def ht_get_def mem_at_def update_conv')
qed

text \<open>What a successful open leaves.\<close>

lemma mem_open_at:
  assumes "mem_open p flags m = (m', Inr (h, sz, dir))"
  shows "mem_at h (resolve_in m (vp_rel p)) m' \<and> \<not> dir \<and> sz = word_of_nat (length (body_of (mem_files m') (resolve_in m (vp_rel p))))"
proof -
  let ?k = "resolve_in m (vp_rel p)"
  let ?f = "if flags AND OPEN_CREATE \<noteq> 0 then or_default (mem_files m) ?k else mem_files m"
  have "map_of ?f ?k \<noteq> None"
    using assms by (auto simp: mem_open_def or_default_def update_conv' Let_def split: if_splits)
  then have "map_of (if flags AND OPEN_TRUNC \<noteq> 0 then AList.update ?k [] ?f else ?f) ?k \<noteq> None" by (simp add: update_conv')
  moreover have "mem_files m' = (if flags AND OPEN_TRUNC \<noteq> 0 then AList.update ?k [] ?f else ?f)" "\<not> dir"
    "ht_map (mem_opens m') h = Some ?k" "sz = word_of_nat (length (body_of (mem_files m') ?k))"
    using assms by (auto simp: mem_open_def ht_insert_def ht_fresh_def Let_def split: if_splits)
  ultimately show ?thesis by (simp add: mem_at_def)
qed

text \<open>C39. Appending through the director to a file in memory: after an append open, whatever offsets the writers give, the
  file is what it was at the open followed by the data of the writes in their order.\<close>

theorem append_through_director:
  assumes "d_roots (ds_dir s) root = Some memory_provider" and "open_info_at root path flags s = (s1, Inr oi)"
    and "flags AND OPEN_APPEND \<noteq> 0" and "norm_req path = Inr p"
    and "length (body_of (mem_files (ds_world s1)) (resolve_in (ds_world s) p)) + length (concat (map snd ws)) < 2 ^ 64"
  shows "body_of (mem_files (ds_world (write_list (oi_fh oi) ws s1))) (resolve_in (ds_world s) p) =
    body_of (mem_files (ds_world s1)) (resolve_in (ds_world s) p) @ concat (map snd ws)"
proof -
  let ?k = "resolve_in (ds_world s) p"
  obtain bh sz dir w' where o: "mem_open (VPath root p) flags (ds_world s) = (w', Inr (bh, sz, dir))" and w: "ds_world s1 = w'"
    and r: "d_opens (ds_dir s1) (oi_fh oi) = Some \<lparr>rec_backend = memory_provider, rec_bh = bh, rec_size = sz, rec_is_dir = dir, rec_cursor = Some sz\<rparr>"
    using assms(2) by (rule open_info_cases) (use assms in auto)
  have at: "mem_at bh ?k w'" "\<not> dir" "sz = word_of_nat (length (body_of (mem_files w') ?k))"
    using mem_open_at [OF o] by (simp_all add: VPath_def)
  have "appending (oi_fh oi) memory_provider bh (length (body_of (mem_files (ds_world s1)) ?k)) s1"
    using r at w by (simp add: appending_def)
  then show ?thesis using memf.append_many [of bh ?k s1 "oi_fh oi" ws] at(1) w assms(5) by simp
qed

definition demo_mem :: memory where
  "demo_mem = memory_from_files [([97], [1, 2]), ([68, 97, 47, 120], [9])]"

definition demo_session :: "memory dsys" where
  "demo_session = \<lparr>ds_dir = mount 0 memory_provider director_new, ds_world = demo_mem\<rparr>"

lemma demo_mem_files: "mem_files demo_mem = [([97], [1, 2]), ([68, 97, 47, 120], [9])] \<and> mem_dirs demo_mem = [] \<and> mem_opens demo_mem = ht_new"
  by (simp add: demo_mem_def memory_from_files_def trim_rel_def unify_seps_def trim_matches_def Let_def)

lemma demo_norm: "norm_req [97] = Inr [97]"
  by (simp add: norm_req_def normalize_def unify_seps_def trim_matches_def)

lemma demo_resolve: "resolve_in demo_mem [97] = [97]"
  by (simp add: resolve_in_def demo_mem_files canonical_in_def trim_rel_def unify_seps_def trim_matches_def)

lemmas open_flag_defs = OPEN_READ_def OPEN_WRITE_def OPEN_APPEND_def OPEN_EXCL_def OPEN_CREATE_def OPEN_TRUNC_def

theorem append_through_director_witness:
  "body_of (mem_files (ds_world (write_list 1 [(0, [3]), (99, [4, 5])]
     (fst (open_info_at 0 [97] (OPEN_WRITE OR OPEN_APPEND) demo_session))))) [97] = [1, 2, 3, 4, 5]"
proof -
  let ?s = "fst (open_info_at 0 [97] (OPEN_WRITE OR OPEN_APPEND) demo_session)"
  have o: "open_info_at 0 [97] (OPEN_WRITE OR OPEN_APPEND) demo_session =
      (?s, Inr \<lparr>oi_fh = 1, oi_size = 2, oi_is_dir = False, oi_immutable = False, oi_mount_gen = 2\<rparr>)"
    and f: "mem_files (ds_world ?s) = mem_files demo_mem"
    by (simp_all add: open_info_at_def demo_norm provider_for_def demo_session_def mount_def director_new_def mem_caps_def
        on_world_def mem_open_def demo_resolve demo_mem_files VPath_def Let_def open_flag_defs ht_insert_def ht_fresh_def
        ht_new_def act_bind_def)
  have "d_roots (ds_dir demo_session) 0 = Some memory_provider" "ds_world demo_session = demo_mem"
    by (simp_all add: demo_session_def mount_def)
  then show ?thesis
    using append_through_director [OF _ o _ demo_norm, of "[(0, [3]), (99, [4, 5])]"] f
    by (simp add: demo_resolve demo_mem_files body_of_def open_flag_defs)
qed

section \<open>The index\<close>

text \<open>Every entry of the index leads from a folded name to a stored path of that name that is there.\<close>

definition idx_ok :: "mem_files \<Rightarrow> rstr list \<Rightarrow> (rstr \<times> rstr) list \<Rightarrow> bool" where
  "idx_ok files dirs by_fold \<longleftrightarrow>
     (\<forall>f k. map_of by_fold f = Some k \<longrightarrow> cfold k = f \<and> (map_of files k \<noteq> None \<or> k \<in> set dirs))"

definition tree_ok :: "memory \<Rightarrow> bool" where
  "tree_ok m \<longleftrightarrow> distinct (map fst (mem_files m)) \<and> distinct (mem_dirs m) \<and> distinct (map fst (mem_by_fold m)) \<and>
     idx_ok (mem_files m) (mem_dirs m) (mem_by_fold m)"

lemmas alist_simps = update_conv' delete_conv' distinct_update distinct_delete

lemma idx_insert: "idx_ok files dirs bf \<Longrightarrow> map_of files k \<noteq> None \<or> k \<in> set dirs \<Longrightarrow> idx_ok files dirs (index_insert bf k)"
  by (auto simp: idx_ok_def index_insert_def alist_simps)

lemma idx_mono: "idx_ok files dirs bf \<Longrightarrow> (\<And>k. map_of files k \<noteq> None \<Longrightarrow> map_of files' k \<noteq> None) \<Longrightarrow> set dirs \<subseteq> set dirs' \<Longrightarrow> idx_ok files' dirs' bf"
  unfolding idx_ok_def by blast

lemma idx_delete_file: "idx_ok files dirs bf \<Longrightarrow> idx_ok (AList.delete k files) dirs (index_remove bf k)"
  by (auto simp: idx_ok_def index_remove_def alist_simps)

lemma idx_delete_dir: "idx_ok files dirs bf \<Longrightarrow> idx_ok files (removeAll k dirs) (index_remove bf k)"
  by (auto simp: idx_ok_def index_remove_def alist_simps)

lemma reindex_eq: "reindex bf old new = index_insert (index_remove bf old) new"
  by (simp add: reindex_def index_insert_def index_remove_def)

lemma distinct_index [simp]:
  "distinct (map fst bf) \<Longrightarrow> distinct (map fst (index_insert bf k))" "distinct (map fst bf) \<Longrightarrow> distinct (map fst (index_remove bf k))"
  by (simp_all add: index_insert_def index_remove_def alist_simps)

lemma tree_ok_update_file:
  "tree_ok m \<Longrightarrow> tree_ok (m\<lparr>mem_files := AList.update k b (mem_files m), mem_by_fold := index_insert (mem_by_fold m) k\<rparr>)"
  "tree_ok m \<Longrightarrow> tree_ok (m\<lparr>mem_files := AList.update k b (mem_files m)\<rparr>)"
  unfolding tree_ok_def by (auto simp: alist_simps intro!: idx_insert intro: idx_mono)

lemma tree_ok_delete_file:
  "tree_ok m \<Longrightarrow> tree_ok (m\<lparr>mem_files := AList.delete k (mem_files m), mem_by_fold := index_remove (mem_by_fold m) k\<rparr>)"
  unfolding tree_ok_def by (auto simp: alist_simps intro: idx_delete_file)

lemma tree_ok_delete_dir:
  "tree_ok m \<Longrightarrow> tree_ok (m\<lparr>mem_dirs := removeAll k (mem_dirs m), mem_by_fold := index_remove (mem_by_fold m) k\<rparr>)"
  unfolding tree_ok_def by (auto simp: distinct_removeAll intro: idx_delete_dir)

lemma tree_ok_insert_dir:
  "tree_ok m \<Longrightarrow> tree_ok (m\<lparr>mem_dirs := (if k \<in> set (mem_dirs m) then mem_dirs m else mem_dirs m @ [k]), mem_by_fold := index_insert (mem_by_fold m) k\<rparr>)"
  unfolding tree_ok_def by (auto intro!: idx_insert intro: idx_mono)

lemma tree_ok_opens [simp]: "tree_ok (m\<lparr>mem_opens := t\<rparr>) = tree_ok m"
  by (simp add: tree_ok_def)

lemma tree_ok_move_file:
  assumes "tree_ok m"
  shows "tree_ok (m\<lparr>mem_files := AList.update new b (AList.delete old (mem_files m)), mem_by_fold := reindex (mem_by_fold m) old new\<rparr>)"
  using tree_ok_update_file(1) [OF tree_ok_delete_file [OF assms, of old], of new b] by (simp add: reindex_eq)

lemma tree_ok_move_files: "tree_ok m \<Longrightarrow> tree_ok (move_files pre base olds m)"
  by (induction pre base olds m rule: move_files.induct) (simp_all add: Let_def tree_ok_move_file)

lemma tree_ok_move_dirs: "tree_ok m \<Longrightarrow> tree_ok (move_dirs pre base olds m)"
proof (induction pre base olds m rule: move_dirs.induct)
  case (2 pre base old olds m)
  let ?new = "rewrite_key pre base old" and ?dirs = "removeAll old (mem_dirs m)"
  let ?m = "m\<lparr>mem_dirs := ?dirs, mem_by_fold := index_remove (mem_by_fold m) old\<rparr>"
  have "tree_ok (?m\<lparr>mem_dirs := (if ?new \<in> set (mem_dirs ?m) then mem_dirs ?m else mem_dirs ?m @ [?new]), mem_by_fold := index_insert (mem_by_fold ?m) ?new\<rparr>)"
    by (rule tree_ok_insert_dir [OF tree_ok_delete_dir [OF 2(2)]])
  then have "tree_ok (m\<lparr>mem_dirs := (if ?new \<in> set ?dirs then ?dirs else ?dirs @ [?new]), mem_by_fold := reindex (mem_by_fold m) old ?new\<rparr>)"
    unfolding reindex_eq by (simp cong: if_cong)
  from 2(1) [OF refl refl this] show ?case by (simp add: Let_def)
qed simp

text \<open>A method call that may change the tree, and the tree after it.\<close>

datatype mem_op = M_Open v_path u32 | M_Close u64 | M_Write u64 u64 bytes | M_Set_Len u64 u64 | M_Mkdir v_path | M_Remove v_path
  | M_Rename v_path v_path

fun run_mem_op :: "mem_op \<Rightarrow> memory \<Rightarrow> memory" where
  "run_mem_op (M_Open p flags) m = fst (mem_open p flags m)"
| "run_mem_op (M_Close h) m = fst (mem_close h m)"
| "run_mem_op (M_Write h off d) m = fst (mem_write_at h off d m)"
| "run_mem_op (M_Set_Len h len) m = fst (mem_set_len h len m)"
| "run_mem_op (M_Mkdir p) m = fst (mem_mkdir p m)"
| "run_mem_op (M_Remove p) m = fst (mem_remove p m)"
| "run_mem_op (M_Rename p q) m = fst (mem_rename p q m)"

lemma tree_ok_open:
  assumes "tree_ok m"
  shows "tree_ok (fst (mem_open p flags m))"
proof -
  let ?k = "resolve_in m (vp_rel p)"
  let ?m = "m\<lparr>mem_files := AList.update ?k [] (mem_files m), mem_by_fold := index_insert (mem_by_fold m) ?k\<rparr>"
  have 1: "tree_ok ?m" "tree_ok (m\<lparr>mem_files := AList.update ?k [] (mem_files m)\<rparr>)" using tree_ok_update_file assms by blast+
  have 2: "tree_ok (?m\<lparr>mem_files := AList.update ?k [] (mem_files ?m)\<rparr>)" by (rule tree_ok_update_file(2) [OF 1(1)])
  show ?thesis
    using assms 1 2
    by (auto simp: mem_open_def or_default_def Let_def tree_ok_def split: prod.splits)
qed

lemma tree_ok_touch:
  assumes "tree_ok m"
  shows "tree_ok (m\<lparr>mem_files := AList.update k b (mem_files m), mem_by_fold := touch_index m k\<rparr>)"
  using tree_ok_update_file [OF assms, of k b] by (simp add: touch_index_def)

lemma tree_ok_rename_file: "tree_ok m \<Longrightarrow> tree_ok (fst (rename_file from_c to_c ex base m))"
  using tree_ok_move_file tree_ok_move_file [OF tree_ok_delete_file] by (auto simp: rename_file_def Let_def split: option.splits)

lemma tree_ok_rename: "tree_ok m \<Longrightarrow> tree_ok (fst (mem_rename p q m))"
  by (auto simp: mem_rename_def Let_def intro: tree_ok_rename_file tree_ok_move_dirs tree_ok_move_files)

lemma tree_ok_step: "tree_ok m \<Longrightarrow> tree_ok (run_mem_op op m)"
proof (cases op)
  case (M_Mkdir p)
  then show "tree_ok m \<Longrightarrow> ?thesis" using tree_ok_insert_dir [of m "resolve_in m (vp_rel p)"]
    by (cases "resolve_in m (vp_rel p) \<in> set (mem_dirs m)") (simp_all add: mem_mkdir_def Let_def)
next
  case (M_Remove p)
  then show "tree_ok m \<Longrightarrow> ?thesis" by (simp add: mem_remove_def Let_def tree_ok_delete_file tree_ok_delete_dir)
qed (auto simp: tree_ok_open tree_ok_rename mem_close_def mem_write_at_def mem_set_len_def tree_ok_touch Let_def
    split: sum.splits prod.splits)

lemma tree_ok_from_files: "tree_ok \<lparr>mem_files = files, mem_dirs = [], mem_opens = ht_new, mem_by_fold = bf\<rparr> \<Longrightarrow> tree_ok (from_files es files bf)"
proof (induction es files bf rule: from_files.induct)
  case (2 p b es files bf)
  from tree_ok_update_file(1) [OF 2(2), of "trim_rel p" b] 2(1) show ?case by (simp add: Let_def index_insert_def)
qed simp

lemma stat_of_stored: "map_of files q \<noteq> None \<or> q \<in> set dirs \<Longrightarrow> stat_of files dirs q \<noteq> None"
  by (auto simp: stat_of_def split: option.splits)

lemma idx_resolves:
  assumes "tree_ok m" and "map_of (mem_by_fold m) (cfold (trim_rel rel)) \<noteq> None"
  shows "stat_of (mem_files m) (mem_dirs m) (resolve_in m rel) \<noteq> None"
proof (cases "trim_rel rel = [] \<or> map_of (mem_files m) (trim_rel rel) \<noteq> None \<or> trim_rel rel \<in> set (mem_dirs m)")
  case True
  then show ?thesis using stat_of_stored [of "mem_files m" "trim_rel rel" "mem_dirs m"]
    by (cases "trim_rel rel = []") (simp_all add: resolve_in_def canonical_in_def stat_of_def)
next
  case False
  obtain k where k: "map_of (mem_by_fold m) (cfold (trim_rel rel)) = Some k" using assms(2) by auto
  then have "map_of (mem_files m) k \<noteq> None \<or> k \<in> set (mem_dirs m)"
    using assms(1) unfolding tree_ok_def idx_ok_def by blast
  then show ?thesis using stat_of_stored k False by (simp add: resolve_in_def canonical_in_def)
qed

text \<open>C40. The index of the memory tree never goes stale: after any opens, writes, changes of length, new directories,
  removals and renames, there is one entry per path, every indexed name leads to a stored path that folds to it and
  is there, and so a name of any spelling that is indexed resolves to something that exists.\<close>

theorem memory_index_sound:
  "tree_ok (fold run_mem_op ops (memory_from_files es)) \<and>
   (map_of (mem_by_fold (fold run_mem_op ops (memory_from_files es))) (cfold (trim_rel rel)) \<noteq> None \<longrightarrow>
    snd (mem_getattr (VPath root rel) (fold run_mem_op ops (memory_from_files es))) \<noteq> Inr None)"
proof -
  have "tree_ok (memory_from_files es)"
    unfolding memory_from_files_def by (rule tree_ok_from_files) (simp add: tree_ok_def idx_ok_def)
  then have ok: "tree_ok (fold run_mem_op ops (memory_from_files es))"
    by (induction ops arbitrary: es rule: rev_induct) (simp_all add: tree_ok_step)
  then show ?thesis using idx_resolves [OF ok, of rel] by (simp add: mem_getattr_def VPath_def)
qed

lemmas fold_eval = cfold_def is_ascii_def to_ascii_lowercase_def

theorem memory_index_sound_witness:
  "map_of (mem_by_fold demo_mem) (cfold (trim_rel [65])) = Some [97] \<and> snd (mem_getattr (VPath 0 [65]) demo_mem) \<noteq> Inr None"
proof -
  have "map_of (mem_by_fold demo_mem) (cfold (trim_rel [65])) = Some [97]"
    by (simp add: demo_mem_def memory_from_files_def trim_rel_def unify_seps_def trim_matches_def Let_def fold_eval)
  then show ?thesis
    using memory_index_sound [of "[]" "[([97], [1, 2]), ([68, 97, 47, 120], [9])]" "[65]" 0] by (simp add: demo_mem_def)
qed

section \<open>Where the tree departs from what is said of it\<close>

text \<open>An exclusive create of a file that is there is refused, but with \<^verbatim>\<open>ST_BAD_REQUEST\<close>, not the \<^verbatim>\<open>ST_EXISTS\<close> that
  \<^verbatim>\<open>status.rs\<close> has for it, the disk provider answers and the shim maps to a name collision.\<close>

lemma open_excl_status:
  assumes "flags AND OPEN_EXCL \<noteq> 0" and "map_of (mem_files m) (resolve_in m (vp_rel p)) \<noteq> None"
  shows "mem_open p flags m = (m, Inl ST_BAD_REQUEST)" and "ST_BAD_REQUEST \<noteq> ST_EXISTS"
  using assms by (simp_all add: mem_open_def Let_def st_defs)

definition demo_twins :: memory where
  "demo_twins = memory_from_files [([68, 47, 120], [1]), ([100, 47, 121], [2])]"

lemmas mem_eval = memory_from_files_def trim_rel_def unify_seps_def trim_matches_def Let_def fold_eval resolve_in_def
  canonical_in_def stat_of_def mem_child_prefix_def VPath_def strip_pre_def index_insert_def index_remove_def reindex_def
  direct_child_def or_insert_def dir_stat_def file_stat_def

text \<open>Of two directories that differ in case only, one made by \<^verbatim>\<open>mkdir\<close> and one implied by a file, the byte-exact name of
  the second resolves to the first: the index is asked before the byte-exact implied name, although the comment on
  \<^verbatim>\<open>canonical_in\<close> says that byte-exact wins at every step. Here \<^verbatim>\<open>D/x\<close> and \<^verbatim>\<open>d/y\<close> are files; after \<^verbatim>\<open>mkdir D\<close> a
  listing of \<^verbatim>\<open>d\<close> shows \<^verbatim>\<open>x\<close>.\<close>

lemma exact_name_shadowed:
  "map de_name (case snd (mem_readdir (VPath 0 [100]) demo_twins) of Inr es \<Rightarrow> es) = [[121]]"
  "map de_name (case snd (mem_readdir (VPath 0 [100]) (fst (mem_mkdir (VPath 0 [68]) demo_twins))) of Inr es \<Rightarrow> es) = [[120]]"
  by (simp_all add: demo_twins_def mem_eval mem_readdir_def mem_mkdir_def KIND_DIR_def)

definition demo_tree :: memory where
  "demo_tree = memory_from_files [([68, 47, 97], [1]), ([68, 47, 98], [2]), ([99], [3])]"

text \<open>Renaming a file over an existing one through another spelling of its directory stores it under that spelling and so
  splits the directory: with \<^verbatim>\<open>D/a\<close>, \<^verbatim>\<open>D/b\<close> and \<^verbatim>\<open>c\<close>, after \<^verbatim>\<open>c\<close> is renamed to \<^verbatim>\<open>d/a\<close> a listing of \<^verbatim>\<open>D\<close> shows
  \<^verbatim>\<open>b\<close> only.\<close>

lemma rename_splits_directory:
  "map fst (mem_files (fst (mem_rename (VPath 0 [99]) (VPath 0 [100, 47, 97]) demo_tree))) = [[68, 47, 98], [100, 47, 97]]"
  "map de_name (case snd (mem_readdir (VPath 0 [68]) (fst (mem_rename (VPath 0 [99]) (VPath 0 [100, 47, 97]) demo_tree))) of Inr es \<Rightarrow> es) = [[98]]"
  by (simp_all add: demo_tree_def mem_eval mem_readdir_def mem_rename_def rename_file_def KIND_DIR_def KIND_FILE_def)

end
