(* ===== verification/Session.thy ===== *)
theory Session
  imports Fragments Ring_Machine Gate Memory
begin

unbundle bit_operations_syntax

text \<open>
  A client and the director at the two ends of one ring: a batch of requests is published, the director's worker serves
  what it finds, and the client collects the answers (\<^verbatim>\<open>submit_many_held_reporting\<close>, \<^verbatim>\<open>release_slots\<close> and \<^verbatim>\<open>serve_one\<close> of
  \<^verbatim>\<open>vfs-ipc/src/endpoint.rs\<close>, \<^verbatim>\<open>worker_loop\<close> of \<^verbatim>\<open>vfs-director/src/ipc.rs\<close>). The session is sequential, the worker running
  while the client waits; what other interleavings could do is the subject of the ring's own theories. The locale
  \<open>file_client\<close> is interpreted on it, for any provider that keeps the contract \<open>file_backend\<close>.
\<close>

section \<open>The server\<close>

definition serve_one :: "geom \<Rightarrow> (u32 \<Rightarrow> u32 \<Rightarrow> u32 \<Rightarrow> bytes \<Rightarrow> 's \<Rightarrow> seg \<Rightarrow> 's \<times> seg \<times> reply) \<Rightarrow> u32 \<Rightarrow> 's \<Rightarrow> seg \<Rightarrow>
    u32 \<times> 's \<times> seg \<times> (ipc_error + bool)" where
  "serve_one g handler next s m =
     (case server_take_from m g next of
        (m, None) \<Rightarrow> (next, s, m, Inr False)
      | (m, Some slot) \<Rightarrow>
          (let next = slot + 1 in
           case read_request m g slot of
             None \<Rightarrow> (next, s, m, Inl BadResponse)
           | Some (op, flags, rid, payload) \<Rightarrow>
               (let (s, m, status, resp) = handler slot op flags payload s m in
                case server_complete m g slot rid status resp of
                  (m, Inl e) \<Rightarrow> (next, s, m, Inl e)
                | (m, Inr _) \<Rightarrow> (next, s, m, Inr True))))"

definition director_handler :: "geom \<Rightarrow> data_arena \<Rightarrow> u32 \<Rightarrow> u32 \<Rightarrow> u32 \<Rightarrow> bytes \<Rightarrow> 'w dsys \<Rightarrow> seg \<Rightarrow> 'w dsys \<times> seg \<times> reply" where
  "director_handler g a slot op flags payload s m = dispatch_director op payload flags (payload_cap g) (Some (a, slot)) s m"

text \<open>Turns of the worker's loop, until it breaks off with an error.\<close>

fun worker_turns :: "geom \<Rightarrow> data_arena \<Rightarrow> nat \<Rightarrow> u32 \<Rightarrow> 'w dsys \<Rightarrow> seg \<Rightarrow> u32 \<times> 'w dsys \<times> seg" where
  "worker_turns g a 0 next s m = (next, s, m)"
| "worker_turns g a (Suc k) next s m =
     (case serve_one g (director_handler g a) next s m of
        (next, s, m, Inl _) \<Rightarrow> (next, s, m)
      | (next, s, m, Inr _) \<Rightarrow> worker_turns g a k next s m)"

section \<open>The client\<close>

text \<open>Publishing a batch: the segment, the slots claimed, the ids of the requests published, and the error that stopped it.
  With nobody else on the ring, waiting for a slot that is not free ends in \<^const>\<open>RingFull\<close>.\<close>

fun publish_all :: "geom \<Rightarrow> seg \<Rightarrow> u32 \<Rightarrow> ring_req list \<Rightarrow> seg \<times> u32 list \<times> u64 list \<times> ipc_error option" where
  "publish_all g m start [] = (m, [], [], None)"
| "publish_all g m start ((op, flags, payload) # reqs) =
     (case claim_free_from m g start of
        (m, None) \<Rightarrow> (m, [], [], Some RingFull)
      | (m, Some slot) \<Rightarrow>
          (case publish_request m g slot op flags payload of
             (m, Inl e) \<Rightarrow> (m, [slot], [], Some e)
           | (m, Inr rid) \<Rightarrow>
               (let (m, slots, ids, err) = publish_all g m (slot + 1) reqs in (m, slot # slots, rid # ids, err))))"

fun abandon_slots :: "geom \<Rightarrow> seg \<Rightarrow> u32 list \<Rightarrow> seg \<times> u32 list" where
  "abandon_slots g m [] = (m, [])"
| "abandon_slots g m (slot # slots) =
     (case abandon m g slot of
        None \<Rightarrow> abandon_slots g m slots
      | Some (m, r) \<Rightarrow>
          (let (m, retired) = abandon_slots g m slots in (m, if r = Inr Retired then slot # retired else retired)))"

text \<open>Awaiting the responses in order; one that is not there when the worker is done stays away until the deadline.\<close>

fun collect :: "geom \<Rightarrow> seg \<Rightarrow> (u32 \<times> u64) list \<Rightarrow> ipc_error + (u32 \<times> bytes) list" where
  "collect g m [] = Inr []"
| "collect g m ((slot, rid) # jobs) =
     rbind (take_response m g slot rid) (\<lambda>r.
       case r of None \<Rightarrow> Inl Timeout | Some resp \<Rightarrow> rbind (collect g m jobs) (\<lambda>out. Inr (resp # out)))"

record 'w session =
  se_gate :: gate
  se_permits :: nat
  se_dir :: "'w dsys"
  se_seg :: seg
  se_hint :: u32
  se_next :: u32

definition submit_many :: "geom \<Rightarrow> data_arena \<Rightarrow> ring_req list \<Rightarrow> 'w session \<Rightarrow> 'w session \<times> (u32 list + (u32 \<times> bytes) list \<times> u32 list)" where
  "submit_many g a reqs e =
     (if reqs = [] then (e, Inr ([], []))
      else if \<exists>(_, _, p) \<in> set reqs. length p > unat (payload_cap g) then (e, Inl [])
      else
        (case publish_all g (se_seg e) (se_hint e) reqs of
           (m, slots, _, Some _) \<Rightarrow> (let (m, retired) = abandon_slots g m slots in (e\<lparr>se_seg := m\<rparr>, Inl retired))
         | (m, slots, ids, None) \<Rightarrow>
             (let (next, s, m) = worker_turns g a (unat (slot_count g)) (se_next e) (se_dir e) m;
                  e = e\<lparr>se_hint := hd slots, se_next := next, se_dir := s, se_seg := m\<rparr> in
              case collect g m (zip slots ids) of
                Inl _ \<Rightarrow> (let (m, retired) = abandon_slots g m slots in (e\<lparr>se_seg := m\<rparr>, Inl retired))
              | Inr out \<Rightarrow> (e, Inr (out, slots)))))"

definition release_slots :: "geom \<Rightarrow> u32 list \<Rightarrow> seg \<Rightarrow> seg" where
  "release_slots g slots m = fold (\<lambda>slot m. fst (free_slot m g slot)) slots m"

text \<open>The client's side of a session, for \<^const>\<open>read_fragmented\<close>. The only caller has every lock of the gate when it wants
  it, and no use for a place in a line nobody moves.\<close>

definition session_client :: "geom \<Rightarrow> data_arena \<Rightarrow> nat \<Rightarrow> 'w session ring_client" where
  "session_client g a now =
     \<lparr>rc_slots = unat (slot_count g),
      rc_seg = se_seg,
      rc_acquire = (\<lambda>want e.
        (let (d, n) = acquire_now (se_gate e) want (se_seg e) g True True now in
         if n = 0 then (e\<lparr>se_gate := d\<rparr>, None) else (e\<lparr>se_gate := d, se_permits := n\<rparr>, Some n))),
      rc_submit = submit_many g a,
      rc_retire = (\<lambda>slots e.
        (let (d, n) = permits_retire (se_gate e) (se_permits e) slots True True now in e\<lparr>se_gate := d, se_permits := n\<rparr>)),
      rc_release = (\<lambda>slots e. e\<lparr>se_seg := release_slots g slots (se_seg e)\<rparr>),
      rc_drop = (\<lambda>e. e\<lparr>se_gate := permits_drop (se_gate e) (se_permits e) True now, se_permits := 0\<rparr>)\<rparr>"

section \<open>Serving a read of a file\<close>

definition file_open :: "u64 \<Rightarrow> 'w provider \<Rightarrow> u64 \<Rightarrow> 'w dsys \<Rightarrow> bool" where
  "file_open fh q h s \<longleftrightarrow> (\<exists>r. d_opens (ds_dir s) fh = Some r \<and> rec_backend r = q \<and> rec_bh r = h \<and> \<not> rec_is_dir r)"

text \<open>A response from \<open>slot\<close> that says \<open>d\<close>, inline or in the slot's bank.\<close>

definition says :: "data_arena \<Rightarrow> seg \<Rightarrow> u32 \<Rightarrow> bytes \<Rightarrow> bytes \<Rightarrow> bool" where
  "says a m slot d resp \<longleftrightarrow> resp = encode_read_resp d \<or>
     resp = encode_read_resp_bulk (word_of_nat (length d)) (word_of_nat (bank_mapping_offset a slot)) \<and> take (length d) (bank a m slot) = d"

text \<open>A plan that fits the ring and its arena.\<close>

definition plan_ok :: "geom \<Rightarrow> data_arena \<Rightarrow> read_plan \<Rightarrow> bool" where
  "plan_ok g a plan \<longleftrightarrow> 0 < bulk_chunk plan \<and> 0 < inline_chunk plan \<and> bulk_chunk plan \<le> bank_size a \<and>
     inline_chunk plan \<le> max_read_data (payload_cap g) \<and> (bulk_threshold plan \<le> unat BULK_THRESHOLD \<or> inline_chunk plan \<le> bank_size a) \<and>
     bank_size a < 2 ^ 31 \<and> 24 \<le> unat (payload_cap g) \<and> unat (payload_cap g) \<le> 2 ^ 31"

section \<open>Scans and single operations\<close>

definition in_state :: "geom \<Rightarrow> seg \<Rightarrow> u32 \<Rightarrow> u32 set" where
  "in_state g m st = {t. t < slot_count g \<and> v_state (view g m t) = st}"

lemma finite_in_state [simp]: "finite (in_state g m st)"
  by (rule finite_subset [of _ UNIV]) simp_all

lemma claim_view:
  assumes "ring_ok g m" and "unat start + unat (slot_count g) \<le> 2 ^ 32" and "in_state g m ST_FREE \<noteq> {}"
  obtains s where "claim_free_from m g start = (set_state g m s ST_CLAIMED, Some s)" "s \<in> in_state g m ST_FREE"
proof -
  obtain t where t: "t < slot_count g" "v_state (view g m t) = ST_FREE" using assms(3) by (auto simp: in_state_def)
  then have nz: "slot_count g \<noteq> 0" by auto
  obtain j where j: "j < unat (slot_count g)" "turn g start j = t" using turns_cover [OF assms(2) t(1)] by blast
  have "find (\<lambda>i. v_state (view g m (turn g start i)) = ST_FREE) [0..<unat (slot_count g)] \<noteq> None"
    unfolding find_upt_None using j t(2) by blast
  then obtain i where i: "find (\<lambda>i. v_state (view g m (turn g start i)) = ST_FREE) [0..<unat (slot_count g)] = Some i" by blast
  show thesis
  proof (rule that)
    show "claim_free_from m g start = (set_state g m (turn g start i) ST_CLAIMED, Some (turn g start i))"
      using i by (simp add: claim_free_from_def claim_scan_find [OF assms(1) nz])
    show "turn g start i \<in> in_state g m ST_FREE" using i turn_less [OF nz] by (simp add: in_state_def find_upt_Some)
  qed
qed

lemma take_view:
  assumes "ring_ok g m" and "slot_count g \<noteq> 0" and "unat start + unat (slot_count g) \<le> 2 ^ 32"
  obtains "server_take_from m g start = (m, None)" "in_state g m ST_SUBMITTED = {}"
  | s where "server_take_from m g start = (set_state g m s ST_PROCESSING, Some s)" "s \<in> in_state g m ST_SUBMITTED"
proof (cases "find (\<lambda>i. v_state (view g m (turn g start i)) = ST_SUBMITTED) [0..<unat (slot_count g)]")
  case None
  then have "\<forall>i<unat (slot_count g). v_state (view g m (turn g start i)) \<noteq> ST_SUBMITTED" by (simp add: find_upt_None)
  then have "in_state g m ST_SUBMITTED = {}" using turns_cover [OF assms(3)] by (fastforce simp: in_state_def)
  then show thesis using that(1) None by (simp add: server_take_from_def take_scan_find [OF assms(1,2)])
next
  case (Some i)
  show thesis
  proof (rule that(2))
    show "server_take_from m g start = (set_state g m (turn g start i) ST_PROCESSING, Some (turn g start i))"
      using Some by (simp add: server_take_from_def take_scan_find [OF assms(1,2)])
    show "turn g start i \<in> in_state g m ST_SUBMITTED" using Some turn_less [OF assms(2)] by (simp add: in_state_def find_upt_Some)
  qed
qed

lemma publish_mem_ok:
  assumes "mem_ok g a m" and "s < slot_count g" and "length pl \<le> unat (payload_cap g)"
  shows "mem_ok g a (fst (publish_request m g s op fl pl))"
  using assms by (simp add: publish_request_def Let_def seq_atomic [where g = g] state_ref_eq view_simps)

lemma complete_banks:
  assumes "mem_ok g a m" and "s < slot_count g" and "v_state (view g m s) = ST_PROCESSING" and "v_id (view g m s) = rid"
    and "length resp \<le> unat (payload_cap g)"
  shows "mem_ok g a (fst (server_complete m g s rid status resp))"
    and "t < slot_count g \<Longrightarrow> bank a (fst (server_complete m g s rid status resp)) t = bank a m t"
proof -
  have "ST_PROCESSING \<noteq> ST_ABANDONED" by (simp add: Ring.st_defs)
  then show "mem_ok g a (fst (server_complete m g s rid status resp))"
    and "t < slot_count g \<Longrightarrow> bank a (fst (server_complete m g s rid status resp)) t = bank a m t"
    using assms by (simp_all add: server_complete_def Let_def state_ref_eq compare_exchange_eq view_simps)
qed

section \<open>Publishing a batch\<close>

definition published :: "geom \<Rightarrow> seg \<Rightarrow> u32 \<Rightarrow> ring_req \<Rightarrow> u64 \<Rightarrow> bool" where
  "published g m slot req rid \<longleftrightarrow>
     (case req of (op, fl, pl) \<Rightarrow>
        v_state (view g m slot) = ST_SUBMITTED \<and> v_opcode (view g m slot) = op \<and> v_flags (view g m slot) = fl \<and>
        v_id (view g m slot) = rid \<and> unat (v_len (view g m slot)) = length pl \<and> take (length pl) (v_data (view g m slot)) = pl)"

lemma published_cong: "view g m' s = view g m s \<Longrightarrow> published g m' s req rid = published g m s req rid"
  by (simp add: published_def)

lemma claim_publish:
  assumes ok: "mem_ok g a m" and wrap: "unat start + unat (slot_count g) \<le> 2 ^ 32" and free: "in_state g m ST_FREE \<noteq> {}"
    and pl: "length pl \<le> unat (payload_cap g)"
  obtains s rid m1 m2 where "claim_free_from m g start = (m1, Some s)" "publish_request m1 g s op fl pl = (m2, Inr rid)" "s \<in> in_state g m ST_FREE"
    "mem_ok g a m2" "published g m2 s (op, fl, pl) rid" "\<And>t. t < slot_count g \<Longrightarrow> t \<noteq> s \<Longrightarrow> view g m2 t = view g m t"
proof -
  obtain s where c: "claim_free_from m g start = (set_state g m s ST_CLAIMED, Some s)" and s: "s \<in> in_state g m ST_FREE"
    using claim_view [OF mem_ok_ring [OF ok] wrap free] by blast
  have lt: "s < slot_count g" using s by (simp add: in_state_def)
  let ?m1 = "set_state g m s ST_CLAIMED"
  have ok1: "mem_ok g a ?m1" using ok lt by (simp add: view_simps)
  obtain m2 where p: "publish_request ?m1 g s op fl pl = (m2, Inr (load64 ?m1 RH_REQ_SEQ))"
    and v: "\<And>t. t < slot_count g \<Longrightarrow> view g m2 t =
      (if t = s then (view g ?m1 s)\<lparr>v_state := ST_SUBMITTED, v_opcode := op, v_flags := fl, v_len := word_of_nat (length pl),
         v_id := load64 ?m1 RH_REQ_SEQ, v_data := pl @ drop (length pl) (v_data (view g ?m1 s))\<rparr> else view g ?m1 t)"
    by (rule publish_request_view [OF mem_ok_ring [OF ok1] lt pl, of op fl]) blast
  have "length pl < 2 ^ 32" using pl unat_u32 [of "payload_cap g"] by linarith
  then have "published g m2 s (op, fl, pl) (load64 ?m1 RH_REQ_SEQ)" by (simp add: published_def v [OF lt] unat_of_nat_u32)
  moreover have "mem_ok g a m2" using publish_mem_ok [OF ok1 lt pl, of op fl] p by simp
  moreover have "view g m2 t = view g m t" if "t < slot_count g" "t \<noteq> s" for t using v [OF that(1)] that ok lt by (simp add: view_simps)
  ultimately show thesis using that [OF c p s] by blast
qed

text \<open>A batch with a free slot for each request: every request gets a slot of its own, and nothing else changes.\<close>

lemma publish_all_view:
  assumes "mem_ok g a m" and "unat start \<le> unat (slot_count g)" and "unat (slot_count g) \<le> 2 ^ 31"
    and "length reqs \<le> card (in_state g m ST_FREE)" and "list_all (\<lambda>(_, _, pl). length pl \<le> unat (payload_cap g)) reqs"
  shows "\<exists>m' slots ids. publish_all g m start reqs = (m', slots, ids, None) \<and> length slots = length reqs \<and> length ids = length reqs \<and>
    distinct slots \<and> set slots \<subseteq> in_state g m ST_FREE \<and> mem_ok g a m' \<and>
    (\<forall>t. t < slot_count g \<longrightarrow> t \<notin> set slots \<longrightarrow> view g m' t = view g m t) \<and>
    list_all (\<lambda>(slot, req, rid). published g m' slot req rid) (zip slots (zip reqs ids))"
  using assms
proof (induction reqs arbitrary: m start)
  case (Cons r reqs)
  obtain op fl pl where r: "r = (op, fl, pl)" by (cases r)
  have pl: "length pl \<le> unat (payload_cap g)" using Cons.prems(5) by (simp add: r)
  have wrap: "unat start + unat (slot_count g) \<le> 2 ^ 32" using Cons.prems(2,3) by simp
  have free: "in_state g m ST_FREE \<noteq> {}" using Cons.prems(4) by auto
  obtain s rid m1 m2 where c: "claim_free_from m g start = (m1, Some s)" "publish_request m1 g s op fl pl = (m2, Inr rid)"
    and s: "s \<in> in_state g m ST_FREE" and ok2: "mem_ok g a m2" and pub: "published g m2 s (op, fl, pl) rid"
    and v2: "\<And>t. t < slot_count g \<Longrightarrow> t \<noteq> s \<Longrightarrow> view g m2 t = view g m t"
    by (rule claim_publish [OF Cons.prems(1) wrap free pl, of op fl]) blast
  have lt: "s < slot_count g" using s by (simp add: in_state_def)
  have fr: "in_state g m2 ST_FREE = in_state g m ST_FREE - {s}"
  proof (rule set_eqI)
    fix x
    have "v_state (view g m2 s) = ST_SUBMITTED" using pub by (simp add: published_def)
    then show "x \<in> in_state g m2 ST_FREE \<longleftrightarrow> x \<in> in_state g m ST_FREE - {s}"
      using v2 [of x] by (cases "x = s") (auto simp: in_state_def)
  qed
  have "unat (s + 1) = unat s + 1" using lt Cons.prems(3) by (simp add: word_less_nat_alt unat_word_ariths)
  then have next_ok: "unat (s + 1) \<le> unat (slot_count g)" using lt by (simp add: word_less_nat_alt)
  have card: "length reqs \<le> card (in_state g m2 ST_FREE)" using Cons.prems(4) s by (simp add: fr)
  have pls: "list_all (\<lambda>(_, _, pl). length pl \<le> unat (payload_cap g)) reqs" using Cons.prems(5) by simp
  obtain m' slots ids where
    ih: "publish_all g m2 (s + 1) reqs = (m', slots, ids, None)" "length slots = length reqs" "length ids = length reqs"
      "distinct slots" "set slots \<subseteq> in_state g m2 ST_FREE" "mem_ok g a m'"
      and v': "\<forall>t. t < slot_count g \<longrightarrow> t \<notin> set slots \<longrightarrow> view g m' t = view g m2 t"
      and pubs: "list_all (\<lambda>(slot, req, rid). published g m' slot req rid) (zip slots (zip reqs ids))"
    using Cons.IH [OF ok2 next_ok Cons.prems(3) card pls] by blast
  have nin: "s \<notin> set slots" using ih(5) unfolding fr by blast
  then have "view g m' s = view g m2 s" using v' lt by blast
  then have pub': "published g m' s r rid" using pub published_cong unfolding r by blast
  have "publish_all g m start (r # reqs) = (m', s # slots, rid # ids, None)" using c ih(1) by (simp add: r)
  moreover have "set (s # slots) \<subseteq> in_state g m ST_FREE" using ih(5) s unfolding fr by auto
  moreover have "\<forall>t. t < slot_count g \<longrightarrow> t \<notin> set (s # slots) \<longrightarrow> view g m' t = view g m t" using v' v2 by simp
  ultimately show ?case using ih(2-4,6) nin pub' pubs
    by (intro exI [of _ m'] exI [of _ "s # slots"] exI [of _ "rid # ids"] conjI) simp_all
qed simp

section \<open>A batch of reads being served\<close>

text \<open>A job is a slot, the fragment it carries and the id of its request.\<close>

type_synonym job = "u32 \<times> (u32 \<times> nat \<times> nat) \<times> u64"

definition served :: "geom \<Rightarrow> data_arena \<Rightarrow> bytes \<Rightarrow> seg \<Rightarrow> job \<Rightarrow> bool" where
  "served g a G m j \<longleftrightarrow>
     (case j of (slot, (fl, o1, n), rid) \<Rightarrow>
        \<exists>resp. take_response m g slot rid = Inr (Some (ST_OK, resp)) \<and> says a m slot (take n (drop o1 G)) resp)"

definition pending :: "geom \<Rightarrow> u64 \<Rightarrow> u64 \<Rightarrow> seg \<Rightarrow> job \<Rightarrow> bool" where
  "pending g fh offset m j \<longleftrightarrow> (case j of (slot, f, rid) \<Rightarrow> published g m slot (read_request_of fh offset f) rid)"

lemma served_cong:
  assumes "ring_ok g m" "ring_ok g m'" "fst j < slot_count g" "view g m' (fst j) = view g m (fst j)" "bank a m' (fst j) = bank a m (fst j)"
  shows "served g a G m' j = served g a G m j"
  using assms by (cases j) (auto simp: served_def says_def take_response_view)

lemma pending_cong: "view g m' (fst j) = view g m (fst j) \<Longrightarrow> pending g fh offset m' j = pending g fh offset m j"
  by (cases j) (simp add: pending_def published_def)

lemma pending_state: "pending g fh offset m j \<Longrightarrow> v_state (view g m (fst j)) = ST_SUBMITTED"
  by (cases j) (auto simp: pending_def published_def)

lemma served_state:
  "ring_ok g m \<Longrightarrow> fst j < slot_count g \<Longrightarrow> served g a G m j \<Longrightarrow> v_state (view g m (fst j)) = ST_COMPLETED"
  by (cases j) (auto simp: served_def take_response_view Let_def split: if_splits)

text \<open>What holds of a batch while the worker is at it: every job waits or is served, and nothing else waits.\<close>

definition batch_inv :: "geom \<Rightarrow> data_arena \<Rightarrow> u64 \<Rightarrow> u64 \<Rightarrow> bytes \<Rightarrow> job list \<Rightarrow> seg \<Rightarrow> bool" where
  "batch_inv g a fh offset G jobs m \<longleftrightarrow> mem_ok g a m \<and> distinct (map fst jobs) \<and>
     (\<forall>j \<in> set jobs. fst j < slot_count g \<and> (pending g fh offset m j \<or> served g a G m j)) \<and>
     in_state g m ST_SUBMITTED \<subseteq> fst ` set jobs"

definition jobs_ok :: "read_plan \<Rightarrow> u64 \<Rightarrow> job list \<Rightarrow> bool" where
  "jobs_ok plan offset jobs \<longleftrightarrow> (\<forall>(_, (fl, o1, n), _) \<in> set jobs. frag_ok plan (fl, o1, n) \<and> unat offset + o1 + n < 2 ^ 64)"

lemma collect_served:
  assumes "list_all (\<lambda>j. served g a G m j) jobs"
  shows "\<exists>out. collect g m (map (\<lambda>(slot, _, rid). (slot, rid)) jobs) = Inr out \<and>
    list_all2 (\<lambda>(slot, (_, o1, n), _) r. fst r = ST_OK \<and> says a m slot (take n (drop o1 G)) (snd r)) jobs out"
  using assms
proof (induction jobs)
  case (Cons j jobs)
  obtain slot fl o1 n rid where j: "j = (slot, (fl, o1, n), rid)" by (metis prod.collapse)
  obtain resp where "take_response m g slot rid = Inr (Some (ST_OK, resp))" "says a m slot (take n (drop o1 G)) resp"
    using Cons.prems by (auto simp: served_def j)
  moreover obtain out where "collect g m (map (\<lambda>(slot, _, rid). (slot, rid)) jobs) = Inr out"
    "list_all2 (\<lambda>(slot, (_, o1, n), _) r. fst r = ST_OK \<and> says a m slot (take n (drop o1 G)) (snd r)) jobs out"
    using Cons by auto
  ultimately show ?case by (intro exI [of _ "(ST_OK, resp) # out"]) (simp add: j)
qed simp

text \<open>What a slot says is what the copy finds: its bank is within the segment.\<close>

lemma says_carries:
  assumes "mem_ok g a m" and "slot < slot_count g" and "says a m slot d resp"
  shows "carries m d (ST_OK, resp)"
proof (cases "resp = encode_read_resp d")
  case False
  let ?o = "bank_mapping_offset a slot"
  have r: "resp = encode_read_resp_bulk (word_of_nat (length d)) (word_of_nat ?o)" "take (length d) (bank a m slot) = d"
    using assms(3) False by (auto simp: says_def)
  have "length d = length (take (length d) (bank a m slot))" using r(2) by simp
  then have len: "length d \<le> bank_size a" by (simp add: bank_def rd_range_def)
  have fit: "?o + length d \<le> length m" using bank_fits(1) [OF assms(1,2)] len by linarith
  have big: "length m < 2 ^ 64" using ring_okD(4) [OF mem_ok_ring [OF assms(1)]] .
  then have u: "unat (word_of_nat ?o :: u64) = ?o" using fit by (simp add: unat_of_nat)
  have "copy_to m ?o (length d) = Some d"
    using fit big r(2) len by (simp add: copy_to_def in_bounds_def bank_def rd_range_def min_def)
  then show ?thesis using r(1) u by (auto simp: carries_def)
qed (simp add: carries_def)

lemma release_view:
  assumes "mem_ok g a m" and "set slots \<subseteq> {t. t < slot_count g}"
  shows "mem_ok g a (release_slots g slots m) \<and>
    (\<forall>t. t < slot_count g \<longrightarrow> v_state (view g (release_slots g slots m) t) = (if t \<in> set slots then ST_FREE else v_state (view g m t)))"
  using assms
proof (induction slots arbitrary: m)
  case (Cons s slots)
  have lt: "s < slot_count g" using Cons.prems(2) by simp
  have f: "fst (free_slot m g s) = set_state g m s ST_FREE" using mem_ok_ring [OF Cons.prems(1)] lt by (simp add: free_slot_def state_ref_eq)
  have ok: "mem_ok g a (set_state g m s ST_FREE)" using Cons.prems(1) lt by (simp add: view_simps)
  have v: "v_state (view g (set_state g m s ST_FREE) t) = (if t = s then ST_FREE else v_state (view g m t))" if "t < slot_count g" for t
    using Cons.prems(1) lt that by (simp add: view_simps)
  show ?case using Cons.IH [OF ok] Cons.prems(2) f v by (simp add: release_slots_def)
qed (simp add: release_slots_def)

section \<open>A session at rest\<close>

text \<open>Nothing of the session is in flight: every slot is free, nobody is in line, and the director has what \<open>P\<close> says.\<close>

definition session_ok :: "geom \<Rightarrow> data_arena \<Rightarrow> read_plan \<Rightarrow> ('w dsys \<Rightarrow> bool) \<Rightarrow> 'w session \<Rightarrow> bool" where
  "session_ok g a plan P e \<longleftrightarrow> plan_ok g a plan \<and> slot_count g \<noteq> 0 \<and> unat (slot_count g) \<le> 2 ^ 31 \<and> mem_ok g a (se_seg e) \<and>
     (\<forall>t. t < slot_count g \<longrightarrow> v_state (view g (se_seg e) t) = ST_FREE) \<and>
     unat (se_hint e) \<le> unat (slot_count g) \<and> unat (se_next e) \<le> unat (slot_count g) \<and>
     gt_queued (se_gate e) = 0 \<and> 1 \<le> gt_limit (se_gate e) \<and> gt_limit (se_gate e) \<le> unat (slot_count g) \<and> P (se_dir e)"

definition session_ready :: "geom \<Rightarrow> data_arena \<Rightarrow> read_plan \<Rightarrow> ('w dsys \<Rightarrow> bool) \<Rightarrow> 'w session \<Rightarrow> bool" where
  "session_ready g a plan P e \<longleftrightarrow> session_ok g a plan P e \<and> gt_avail (se_gate e) = gt_limit (se_gate e)"

definition session_holding :: "geom \<Rightarrow> data_arena \<Rightarrow> read_plan \<Rightarrow> ('w dsys \<Rightarrow> bool) \<Rightarrow> nat \<Rightarrow> 'w session \<Rightarrow> bool" where
  "session_holding g a plan P k e \<longleftrightarrow> session_ok g a plan P e \<and> 1 \<le> k \<and> se_permits e = k \<and> gt_avail (se_gate e) + k = gt_limit (se_gate e)"

lemma session_acquires:
  assumes "session_ready g a plan P e"
  shows "\<exists>e' k. rc_acquire (session_client g a now) want e = (e', Some k) \<and> session_holding g a plan P k e'"
proof -
  define d where "d = se_gate e"
  have d: "gt_queued d = 0" "1 \<le> gt_avail d" "gt_avail d = gt_limit d"
    using assms by (auto simp: session_ready_def session_ok_def d_def)
  define n where "n = 1 + min ((gt_avail d - 1) - gt_reserve d) (clamp_want d want - 1)"
  have n: "1 \<le> n" "n \<le> gt_avail d" using d(2) by (simp_all add: n_def)
  have "acquire_now d want (se_seg e) g True True now = (d\<lparr>gt_avail := gt_avail d - n\<rparr>, n)"
    using d by (simp add: acquire_now_def gate_take_def Let_def n_def)
  then show ?thesis using assms n d
    by (simp add: session_client_def session_holding_def session_ready_def session_ok_def flip: d_def)
qed

lemma card_slots: "card {t. t < c} = unat c" for c :: u32
proof -
  have "{t. t < c} = word_of_nat ` {0..<unat c}"
  proof (rule set_eqI)
    fix t
    show "t \<in> {t. t < c} \<longleftrightarrow> t \<in> word_of_nat ` {0..<unat c}"
      using unat_u32 [of c] by (auto simp: word_less_nat_alt unat_of_nat_u32 image_iff intro!: bexI [of _ "unat t"])
  qed
  moreover have "inj_on (word_of_nat :: nat \<Rightarrow> u32) {0..<unat c}"
    using unat_u32 [of c] by (intro inj_onI) (metis atLeastLessThan_iff less_trans unat_of_nat_u32)
  ultimately show ?thesis by (simp add: card_image)
qed

lemma job_lists:
  assumes "length slots = length frags" "length ids = length frags" "jobs = zip slots (zip frags ids)"
  shows "map fst jobs = slots" "map (\<lambda>(slot, _, rid). (slot, rid)) jobs = zip slots ids" "map (\<lambda>(_, f, _). f) jobs = frags" "fst ` set jobs = set slots"
proof -
  show f: "map fst jobs = slots" "map (\<lambda>(slot, _, rid). (slot, rid)) jobs = zip slots ids" "map (\<lambda>(_, f, _). f) jobs = frags"
    using assms by (simp_all add: list_eq_iff_nth_eq split_def)
  show "fst ` set jobs = set slots" using f(1) by (metis set_map)
qed

text \<open>A batch just published, and one the worker is done with.\<close>

lemma batch_starts:
  assumes len: "length slots = length frags" "length ids = length frags" and dist: "distinct slots"
    and lt: "set slots \<subseteq> {t. t < slot_count g}" and ok: "mem_ok g a m"
    and rest: "\<And>t. t < slot_count g \<Longrightarrow> t \<notin> set slots \<Longrightarrow> v_state (view g m t) = ST_FREE"
    and pub: "list_all (\<lambda>(slot, req, rid). published g m slot req rid) (zip slots (zip (map (read_request_of fh offset) frags) ids))"
  shows "batch_inv g a fh offset G (zip slots (zip frags ids)) m"
proof -
  let ?jobs = "zip slots (zip frags ids)"
  note js = job_lists [OF len refl]
  have "zip slots (zip (map (read_request_of fh offset) frags) ids) = map (\<lambda>(slot, f, rid). (slot, read_request_of fh offset f, rid)) ?jobs"
    using len by (simp add: list_eq_iff_nth_eq)
  then have "list_all (\<lambda>(slot, f, rid). published g m slot (read_request_of fh offset f) rid) ?jobs"
    using pub by (simp add: list.pred_map comp_def split_def)
  then have pend: "\<forall>j \<in> set ?jobs. pending g fh offset m j" by (simp add: pending_def list_all_iff split_def)
  have lt': "\<forall>j \<in> set ?jobs. fst j < slot_count g"
  proof
    fix j
    assume "j \<in> set ?jobs"
    then have "fst j \<in> fst ` set ?jobs" by (rule imageI)
    then show "fst j < slot_count g" unfolding js(4) using lt by blast
  qed
  have "in_state g m ST_SUBMITTED \<subseteq> set slots"
  proof
    fix t
    assume "t \<in> in_state g m ST_SUBMITTED"
    then show "t \<in> set slots" using rest [of t] by (cases "t \<in> set slots") (auto simp: in_state_def)
  qed
  then show ?thesis unfolding batch_inv_def js(1,4) using ok dist pend lt' by blast
qed

lemma batch_done:
  assumes inv: "batch_inv g a fh offset G jobs m" and none: "in_state g m ST_SUBMITTED = {}"
  shows "list_all (\<lambda>j. served g a G m j) jobs"
proof -
  have "served g a G m j" if j: "j \<in> set jobs" for j
  proof -
    have "fst j < slot_count g" "pending g fh offset m j \<or> served g a G m j" using inv j by (auto simp: batch_inv_def)
    then show ?thesis using none pending_state by (fastforce simp: in_state_def)
  qed
  then show ?thesis by (simp add: list_all_iff)
qed

lemma collected_answers:
  assumes ok: "mem_ok g a m" and plan: "plan_ok g a plan" and js: "map (\<lambda>(_, f, _). f) jobs = frags" "fst ` set jobs \<subseteq> {t. t < slot_count g}"
    and frags: "list_all (frag_ok plan) frags"
    and out: "list_all2 (\<lambda>(slot, (_, o1, n), _) r. fst r = ST_OK \<and> says a m slot (take n (drop o1 G)) (snd r)) jobs out"
  shows "answered_from m G frags out"
proof -
  have small: "n < 2 ^ 31" if "frag_ok plan (fl, o1, n)" for fl o1 n
    using that plan by (auto simp: frag_ok_def plan_ok_def max_read_data_def)
  define Q where "Q = (\<lambda>(_ :: u32, o1, n) r. n < 2 ^ 31 \<and> carries m (take n (drop o1 G)) r)"
  have "list_all2 Q (map (\<lambda>(_, f, _). f) jobs) out"
    unfolding list_all2_map1
  proof (rule list.rel_mono_strong [OF out])
    fix j r
    assume j: "j \<in> set jobs" and r: "r \<in> set out"
      and s: "(\<lambda>(slot, (_, o1, n), _) r. fst r = ST_OK \<and> says a m slot (take n (drop o1 G)) (snd r)) j r"
    obtain slot fl o1 n rid where e: "j = (slot, (fl, o1, n), rid)" by (metis prod.collapse)
    have "(fl, o1, n) \<in> set frags" using j js(1) e by force
    then have "n < 2 ^ 31" using small frags by (auto simp: list_all_iff)
    moreover have "slot < slot_count g" using j js(2) e by force
    moreover have "r = (ST_OK, snd r)" using s e by (simp add: prod_eq_iff)
    ultimately show "Q (case j of (_, f, _) \<Rightarrow> f) r"
      using says_carries [OF ok, of slot "take n (drop o1 G)" "snd r"] s e by (simp add: Q_def)
  qed
  then show ?thesis by (simp add: answered_from_def js(1) Q_def)
qed

section \<open>Serving a read, from the inside\<close>

lemma encode_lengths [simp]:
  "length (encode_read_req r) = 24" "length (encode_read_resp d) = 8 + length d" "length (encode_read_resp_bulk n off) = 16"
  by (simp_all add: encode_read_req_def encode_read_resp_def encode_read_resp_bulk_def)

context file_backend
begin

lemma director_read_file:
  assumes "file_open fh pv bh s" and "live (ds_world s)" and d: "d = take (length buf) (drop (unat off) (body (ds_world s)))"
  shows "\<exists>buf'. director_read fh off buf s = (s, buf', Inr (length d)) \<and> length buf' = length buf \<and> take (length d) buf' = d"
proof -
  have n: "length d = min (length (body (ds_world s)) - unat off) (length buf)" by (simp add: d)
  have "take (length d) (drop (unat off) (body (ds_world s))) = d" by (simp add: d min_def)
  with reads [OF assms(2) n] obtain buf' where "pv_read_at pv bh off buf (ds_world s) = (ds_world s, buf', Inr (length d))"
    "length buf' = length buf" "take (length d) buf' = d" by auto
  then show ?thesis using assms(1) by (auto simp: file_open_def director_read_def)
qed

text \<open>A read into a bank: the bank holds what the file has there.\<close>

lemma fill_bank_file:
  assumes ok: "mem_ok g a m" and t: "t < slot_count g" and n: "n \<le> bank_size a"
    and fo: "file_open fh pv bh s" "live (ds_world s)" and d: "d = take n (drop (unat off) (body (ds_world s)))"
  shows "\<exists>m'. fill_bank m a t n (director_read fh off) s = (m', s, Inr (bank_mapping_offset a t, length d)) \<and> mem_ok g a m' \<and>
    (\<forall>u. u < slot_count g \<longrightarrow> view g m' u = view g m u \<and> (u \<noteq> t \<longrightarrow> bank a m' u = bank a m u)) \<and> take (length d) (bank a m' t) = d"
proof (cases "n = 0")
  case True
  then show ?thesis using ok d by (simp add: fill_bank_def Let_def)
next
  case False
  let ?o = "bank_mapping_offset a t" and ?buf = "take n (drop (bank_mapping_offset a t) m)"
  have fit: "?o + n \<le> length m" using bank_fits(1) [OF ok t] n by linarith
  have inb: "in_bounds m ?o n" using fit ring_okD(4) [of g m] ok by (simp add: in_bounds_def)
  have len: "length ?buf = n" using fit by simp
  obtain buf' where r: "director_read fh off ?buf s = (s, buf', Inr (length d))" "length buf' = n" "take (length d) buf' = d"
    using director_read_file [OF fo, of d ?buf off] len d by auto
  have w: "fst (write_bytes m ?o buf') = overwrite m ?o buf'" using write_bank_eq [OF ok t] n r(2) by simp
  have "fill_bank m a t n (director_read fh off) s = (overwrite m ?o buf', s, Inr (?o, length d))"
    using False n inb r len d by (simp add: fill_bank_def Let_def with_mut_bytes_def bank_mapping_offset_def [symmetric])
  moreover have "mem_ok g a (overwrite m ?o buf')" using ok mem_ok_write(4) [of g a m ?o buf'] w by simp
  moreover have "view g (overwrite m ?o buf') u = view g m u" "bank a (overwrite m ?o buf') u = (if u = t then buf' @ drop n (bank a m t) else bank a m u)"
    if "u < slot_count g" for u
    using view_bank [OF ok t that, of buf'] bank_write [OF ok t that, of buf'] n r(2) w by simp_all
  moreover have "take (length d) (buf' @ drop n (bank a m t)) = d" using r d by simp
  ultimately show ?thesis using t by (intro exI [of _ "overwrite m ?o buf'"]) simp
qed

lemma serve_read_file:
  assumes ok: "mem_ok g a m" and t: "t < slot_count g" and plan: "plan_ok g a plan" "frag_ok plan (fl, o1, n)"
    and fo: "file_open fh pv bh s" "live (ds_world s)" and fit: "unat offset + o1 + n < 2 ^ 64"
    and d: "d = take n (drop o1 (drop (unat offset) (body (ds_world s))))"
  shows "\<exists>m' resp. director_handler g a t OP_READ fl (snd (snd (read_request_of fh offset (fl, o1, n)))) s m = (s, m', ST_OK, resp) \<and>
    mem_ok g a m' \<and> (\<forall>u. u < slot_count g \<longrightarrow> view g m' u = view g m u \<and> (u \<noteq> t \<longrightarrow> bank a m' u = bank a m u)) \<and>
    length resp \<le> unat (payload_cap g) \<and> says a m' t d resp"
proof -
  define bulk where "bulk \<longleftrightarrow> fl AND FLAG_READ_BULK \<noteq> 0 \<or> word_of_nat n \<ge> BULK_THRESHOLD"
  have fl: "fl = FLAG_READ_BULK \<and> n \<le> bulk_chunk plan \<or> fl = 0 \<and> n \<le> inline_chunk plan \<and> n < bulk_threshold plan"
    using plan(2) by (simp add: frag_ok_def)
  have n: "n < 2 ^ 32" using fl plan(1) by (auto simp: plan_ok_def max_read_data_def)
  then have un: "unat (word_of_nat n :: u32) = n" by (simp add: unat_of_nat_u32)
  have bank: "n \<le> bank_size a" if bulk
    using that fl plan(1) un by (auto simp: bulk_def plan_ok_def word_le_nat_alt)
  have inl: "n \<le> max_read_data (payload_cap g)" if "\<not> bulk"
    using that fl plan(1) by (auto simp: bulk_def plan_ok_def FLAG_READ_BULK_def)
  have uo: "unat (offset + word_of_nat o1) = unat offset + o1"
    using fit by (simp add: unat_word_ariths unat_of_nat)
  then have d': "d = take n (drop (unat (offset + word_of_nat o1)) (body (ds_world s)))" by (simp add: d add.commute)
  have h: "director_handler g a t OP_READ fl (snd (snd (read_request_of fh offset (fl, o1, n)))) s m =
     (case (if bulk then Some (a, t) else None) of
        Some (a, slot) \<Rightarrow>
          (case fill_bank m a slot (min (bank_size a) n) (director_read fh (offset + word_of_nat o1)) s of
             (m, s, Inr (off, n)) \<Rightarrow> (s, m, ST_OK, encode_read_resp_bulk (word_of_nat n) (word_of_nat off))
           | (m, s, Inl st) \<Rightarrow> (s, m, st, []))
      | None \<Rightarrow>
          (case director_read fh (offset + word_of_nat o1) (replicate (min n (max_read_data (payload_cap g))) 0) s of
             (s, buf, Inr n) \<Rightarrow> (s, m, ST_OK, encode_read_resp (take n buf))
           | (s, buf, Inl st) \<Rightarrow> (s, m, st, [])))"
    by (simp only: director_handler_def dispatch_director_def read_request_of_def handle_req_back serve_read_def prod.case snd_conv
        option.case Let_def read_req.select_convs bulk_def un simp_thms if_True)
  show ?thesis
  proof (cases bulk)
    case True
    obtain m' where f: "fill_bank m a t n (director_read fh (offset + word_of_nat o1)) s = (m', s, Inr (bank_mapping_offset a t, length d))"
      "mem_ok g a m'" "\<forall>u. u < slot_count g \<longrightarrow> view g m' u = view g m u \<and> (u \<noteq> t \<longrightarrow> bank a m' u = bank a m u)"
      "take (length d) (bank a m' t) = d"
      using fill_bank_file [OF ok t bank [OF True] fo d'] by blast
    then show ?thesis unfolding h using True bank [OF True] plan(1) by (simp add: says_def plan_ok_def min_absorb2)
  next
    case False
    obtain buf' where "director_read fh (offset + word_of_nat o1) (replicate n 0) s = (s, buf', Inr (length d))" "take (length d) buf' = d"
      using director_read_file [OF fo, of d "replicate n 0" "offset + word_of_nat o1"] d' by auto
    moreover have "8 + length d \<le> unat (payload_cap g)"
      using inl [OF False] plan(1) by (auto simp: d max_read_data_def plan_ok_def)
    ultimately show ?thesis unfolding h using False inl [OF False] ok by (simp add: says_def min_absorb1)
  qed
qed

text \<open>One job served: its request is read back, answered and completed, and nothing of the other slots changes.\<close>

lemma serve_job:
  assumes ok: "mem_ok g a m" and t: "t < slot_count g" and plan: "plan_ok g a plan" "frag_ok plan (fl, o1, n)"
    and fo: "file_open fh pv bh s" "live (ds_world s)" and fit: "unat offset + o1 + n < 2 ^ 64"
    and pub: "pending g fh offset m (t, (fl, o1, n), rid)" and take_t: "server_take_from m g next = (set_state g m t ST_PROCESSING, Some t)"
  obtains m' where "serve_one g (director_handler g a) next s m = (t + 1, s, m', Inr True)" "mem_ok g a m'"
    "served g a (drop (unat offset) (body (ds_world s))) m' (t, (fl, o1, n), rid)"
    "\<And>u. u < slot_count g \<Longrightarrow> u \<noteq> t \<Longrightarrow> view g m' u = view g m u \<and> bank a m' u = bank a m u"
proof -
  let ?m1 = "set_state g m t ST_PROCESSING"
  define pl where "pl = snd (snd (read_request_of fh offset (fl, o1, n)))"
  have ok1: "mem_ok g a ?m1" using ok t by (simp add: view_simps)
  have v1: "view g ?m1 u = (if u = t then (view g m t)\<lparr>v_state := ST_PROCESSING\<rparr> else view g m u)" "bank a ?m1 u = bank a m u" if "u < slot_count g" for u
    using ok t that by (simp_all add: view_simps)
  have "read_request_of fh offset (fl, o1, n) = (OP_READ, fl, pl)" and pll: "length pl = 24" by (simp_all add: read_request_of_def pl_def)
  then have req: "published g m t (OP_READ, fl, pl) rid" using pub by (simp add: pending_def)
  have "24 \<le> unat (payload_cap g)" using plan(1) by (simp add: plan_ok_def)
  then have rd: "read_request ?m1 g t = Some (OP_READ, fl, rid, pl)"
    using req pll by (simp add: read_request_view [OF mem_ok_ring [OF ok1] t] v1 [OF t] published_def Let_def)
  obtain m2 resp where h: "director_handler g a t OP_READ fl pl s ?m1 = (s, m2, ST_OK, resp)" and ok2: "mem_ok g a m2"
    and v2: "\<forall>u. u < slot_count g \<longrightarrow> view g m2 u = view g ?m1 u \<and> (u \<noteq> t \<longrightarrow> bank a m2 u = bank a ?m1 u)"
    and len: "length resp \<le> unat (payload_cap g)" and says2: "says a m2 t (take n (drop o1 (drop (unat offset) (body (ds_world s))))) resp"
    using serve_read_file [OF ok1 t plan fo fit refl] unfolding pl_def by blast
  have st2: "v_state (view g m2 t) = ST_PROCESSING" "v_id (view g m2 t) = rid"
    using v2 t v1 [OF t] req by (simp_all add: published_def)
  obtain m3 where c: "server_complete m2 g t rid ST_OK resp = (m3, Inr Delivered)" and ok3: "ring_ok g m3"
    and v3: "\<And>u. u < slot_count g \<Longrightarrow> u \<noteq> t \<Longrightarrow> view g m3 u = view g m2 u"
    and r3: "take_response m3 g t rid = Inr (Some (on_wire g ST_OK resp))"
    by (rule server_complete_view [OF mem_ok_ring [OF ok2] t st2, of ST_OK resp]) blast
  have b3: "mem_ok g a m3" "\<And>u. u < slot_count g \<Longrightarrow> bank a m3 u = bank a m2 u"
    using complete_banks(1) [OF ok2 t st2 len, of ST_OK] complete_banks(2) [OF ok2 t st2 len, of _ ST_OK] c by simp_all
  show thesis
  proof (rule that [OF _ b3(1)])
    show "serve_one g (director_handler g a) next s m = (t + 1, s, m3, Inr True)"
      using take_t rd h c by (simp add: serve_one_def Let_def)
    show "served g a (drop (unat offset) (body (ds_world s))) m3 (t, (fl, o1, n), rid)"
      using r3 len says2 b3(2) [OF t] by (auto simp: served_def on_wire_def says_def)
    show "view g m3 u = view g m u \<and> bank a m3 u = bank a m u" if "u < slot_count g" "u \<noteq> t" for u
      using v3 [OF that] b3(2) [OF that(1)] v2 v1 [OF that(1)] that by simp
  qed
qed

text \<open>A turn of the worker: nothing waits, or one more job is served.\<close>

lemma serve_turn:
  assumes inv: "batch_inv g a fh offset (drop (unat offset) (body (ds_world s))) jobs m" and jobs: "jobs_ok plan offset jobs" and plan: "plan_ok g a plan"
    and fo: "file_open fh pv bh s" "live (ds_world s)" and cnt: "slot_count g \<noteq> 0" "unat (slot_count g) \<le> 2 ^ 31" and nx: "unat next \<le> unat (slot_count g)"
  obtains "serve_one g (director_handler g a) next s m = (next, s, m, Inr False)" "in_state g m ST_SUBMITTED = {}"
  | t m' where "serve_one g (director_handler g a) next s m = (t + 1, s, m', Inr True)" "unat (t + 1) \<le> unat (slot_count g)"
      "batch_inv g a fh offset (drop (unat offset) (body (ds_world s))) jobs m'" "t \<in> in_state g m ST_SUBMITTED"
      "in_state g m' ST_SUBMITTED = in_state g m ST_SUBMITTED - {t}"
      "\<And>u. u < slot_count g \<Longrightarrow> u \<notin> fst ` set jobs \<Longrightarrow> view g m' u = view g m u"
proof -
  let ?G = "drop (unat offset) (body (ds_world s))"
  have ok: "mem_ok g a m" using inv by (simp add: batch_inv_def)
  have wrap: "unat next + unat (slot_count g) \<le> 2 ^ 32" using cnt(2) nx by simp
  show thesis
  proof (rule take_view [OF mem_ok_ring [OF ok] cnt(1) wrap])
    assume "server_take_from m g next = (m, None)" "in_state g m ST_SUBMITTED = {}"
    then show thesis using that(1) by (simp add: serve_one_def)
  next
    fix t
    assume tk: "server_take_from m g next = (set_state g m t ST_PROCESSING, Some t)" and t: "t \<in> in_state g m ST_SUBMITTED"
    then have lt: "t < slot_count g" by (simp add: in_state_def)
    obtain fl o1 n rid where j: "(t, (fl, o1, n), rid) \<in> set jobs"
      using t inv unfolding batch_inv_def by (auto simp: subset_iff)
    have "\<not> served g a ?G m (t, (fl, o1, n), rid)"
      using served_state [OF mem_ok_ring [OF ok], of "(t, (fl, o1, n), rid)" a ?G] t lt by (auto simp: in_state_def)
    then have pend: "pending g fh offset m (t, (fl, o1, n), rid)" using inv j unfolding batch_inv_def by blast
    have fr: "frag_ok plan (fl, o1, n)" "unat offset + o1 + n < 2 ^ 64" using jobs j unfolding jobs_ok_def by auto
    obtain m' where sv: "serve_one g (director_handler g a) next s m = (t + 1, s, m', Inr True)" and ok': "mem_ok g a m'"
      and sd: "served g a ?G m' (t, (fl, o1, n), rid)"
      and v': "\<And>u. u < slot_count g \<Longrightarrow> u \<noteq> t \<Longrightarrow> view g m' u = view g m u \<and> bank a m' u = bank a m u"
      by (rule serve_job [OF ok lt plan fr(1) fo fr(2) pend tk]) blast
    have st': "v_state (view g m' t) = ST_COMPLETED" using served_state [OF mem_ok_ring [OF ok'] _ sd] lt by simp
    have sub: "in_state g m' ST_SUBMITTED = in_state g m ST_SUBMITTED - {t}"
    proof (rule set_eqI)
      fix u
      show "u \<in> in_state g m' ST_SUBMITTED \<longleftrightarrow> u \<in> in_state g m ST_SUBMITTED - {t}"
        using v' [of u] st' by (cases "u = t") (auto simp: in_state_def)
    qed
    have each: "fst i < slot_count g \<and> (pending g fh offset m' i \<or> served g a ?G m' i)" if i: "i \<in> set jobs" for i
    proof (cases "fst i = t")
      case True
      have "distinct (map fst jobs)" using inv by (simp add: batch_inv_def)
      then have "i = (t, (fl, o1, n), rid)" using i j True by (metis eq_key_imp_eq_value prod.collapse)
      then show ?thesis using sd lt by simp
    next
      case False
      have li: "fst i < slot_count g" and or: "pending g fh offset m i \<or> served g a ?G m i" using inv i by (auto simp: batch_inv_def)
      have "view g m' (fst i) = view g m (fst i)" "bank a m' (fst i) = bank a m (fst i)" using v' [OF li False] by simp_all
      then show ?thesis
        using or li pending_cong [of g m' i m] served_cong [OF mem_ok_ring [OF ok] mem_ok_ring [OF ok'] li, of a] by blast
    qed
    have "batch_inv g a fh offset ?G jobs m'"
      using inv ok' each sub unfolding batch_inv_def by blast
    moreover have "unat (t + 1) \<le> unat (slot_count g)" using lt cnt(2) by (simp add: word_less_nat_alt unat_word_ariths)
    moreover have "t \<in> fst ` set jobs" using j by force
    ultimately show thesis using that(2) [OF sv] t sub v' by metis
  qed
qed

text \<open>As many turns as there are slots serve the whole batch.\<close>

lemma worker_serves:
  assumes jobs: "jobs_ok plan offset jobs" and plan: "plan_ok g a plan" and fo: "file_open fh pv bh s" "live (ds_world s)"
    and cnt: "slot_count g \<noteq> 0" "unat (slot_count g) \<le> 2 ^ 31"
    and inv: "batch_inv g a fh offset (drop (unat offset) (body (ds_world s))) jobs m" and nx: "unat next \<le> unat (slot_count g)"
    and k: "card (in_state g m ST_SUBMITTED) \<le> k"
  shows "\<exists>next' m'. worker_turns g a k next s m = (next', s, m') \<and> unat next' \<le> unat (slot_count g) \<and>
    batch_inv g a fh offset (drop (unat offset) (body (ds_world s))) jobs m' \<and> in_state g m' ST_SUBMITTED = {} \<and>
    (\<forall>u. u < slot_count g \<longrightarrow> u \<notin> fst ` set jobs \<longrightarrow> view g m' u = view g m u)"
  using inv nx k
proof (induction k arbitrary: "next" m)
  case 0
  then show ?case by simp
next
  case (Suc k)
  show ?case
  proof (rule serve_turn [OF Suc.prems(1) jobs plan fo cnt Suc.prems(2)])
    assume "serve_one g (director_handler g a) next s m = (next, s, m, Inr False)" "in_state g m ST_SUBMITTED = {}"
    then show ?thesis using Suc.IH [OF Suc.prems(1,2)] by simp
  next
    fix t m'
    assume sv: "serve_one g (director_handler g a) next s m = (t + 1, s, m', Inr True)" and nx': "unat (t + 1) \<le> unat (slot_count g)"
      and inv': "batch_inv g a fh offset (drop (unat offset) (body (ds_world s))) jobs m'" and t: "t \<in> in_state g m ST_SUBMITTED"
      and sub: "in_state g m' ST_SUBMITTED = in_state g m ST_SUBMITTED - {t}"
      and v: "\<And>u. u < slot_count g \<Longrightarrow> u \<notin> fst ` set jobs \<Longrightarrow> view g m' u = view g m u"
    have "card (in_state g m' ST_SUBMITTED) \<le> k" using sub t Suc.prems(3) by simp
    from Suc.IH [OF inv' nx' this] show ?thesis using sv v by auto
  qed
qed

text \<open>A batch of reads from a session at rest is answered in full, and the session is at rest again once its slots are freed.\<close>

lemma submit_reads:
  assumes ok: "session_ok g a plan (\<lambda>s. file_open fh pv bh s \<and> live (ds_world s) \<and> body (ds_world s) = F) e"
    and frags: "frags \<noteq> []" "length frags \<le> unat (slot_count g)" "list_all (frag_ok plan) frags"
    and fit: "list_all (\<lambda>(_, o1, n). unat offset + o1 + n < 2 ^ 64) frags"
  obtains hint nx m slots out where
    "submit_many g a (map (read_request_of fh offset) frags) e = (e\<lparr>se_hint := hint, se_next := nx, se_seg := m\<rparr>, Inr (out, slots))"
    "unat hint \<le> unat (slot_count g)" "unat nx \<le> unat (slot_count g)" "mem_ok g a (release_slots g slots m)"
    "\<And>t. t < slot_count g \<Longrightarrow> v_state (view g (release_slots g slots m) t) = ST_FREE"
    "answered_from m (drop (unat offset) F) frags out"
proof -
  let ?reqs = "map (read_request_of fh offset) frags" and ?G = "drop (unat offset) F"
  have plan: "plan_ok g a plan" and cnt: "slot_count g \<noteq> 0" "unat (slot_count g) \<le> 2 ^ 31" and mok: "mem_ok g a (se_seg e)"
    and free: "\<And>t. t < slot_count g \<Longrightarrow> v_state (view g (se_seg e) t) = ST_FREE"
    and hn: "unat (se_hint e) \<le> unat (slot_count g)" "unat (se_next e) \<le> unat (slot_count g)"
    and fo: "file_open fh pv bh (se_dir e)" "live (ds_world (se_dir e))" and F: "body (ds_world (se_dir e)) = F"
    using ok by (auto simp: session_ok_def)
  have all_free: "in_state g (se_seg e) ST_FREE = {t. t < slot_count g}" using free by (auto simp: in_state_def)
  have pls: "list_all (\<lambda>(_, _, pl). length pl \<le> unat (payload_cap g)) ?reqs"
    using plan by (auto simp: list_all_iff read_request_of_def plan_ok_def)
  have card: "length ?reqs \<le> card (in_state g (se_seg e) ST_FREE)" using frags(2) by (simp add: all_free card_slots)
  obtain m1 slots ids where p: "publish_all g (se_seg e) (se_hint e) ?reqs = (m1, slots, ids, None)"
    and len: "length slots = length frags" "length ids = length frags" and dist: "distinct slots"
    and sl: "set slots \<subseteq> in_state g (se_seg e) ST_FREE" and ok1: "mem_ok g a m1"
    and v1: "\<forall>t. t < slot_count g \<longrightarrow> t \<notin> set slots \<longrightarrow> view g m1 t = view g (se_seg e) t"
    and pub: "list_all (\<lambda>(slot, req, rid). published g m1 slot req rid) (zip slots (zip ?reqs ids))"
    using publish_all_view [OF mok hn(1) cnt(2) card pls] by auto
  define jobs where "jobs = zip slots (zip frags ids)"
  note js = job_lists [OF len jobs_def]
  have lt: "set slots \<subseteq> {t. t < slot_count g}" using sl all_free by simp
  have inv1: "batch_inv g a fh offset ?G jobs m1"
    unfolding jobs_def by (rule batch_starts [OF len dist lt ok1 _ pub]) (use v1 free in simp)
  have jok: "jobs_ok plan offset jobs"
    using frags(3) fit unfolding jobs_ok_def js(3) [symmetric] by (fastforce simp: list_all_iff)
  have "card (in_state g m1 ST_SUBMITTED) \<le> card {t. t < slot_count g}" by (rule card_mono) (auto simp: in_state_def)
  then have k: "card (in_state g m1 ST_SUBMITTED) \<le> unat (slot_count g)" by (simp add: card_slots)
  obtain nx m2 where w: "worker_turns g a (unat (slot_count g)) (se_next e) (se_dir e) m1 = (nx, se_dir e, m2)"
    "unat nx \<le> unat (slot_count g)" and inv2: "batch_inv g a fh offset ?G jobs m2" "in_state g m2 ST_SUBMITTED = {}"
    and v2: "\<forall>u. u < slot_count g \<longrightarrow> u \<notin> set slots \<longrightarrow> view g m2 u = view g m1 u"
    using worker_serves [OF jok plan fo cnt _ hn(2) k] inv1 F js(4) by auto
  have ok2: "mem_ok g a m2" using inv2(1) by (simp add: batch_inv_def)
  obtain out where c: "collect g m2 (zip slots ids) = Inr out"
    and ans: "list_all2 (\<lambda>(slot, (_, o1, n), _) r. fst r = ST_OK \<and> says a m2 slot (take n (drop o1 ?G)) (snd r)) jobs out"
    using collect_served [OF batch_done [OF inv2]] js(2) by auto
  have "\<not> (\<exists>(_, _, p) \<in> set ?reqs. length p > unat (payload_cap g))" using pls by (fastforce simp: list_all_iff)
  then have s: "submit_many g a ?reqs e = (e\<lparr>se_hint := hd slots, se_next := nx, se_seg := m2\<rparr>, Inr (out, slots))"
    using frags(1) p w(1) c by (simp add: submit_many_def Let_def)
  have "hd slots < slot_count g" using len(1) frags(1) lt by (cases slots) auto
  then have h: "unat (hd slots) \<le> unat (slot_count g)" by (simp add: word_less_nat_alt)
  note rel = release_view [OF ok2 lt]
  have "answered_from m2 ?G frags out" by (rule collected_answers [OF ok2 plan js(3) _ frags(3) ans]) (use js(4) lt in simp)
  then show thesis using that [OF s h w(2)] rel v2 v1 free by simp
qed

lemma session_submits:
  assumes h: "session_holding g a plan (\<lambda>s. file_open fh pv bh s \<and> live (ds_world s) \<and> body (ds_world s) = F) k e"
    and frags: "frags \<noteq> []" "length frags \<le> max k 1" "list_all (frag_ok plan) frags"
    and fit: "list_all (\<lambda>(_, o1, n). unat offset + o1 + n < 2 ^ 64) frags"
  shows "\<exists>e' rs held. rc_submit (session_client g a now) (map (read_request_of fh offset) frags) e = (e', Inr (rs, held)) \<and>
    answered_from (rc_seg (session_client g a now) e') (drop (unat offset) F) frags rs \<and>
    session_ready g a plan (\<lambda>s. file_open fh pv bh s \<and> live (ds_world s) \<and> body (ds_world s) = F)
      (rc_drop (session_client g a now) (rc_release (session_client g a now) held e'))"
proof -
  have ok: "session_ok g a plan (\<lambda>s. file_open fh pv bh s \<and> live (ds_world s) \<and> body (ds_world s) = F) e"
    and k: "1 \<le> k" "se_permits e = k" "gt_avail (se_gate e) + k = gt_limit (se_gate e)"
    using h by (simp_all add: session_holding_def)
  have "length frags \<le> unat (slot_count g)" using frags(2) k ok by (simp add: session_ok_def)
  then obtain hint nx m slots out where
    s: "submit_many g a (map (read_request_of fh offset) frags) e = (e\<lparr>se_hint := hint, se_next := nx, se_seg := m\<rparr>, Inr (out, slots))"
      "unat hint \<le> unat (slot_count g)" "unat nx \<le> unat (slot_count g)" "mem_ok g a (release_slots g slots m)"
      and fr: "\<And>t. t < slot_count g \<Longrightarrow> v_state (view g (release_slots g slots m) t) = ST_FREE"
      and ans: "answered_from m (drop (unat offset) F) frags out"
    by (rule submit_reads [OF ok frags(1) _ frags(3) fit]) blast
  have d: "permits_drop (se_gate e) k True now = (se_gate e)\<lparr>gt_avail := gt_limit (se_gate e)\<rparr>"
    using k ok by (simp add: permits_drop_def gate_release_def hand_out_def session_ok_def)
  have "session_ready g a plan (\<lambda>s. file_open fh pv bh s \<and> live (ds_world s) \<and> body (ds_world s) = F)
      (e\<lparr>se_hint := hint, se_next := nx, se_seg := release_slots g slots m, se_gate := (se_gate e)\<lparr>gt_avail := gt_limit (se_gate e)\<rparr>, se_permits := 0\<rparr>)"
    using ok s(2-4) fr by (simp add: session_ready_def session_ok_def)
  then show ?thesis using s(1) ans d k(2) by (simp add: session_client_def)
qed

end

end
