(* ===== verification/Read_Path.thy ===== *)
theory Read_Path
  imports Session
begin

unbundle bit_operations_syntax

text \<open>
  A read from one end to the other: the director lays out the ring and its arena (\<^verbatim>\<open>vfs-director/src/ipc.rs\<close>), the shim
  cuts the read up (\<^verbatim>\<open>vfs-shim/src/director.rs\<close>), and the gate, the ring, the dispatcher, the director and the memory
  provider carry it. The locale \<open>file_client\<close> is interpreted on the session over the memory provider.
\<close>

section \<open>The two ends\<close>

definition DEFAULT_SLOT_COUNT :: u32 where "DEFAULT_SLOT_COUNT = 32"

definition clamp_workers :: "nat \<Rightarrow> nat" where
  "clamp_workers n = min (max n 1) (unat DEFAULT_SLOT_COUNT)"

definition ring_bytes :: "u32 \<Rightarrow> nat" where
  "ring_bytes cap = RING_HEADER_SIZE + unat DEFAULT_SLOT_COUNT * align8 (32 + unat cap)"

definition map_size :: "u32 \<Rightarrow> nat" where
  "map_size cap = max ((ring_bytes cap + DEFAULT_ARENA_BYTES + 0xFFFF) div 0x10000 * 0x10000) (2 * 1024 * 1024)"

text \<open>What starting the director does to a mapping: the ring at its start, the arena behind it, and the worker count.\<close>

definition start_ring :: "u32 \<Rightarrow> nat \<Rightarrow> seg \<Rightarrow> seg \<times> (ipc_error + geom \<times> data_arena)" where
  "start_ring cap workers m =
     (case ring_init m DEFAULT_SLOT_COUNT cap of
        (m, Inl e) \<Rightarrow> (m, Inl e)
      | (m, Inr g) \<Rightarrow>
          (set_worker_hint m (word_of_nat (clamp_workers workers)),
           Inr (g, arena_new (ring_bytes cap) DEFAULT_ARENA_BYTES (unat (slot_count g)))))"

definition PIPELINE_DEPTH :: nat where "PIPELINE_DEPTH = 4"
definition PIPELINE_DEPTH_STREAM :: nat where "PIPELINE_DEPTH_STREAM = 8"
definition STREAM_BYTES :: nat where "STREAM_BYTES = 4 * 1024 * 1024"

definition bulk_bank_bytes :: "geom \<Rightarrow> u32 \<Rightarrow> nat \<Rightarrow> nat" where
  "bulk_bank_bytes g cap arena_len =
     (if arena_len = 0 then unat cap - 8
      else (let slots = max (unat (slot_count g)) 1 in min (max (arena_len div slots) (256 * 1024)) (1024 * 1024)))"

definition shim_plan :: "geom \<Rightarrow> u32 \<Rightarrow> nat \<Rightarrow> read_plan" where
  "shim_plan g cap arena_len =
     \<lparr>bulk_threshold = (if arena_len > 0 then unat BULK_THRESHOLD else 2 ^ 64 - 1), bulk_chunk = bulk_bank_bytes g cap arena_len,
      inline_chunk = unat cap - 8, depth = PIPELINE_DEPTH, depth_stream = PIPELINE_DEPTH_STREAM, stream_bytes = STREAM_BYTES\<rparr>"

text \<open>A session on a new ring: nothing held, nothing asked.\<close>

definition new_session :: "geom \<Rightarrow> seg \<Rightarrow> 'w dsys \<Rightarrow> 'w session" where
  "new_session g m s = \<lparr>se_gate = for_ring m g, se_permits = 0, se_dir = s, se_seg = m, se_hint = 0, se_next = 0\<rparr>"

section \<open>The session reads files in memory\<close>

definition holds_file :: "u64 \<Rightarrow> u64 \<Rightarrow> rstr \<Rightarrow> bytes \<Rightarrow> memory dsys \<Rightarrow> bool" where
  "holds_file fh h path F s \<longleftrightarrow> file_open fh memory_provider h s \<and> mem_at h path (ds_world s) \<and> body_of (mem_files (ds_world s)) path = F"

interpretation mems: file_client "session_client g a now" plan fh F "session_ready g a plan (holds_file fh h path F)"
  "session_holding g a plan (holds_file fh h path F)" for g a now plan fh h path F
proof
  fix e
  assume "session_ready g a plan (holds_file fh h path F) e"
  then show "0 < bulk_chunk plan \<and> 0 < inline_chunk plan" by (simp add: session_ready_def session_ok_def plan_ok_def)
next
  fix e want
  assume "session_ready g a plan (holds_file fh h path F) e"
  then show "\<exists>e' k. rc_acquire (session_client g a now) want e = (e', Some k) \<and> session_holding g a plan (holds_file fh h path F) k e'"
    by (rule session_acquires)
next
  fix k e and offset :: u64 and frags :: "(u32 \<times> nat \<times> nat) list"
  assume a: "session_holding g a plan (holds_file fh h path F) k e" "frags \<noteq> []" "length frags \<le> max k 1" "list_all (frag_ok plan) frags"
    "list_all (\<lambda>(_, o1, n). unat offset + o1 + n < 2 ^ 64) frags"
  have P: "holds_file fh h path F = (\<lambda>s. file_open fh memory_provider h s \<and> mem_at h path (ds_world s) \<and> body_of (mem_files (ds_world s)) path = F)"
    by (simp add: holds_file_def fun_eq_iff)
  show "\<exists>e' rs held. rc_submit (session_client g a now) (map (read_request_of fh offset) frags) e = (e', Inr (rs, held)) \<and>
      answered_from (rc_seg (session_client g a now) e') (drop (unat offset) F) frags rs \<and>
      session_ready g a plan (holds_file fh h path F) (rc_drop (session_client g a now) (rc_release (session_client g a now) held e'))"
    using memf.session_submits [OF a(1) [unfolded P] a(2-5)] unfolding P .
qed

lemma start_ring_ok:
  assumes cap: "24 \<le> unat cap" "unat cap \<le> 2 ^ 31" and len: "length m = map_size cap"
  obtains m' g a where "start_ring cap workers m = (m', Inr (g, a))" "slot_count g = 32" "payload_cap g = cap" "bank_size a = 2 ^ 20"
    "mem_ok g a m'" "\<And>t. t < slot_count g \<Longrightarrow> v_state (view g m' t) = ST_FREE"
proof -
  let ?S = "align8 (32 + unat cap)"
  have "?S = (32 + unat cap + 7) div 8 * 8" using cap(2) by (intro align8_eq) simp
  also have "\<dots> \<le> 32 + unat cap + 7" by (rule div_times_less_eq_dividend)
  finally have S: "?S < 2 ^ 32" using cap(2) by simp
  have n32: "unat DEFAULT_SLOT_COUNT = 32" by (simp add: DEFAULT_SLOT_COUNT_def)
  have rb: "ring_bytes cap = 48 + 32 * ?S" by (simp add: ring_bytes_def n32 size_defs)
  have up: "x \<le> (x + 0xFFFF) div 0x10000 * 0x10000" for x :: nat
    using mult_div_mod_eq [of "0x10000" "x + 0xFFFF"] mod_less_divisor [of "0x10000" "x + 0xFFFF"] by linarith
  have down: "(x + 0xFFFF) div 0x10000 * 0x10000 \<le> x + 0xFFFF" for x :: nat by (rule div_times_less_eq_dividend)
  have fit: "ring_bytes cap + DEFAULT_ARENA_BYTES \<le> length m"
    using up [of "ring_bytes cap + DEFAULT_ARENA_BYTES"] len by (simp add: map_size_def)
  have big: "length m < 2 ^ 64"
    using down [of "ring_bytes cap + DEFAULT_ARENA_BYTES"] len S rb by (simp add: map_size_def DEFAULT_ARENA_BYTES_def)
  have "(RING_HEADER_SIZE + unat DEFAULT_SLOT_COUNT * align8 (SLOT_HEADER_SIZE + unat cap)) mod 2 ^ 64 \<le> length m"
    using fit rb by (intro order_trans [OF mod_less_eq_dividend]) (simp add: n32 size_defs)
  then obtain m1 g where init: "ring_init m DEFAULT_SLOT_COUNT cap = (m1, Inr g)" by (simp add: ring_init_def Let_def not_less)
  have "align8 (SLOT_HEADER_SIZE + unat cap) < 2 ^ 32" using S by (simp add: size_defs)
  note ok = ring_init_ok [OF init this big]
  have g: "slot_count g = 32" "payload_cap g = cap" by (simp_all add: ok(3) DEFAULT_SLOT_COUNT_def)
  define a where "a = arena_new (ring_bytes cap) DEFAULT_ARENA_BYTES (unat (slot_count g))"
  have a: "bank_size a = 2 ^ 20" "banks a = 32" "mapping_offset a = ring_bytes cap"
    by (simp_all add: a_def arena_new_def Let_def g DEFAULT_ARENA_BYTES_def)
  define m' where "m' = set_worker_hint m1 (word_of_nat (clamp_workers workers))"
  have ok': "ring_ok g m'" using ok(1) unfolding m'_def by (rule ring_ok_write)
  have l: "length m' = length m" using length_ring_init [OF init] by (simp add: m'_def set_worker_hint_def)
  have "unat (slot_stride g) = ?S" using S by (simp add: ok(3) size_defs unat_of_nat_u32)
  then have "arena_ok g a m'" using fit l by (simp add: arena_ok_def a g rb size_defs DEFAULT_ARENA_BYTES_def)
  moreover have "v_state (view g m' t) = ST_FREE" if "t < slot_count g" for t
    using ok(4) [of t] that view_seq(4) [OF ok(1) that] by (simp add: m'_def g DEFAULT_SLOT_COUNT_def)
  moreover have "start_ring cap workers m = (m', Inr (g, a))" by (simp add: start_ring_def init m'_def a_def)
  ultimately show thesis using that g a(1) ok' by (simp add: mem_ok_def)
qed

lemma data_limit_bounds: "1 \<le> unat (data_limit w 32)" "unat (data_limit w 32) \<le> 32"
proof -
  define k where "k = min (if w = 0 then word_of_nat DEFAULT_WORKER_COUNT else w) (max 32 1 :: u32)"
  define r where "r = max (k div 4) 1"
  have eq: "data_limit w 32 = max (if r \<le> k then k - r else 0) 1" by (simp add: data_limit_def Let_def k_def r_def)
  show "1 \<le> unat (data_limit w 32)" unfolding eq by (simp add: max_def word_le_nat_alt)
  have k: "unat k \<le> 32" by (simp add: k_def min_def word_le_nat_alt)
  have "unat (if r \<le> k then k - r else 0) \<le> unat k" by (simp add: unat_sub)
  then show "unat (data_limit w 32) \<le> 32" unfolding eq using k by (simp add: max_def)
qed

lemma new_session_ready:
  assumes "slot_count g = 32" and "plan_ok g a plan" and "mem_ok g a m" and "\<And>t. t < slot_count g \<Longrightarrow> v_state (view g m t) = ST_FREE" and "P s"
  shows "session_ready g a plan P (new_session g m s)"
proof -
  have g: "gt_queued (for_ring m g) = 0" "gt_avail (for_ring m g) = gt_limit (for_ring m g)"
    "gt_limit (for_ring m g) = unat (data_limit (worker_hint m) 32)"
    using data_limit_bounds(1) [of "worker_hint m"] assms(1) by (simp_all add: for_ring_def gate_new_def Let_def max_def)
  show ?thesis
    using assms g data_limit_bounds [of "worker_hint m"] by (simp add: session_ready_def session_ok_def new_session_def)
qed

text \<open>C2. A read comes back whole: on a ring the director has just laid out, for any payload capacity from 24 bytes to 2 GiB, a
  file opened through the director on a memory root and read the way the shim reads, in fragments under the gate's permits,
  each served over the ring by the dispatcher inline or through its slot's bank, gives the caller exactly the bytes
  the file has there and the count of them, short only at the end of the file, leaves the rest of the buffer alone,
  and leaves every slot free and every permit back.\<close>

theorem read_end_to_end:
  assumes cap: "24 \<le> unat cap" "unat cap \<le> 2 ^ 31" and len: "length m0 = map_size cap"
    and root: "d_roots (ds_dir s) root = Some memory_provider" and p: "norm_req path = Inr p"
    and opened: "open_info_at root path flags s = (s1, Inr oi)"
    and F: "F = body_of (mem_files (ds_world s1)) (resolve_in (ds_world s) p)"
    and fit: "unat offset + length buf < 2 ^ 64" and n: "n = min (length buf) (length F - unat offset)"
  shows "\<exists>m g a e'. start_ring cap workers m0 = (m, Inr (g, a)) \<and>
    read_fragmented (session_client g a now) (shim_plan g cap DEFAULT_ARENA_BYTES) (oi_fh oi) offset buf (new_session g m s1) =
      Some (e', take n (drop (unat offset) F) @ drop n buf, Inr n) \<and>
    session_ready g a (shim_plan g cap DEFAULT_ARENA_BYTES) (\<lambda>s. True) e'"
proof -
  obtain m g a where st: "start_ring cap workers m0 = (m, Inr (g, a))" "slot_count g = 32" "payload_cap g = cap" "bank_size a = 2 ^ 20"
    and ok: "mem_ok g a m" and free: "\<And>t. t < slot_count g \<Longrightarrow> v_state (view g m t) = ST_FREE"
    using start_ring_ok [OF cap len] by blast
  let ?plan = "shim_plan g cap DEFAULT_ARENA_BYTES"
  have plan: "plan_ok g a ?plan"
    using st cap by (simp add: plan_ok_def shim_plan_def bulk_bank_bytes_def DEFAULT_ARENA_BYTES_def max_read_data_def)
  obtain h sz dir w' where o: "mem_open (VPath root p) flags (ds_world s) = (w', Inr (h, sz, dir))" and w: "ds_world s1 = w'"
    and r: "d_opens (ds_dir s1) (oi_fh oi) = Some \<lparr>rec_backend = memory_provider, rec_bh = h, rec_size = sz, rec_is_dir = dir,
      rec_cursor = (if flags AND OPEN_APPEND \<noteq> 0 then Some sz else None)\<rparr>"
    using opened by (rule open_info_cases) (use root p in auto)
  have "holds_file (oi_fh oi) h (resolve_in (ds_world s) p) F s1"
    using mem_open_at [OF o] r w F by (simp add: holds_file_def file_open_def VPath_def)
  then have "session_ready g a ?plan (holds_file (oi_fh oi) h (resolve_in (ds_world s) p) F) (new_session g m s1)"
    using new_session_ready [of g a ?plan m "holds_file (oi_fh oi) h (resolve_in (ds_world s) p) F" s1] st(2) plan ok free by blast
  from mems.reads_file [OF this fit n, of now] obtain e' where
    "read_fragmented (session_client g a now) ?plan (oi_fh oi) offset buf (new_session g m s1) =
      Some (e', take n (drop (unat offset) F) @ drop n buf, Inr n)"
    "session_ready g a ?plan (holds_file (oi_fh oi) h (resolve_in (ds_world s) p) F) e'" by blast
  moreover from this(2) have "session_ready g a ?plan (\<lambda>s. True) e'" by (simp add: session_ready_def session_ok_def)
  ultimately show ?thesis using st(1) by blast
qed

theorem read_end_to_end_witness:
  "\<exists>m g a e'. start_ring 64 4 (replicate (map_size 64) 0) = (m, Inr (g, a)) \<and>
    read_fragmented (session_client g a 0) (shim_plan g 64 DEFAULT_ARENA_BYTES) 1 1 [7, 7, 7]
      (new_session g m (fst (open_info_at 0 [97] OPEN_READ demo_session))) = Some (e', [2, 7, 7], Inr 1) \<and>
    session_ready g a (shim_plan g 64 DEFAULT_ARENA_BYTES) (\<lambda>s. True) e'"
proof -
  let ?s = "fst (open_info_at 0 [97] OPEN_READ demo_session)"
  have o: "open_info_at 0 [97] OPEN_READ demo_session =
      (?s, Inr \<lparr>oi_fh = 1, oi_size = 2, oi_is_dir = False, oi_immutable = False, oi_mount_gen = 2\<rparr>)"
    and f: "mem_files (ds_world ?s) = mem_files demo_mem"
    by (simp_all add: open_info_at_def demo_norm provider_for_def demo_session_def mount_def director_new_def mem_caps_def
        on_world_def mem_open_def demo_resolve demo_mem_files VPath_def Let_def open_flag_defs ht_insert_def ht_fresh_def
        ht_new_def act_bind_def memory_provider_def read_core_def ret_def)
  have r: "d_roots (ds_dir demo_session) 0 = Some memory_provider" and w: "ds_world demo_session = demo_mem"
    by (simp_all add: demo_session_def mount_def)
  have F: "[1, 2] = body_of (mem_files (ds_world ?s)) (resolve_in (ds_world demo_session) [97])"
    by (simp add: f w demo_resolve demo_mem_files body_of_def)
  show ?thesis
    using read_end_to_end [OF _ _ _ r demo_norm o F, of 64 "replicate (map_size 64) 0" 1 "[7, 7, 7]" 1 4 0] by simp
qed

section \<open>Where the shim's chunk outgrows a bank\<close>

text \<open>The shim asks for at least 256 KiB a bulk request, whatever the bank: with more than 128 slots on the default arena a bank is
  smaller, the director then answers with a bank's worth, and the reader takes the short answer for the end of the
  file. The director's own rings have 32 slots.\<close>

lemma chunk_above_bank:
  "bank_size (arena_new off DEFAULT_ARENA_BYTES 256) < bulk_bank_bytes \<lparr>slot_count = 256, slot_stride = s, payload_cap = cap\<rparr> cap DEFAULT_ARENA_BYTES"
  by (simp add: arena_new_def bulk_bank_bytes_def DEFAULT_ARENA_BYTES_def)

end
