(* ===== verification/Spec2Isabelle.thy ===== *)
theory Spec2Isabelle
  imports Vtree Reg_Wire Shimcfg Source_Blob Reg_Merge Ring_Claims Ring_Wait Read_Path
begin

text \<open>
  A verification of the aether virtual file system.
\<close>

end
